(* ===== verification/Ssx_Prelude.thy ===== *)
theory Ssx_Prelude
  imports Main "HOL-Library.Word"
begin

text \<open>
  Shared vocabulary of the development: the C integer types the server uses, the X11
  error codes that every request handler returns, the convention for allocation
  failure, and the generic list and word lemmas that several components need.

  \<^item> Widths are those of an LP64 build with 32-bit resource identifiers
    (\<^verbatim>\<open>_XSERVER64\<close> in \<^verbatim>\<open>include/X.h\<close>): XID, Mask and Atom are 32 bits wide,
    \<^verbatim>\<open>unsigned long\<close> (bit-vector words and RESTYPE) is 64 bits wide.
  \<^item> A routine that calls \<^verbatim>\<open>xalloc\<close>, \<^verbatim>\<open>malloc\<close> or \<^verbatim>\<open>ALLOCATE_LOCAL\<close> takes an
    allocation oracle: the n-th allocation of the call succeeds iff the oracle says
    so for n. Every out-of-memory path of the source is then a branch of the model.
\<close>

unbundle bit_operations_syntax

type_synonym byte = "8 word"
type_synonym CARD16 = "16 word"
type_synonym CARD32 = "32 word"
type_synonym XID = "32 word"
type_synonym Mask = "32 word"
type_synonym ulong = "64 word"

type_synonym alloc = "nat \<Rightarrow> bool"

abbreviation alloc_ok :: alloc where
  "alloc_ok \<equiv> (\<lambda>_. True)"

text \<open>The collection of representation invariants, unfolded by the component proofs.\<close>

named_theorems inv_defs

subsection \<open>Lists\<close>

lemma set_list_update_le: "x \<in> set (xs[i := v]) \<Longrightarrow> x = v \<or> x \<in> set xs"
  using set_update_subset_insert by fastforce

lemma nth_replicate_update:
  "i < length xs \<Longrightarrow> xs[i := v] ! j = (if i = j then v else xs ! j)"
  by (simp add: nth_list_update)

lemma filter_concat_single:
  assumes "h < length xss" "\<And>i. i < length xss \<Longrightarrow> i \<noteq> h \<Longrightarrow> filter P (xss ! i) = []"
  shows "filter P (concat xss) = filter P (xss ! h)"
proof -
  have none: "filter P (concat ys) = []" if "\<forall>zs \<in> set ys. filter P zs = []" for ys
    using that by (induction ys) auto
  have "\<forall>zs \<in> set (take h xss). filter P zs = []" "\<forall>zs \<in> set (drop (Suc h) xss). filter P zs = []"
    using assms(2) by (fastforce simp: in_set_conv_nth)+
  then have "filter P (concat (take h xss)) = []" "filter P (concat (drop (Suc h) xss)) = []"
    using none by blast+
  moreover have "concat xss = concat (take h xss) @ xss ! h @ concat (drop (Suc h) xss)"
    by (metis assms(1) concat.simps(2) concat_append id_take_nth_drop)
  ultimately show ?thesis by simp
qed

lemma concat_update:
  "h < length xss \<Longrightarrow> concat (xss[h := ys]) = concat (take h xss) @ ys @ concat (drop (Suc h) xss)"
  by (simp add: upd_conv_take_nth_drop)

lemma concat_split:
  "h < length xss \<Longrightarrow> concat xss = concat (take h xss) @ xss ! h @ concat (drop (Suc h) xss)"
  by (metis concat.simps(2) concat_append id_take_nth_drop)

lemma filter_keep_other:
  "x \<noteq> y \<Longrightarrow> filter (\<lambda>r. f r \<noteq> y \<and> f r = x) rs = filter (\<lambda>r. f r = x) rs"
  by (rule filter_cong) auto

lemma find_filter: "List.find (\<lambda>x. Q x \<and> P x) xs = List.find P (filter Q xs)"
  by (induction xs) auto

subsection \<open>Words\<close>

lemma bit_exp_word [simp]: "bit (2 ^ n :: 'a::len word) m \<longleftrightarrow> m = n \<and> n < LENGTH('a)"
  by (auto simp: bit_exp_iff possible_bit_word)

lemma and_exp_eq_0_iff:
  "n < LENGTH('a) \<Longrightarrow> (w AND 2 ^ n = (0 :: 'a::len word)) \<longleftrightarrow> \<not> bit w n"
proof
  assume n: "n < LENGTH('a)" and eq: "w AND 2 ^ n = 0"
  have "\<not> bit (w AND 2 ^ n) n" unfolding eq by simp
  then show "\<not> bit w n" using n by (simp add: bit_and_iff)
next
  assume "n < LENGTH('a)" and "\<not> bit w n"
  then show "w AND 2 ^ n = 0"
    by (intro bit_word_eqI) (auto simp: bit_and_iff)
qed

lemma bit_exp_minus_1 [simp]:
  "bit (2 ^ n - 1 :: 'a::len word) m \<longleftrightarrow> m < LENGTH('a) \<and> m < n"
proof -
  have "2 ^ n - 1 = (mask n :: 'a word)" by (simp add: mask_eq_exp_minus_1)
  then show ?thesis by (auto simp: bit_mask_iff possible_bit_word)
qed

lemma uint_int_unat: "uint w = int (unat w)"
  by simp

lemma unat_uint_less_eq:
  "unat w \<le> m \<longleftrightarrow> uint w \<le> int m" "m \<le> unat w \<longleftrightarrow> int m \<le> uint w"
  "unat w < m \<longleftrightarrow> uint w < int m" "m < unat w \<longleftrightarrow> int m < uint w"
  by (simp_all only: uint_int_unat of_nat_le_iff of_nat_less_iff)

subsection \<open>Invariants of step relations\<close>

text \<open>A server is a step relation; what one step keeps, every run keeps.\<close>

locale stable_invariant =
  fixes step :: "'s \<Rightarrow> 's \<Rightarrow> bool" and inv :: "'s \<Rightarrow> bool"
  assumes step_keeps: "step s s' \<Longrightarrow> inv s \<Longrightarrow> inv s'"
begin

lemma reachable: "step\<^sup>*\<^sup>* s s' \<Longrightarrow> inv s \<Longrightarrow> inv s'"
  by (induction rule: rtranclp_induct) (blast intro: step_keeps)+

end

end
