(* ===== verification/Record_Set.thy ===== *)
theory Record_Set
  imports Ssx_Prelude
begin

text \<open>
  The set abstract data type of the RECORD extension (\<^verbatim>\<open>record/set.c\<close>, \<^verbatim>\<open>record/set.h\<close>):
  sets of 16-bit protocol numbers given by a list of intervals, in two
  representations (a bit vector and a sorted list of intervals) behind one table of
  operations, with a heuristic that chooses between them.

  An iterator (\<^verbatim>\<open>RecordSetIteratePtr\<close>) is a natural number, 0 standing for NULL: for a bit
  vector it is the bit to look at next, for an interval list the index of the next
  interval (a pointer to element k, k > 0; NULL means element 0).

  The interface \<open>record_set\<close> states what \<^verbatim>\<open>set.h\<close> promises to a user of the ADT; both
  representations interpret it.
\<close>

section \<open>Data\<close>

record RecordSetInterval =
  ifirst :: CARD16
  ilast :: CARD16

datatype RecordSetOperations =
    BitVectorSetOperations | BitVectorNoFreeOperations
  | IntervalListSetOperations | IntervalListNoFreeOperations

record BitVectorSet =
  bv_ops :: RecordSetOperations
  maxMember :: int
  bitvec :: "ulong list"

record IntervalListSet =
  il_ops :: RecordSetOperations
  intervals :: "RecordSetInterval list"

datatype RecordSet = BitVector BitVectorSet | IntervalList IntervalListSet

fun maxMember_loop :: "RecordSetInterval list \<Rightarrow> int \<Rightarrow> int" where
  "maxMember_loop [] m = m"
| "maxMember_loop (p # ps) m =
     maxMember_loop ps (if m < uint (ilast p) then uint (ilast p) else m)"

definition maxMemberInInterval :: "RecordSetInterval list \<Rightarrow> int" where
  "maxMemberInInterval pIntervals = maxMember_loop pIntervals (-1)"

section \<open>Bit vectors\<close>

text \<open>
  A read beyond the vector (a negative number is converted to a huge unsigned index) is
  undefined in C and is \<open>None\<close> here.
\<close>

definition BitVectorIsMemberOfSet :: "BitVectorSet \<Rightarrow> int \<Rightarrow> ulong option" where
  "BitVectorIsMemberOfSet s pm =
     (if pm > maxMember s then Some 0
      else if pm < 0 \<or> length (bitvec s) \<le> nat pm div 64 then None
      else Some (bitvec s ! (nat pm div 64) AND push_bit (nat pm mod 64) 1))"

function bv_skip :: "BitVectorSet \<Rightarrow> ulong \<Rightarrow> nat \<Rightarrow> nat" where
  "bv_skip s skipval w =
     (if int (w * 64) \<le> maxMember s \<and> bitvec s ! w = skipval
      then bv_skip s skipval (Suc w) else w)"
  by pat_completeness auto
termination
  by (relation "measure (\<lambda>(s, v, w). nat (maxMember s + 1 - int (w * 64)))") auto

declare bv_skip.simps [simp del]

function bv_walk :: "ulong \<Rightarrow> bool \<Rightarrow> nat \<Rightarrow> nat" where
  "bv_walk bits bitval walkbit =
     (if walkbit < 64 \<and> ((bits AND push_bit walkbit 1 = 0) = bitval)
      then bv_walk bits bitval (Suc walkbit) else walkbit)"
  by pat_completeness auto
termination
  by (relation "measure (\<lambda>(b, v, n). 64 - n)") auto

declare bv_walk.simps [simp del]

definition BitVectorFindBit :: "BitVectorSet \<Rightarrow> nat \<Rightarrow> bool \<Rightarrow> int" where
  "BitVectorFindBit s iterbit bitval =
     (let startlong = iterbit div 64;
          startbit = startlong * 64;
          skipval = (if bitval then 0 else NOT 0)
      in if int startbit > maxMember s then -1
         else
           let bits = bitvec s ! startlong;
               usefulbits = NOT (push_bit (iterbit - startbit) 1 - 1);
               w = (if bits AND usefulbits = skipval AND usefulbits
                    then bv_skip s skipval (Suc startlong) else startlong)
           in if int (w * 64) > maxMember s then -1
              else
                let walkbit = (if w * 64 < iterbit then iterbit - w * 64 else 0)
                in int (w * 64 + bv_walk (bitvec s ! w) bitval walkbit))"

definition BitVectorIterateSet ::
    "BitVectorSet \<Rightarrow> nat \<Rightarrow> nat \<times> RecordSetInterval option" where
  "BitVectorIterateSet s pIter =
     (let b = BitVectorFindBit s pIter True
      in if b = -1 then (0, None)
         else
           let b' = BitVectorFindBit s (nat b) False;
               iv = \<lparr>ifirst = word_of_int b,
                     ilast = word_of_int (if b' < 0 then maxMember s else b' - 1)\<rparr>
           in (unat (ilast iv) + 1, Some iv))"

text \<open>\<^verbatim>\<open>sizeof(BitVectorSet)\<close> is 16 on LP64: the operations pointer, an int and padding.\<close>

definition BitVectorSetMemoryRequirements :: "int \<Rightarrow> nat" where
  "BitVectorSetMemoryRequirements maxMem = 16 + nat (maxMem + 64) div 64 * 8"

fun bv_fill :: "nat list \<Rightarrow> ulong list \<Rightarrow> ulong list" where
  "bv_fill [] v = v"
| "bv_fill (j # js) v = bv_fill js (v[j div 64 := v ! (j div 64) OR push_bit (j mod 64) 1])"

fun bv_fill_all :: "RecordSetInterval list \<Rightarrow> ulong list \<Rightarrow> ulong list" where
  "bv_fill_all [] v = v"
| "bv_fill_all (p # ps) v =
     bv_fill_all ps (bv_fill [unat (ifirst p) ..< Suc (unat (ilast p))] v)"

definition BitVectorCreateSet ::
    "alloc \<Rightarrow> RecordSetInterval list \<Rightarrow> bool \<Rightarrow> nat \<Rightarrow> BitVectorSet option" where
  "BitVectorCreateSet ok pIntervals haveMem memsize =
     (if \<not> haveMem \<and> \<not> ok 0 then None
      else Some \<lparr>bv_ops = (if haveMem then BitVectorNoFreeOperations else BitVectorSetOperations),
                 maxMember = maxMemberInInterval pIntervals,
                 bitvec = bv_fill_all pIntervals (replicate ((memsize - 16) div 8) 0)\<rparr>)"

section \<open>Interval lists\<close>

function il_search :: "RecordSetInterval list \<Rightarrow> int \<Rightarrow> int \<Rightarrow> int \<Rightarrow> ulong" where
  "il_search ivs pm lo hi =
     (if lo \<le> hi then
        let probe = (hi + lo) div 2; iv = ivs ! nat probe
        in if uint (ifirst iv) \<le> pm \<and> pm \<le> uint (ilast iv) then 1
           else if pm < uint (ifirst iv) then il_search ivs pm lo (probe - 1)
           else il_search ivs pm (probe + 1) hi
      else 0)"
  by pat_completeness auto
termination
  by (relation "measure (\<lambda>(ivs, pm, lo, hi). nat (hi + 1 - lo))") auto

declare il_search.simps [simp del]

definition IntervalListIsMemberOfSet :: "IntervalListSet \<Rightarrow> int \<Rightarrow> ulong" where
  "IntervalListIsMemberOfSet s pm =
     il_search (intervals s) pm 0 (int (length (intervals s)) - 1)"

definition IntervalListIterateSet ::
    "IntervalListSet \<Rightarrow> nat \<Rightarrow> nat \<times> RecordSetInterval option" where
  "IntervalListIterateSet s pIter =
     (if pIter < length (intervals s)
      then (Suc pIter, Some (intervals s ! pIter))
      else (0, None))"

definition IntervalListMemoryRequirements :: "nat \<Rightarrow> nat" where
  "IntervalListMemoryRequirements nIntervals = 16 + nIntervals * 4"

text \<open>
  The insertion sort: the slot for an interval is before the first one with a larger
  \<^verbatim>\<open>first\<close>; later intervals are shifted up.
\<close>

definition il_insert :: "RecordSetInterval \<Rightarrow> RecordSetInterval list \<Rightarrow> RecordSetInterval list" where
  "il_insert p stack =
     takeWhile (\<lambda>q. \<not> ifirst p < ifirst q) stack @ p # dropWhile (\<lambda>q. \<not> ifirst p < ifirst q) stack"

fun il_sort :: "RecordSetInterval list \<Rightarrow> RecordSetInterval list \<Rightarrow> RecordSetInterval list" where
  "il_sort [] stack = stack"
| "il_sort (p # ps) stack = il_sort ps (il_insert p stack)"

fun il_merge :: "RecordSetInterval list \<Rightarrow> RecordSetInterval list" where
  "il_merge (a # b # rest) =
     (if unat (ilast a) + 1 < unat (ifirst b) then a # il_merge (b # rest)
      else il_merge (a\<lparr>ilast := max (ilast a) (ilast b)\<rparr> # rest))"
| "il_merge ivs = ivs"

definition IntervalListCreateSet ::
    "alloc \<Rightarrow> RecordSetInterval list \<Rightarrow> bool \<Rightarrow> nat \<Rightarrow> IntervalListSet option" where
  "IntervalListCreateSet ok pIntervals haveMem memsize =
     (if pIntervals \<noteq> [] \<and> \<not> ok 0 then None
      else
        let stackIntervals = il_merge (il_sort pIntervals [])
        in if \<not> haveMem \<and> \<not> ok 1 then None
           else Some \<lparr>il_ops = (if haveMem then IntervalListNoFreeOperations
                                else IntervalListSetOperations),
                      intervals = stackIntervals\<rparr>)"

section \<open>Choosing a representation, and the user-visible functions\<close>

text \<open>The first component is the size, the second says whether a bit vector is chosen.\<close>

definition RecordSetMemoryRequirements_choice :: "RecordSetInterval list \<Rightarrow> nat \<times> bool" where
  "RecordSetMemoryRequirements_choice pIntervals =
     (let maxMem = maxMemberInInterval pIntervals;
          bmsize = BitVectorSetMemoryRequirements maxMem;
          rlsize = IntervalListMemoryRequirements (length pIntervals)
      in if (length pIntervals > 1 \<and> maxMem \<le> 255) \<or> bmsize < rlsize
         then (bmsize, True) else (rlsize, False))"

definition RecordSetMemoryRequirements :: "RecordSetInterval list \<Rightarrow> nat \<times> nat" where
  "RecordSetMemoryRequirements pIntervals =
     (fst (RecordSetMemoryRequirements_choice pIntervals), 8)"

text \<open>The caller's memory, when it passes any, is an address and a size.\<close>

definition RecordCreateSet ::
    "alloc \<Rightarrow> RecordSetInterval list \<Rightarrow> (ulong \<times> nat) option \<Rightarrow> RecordSet option" where
  "RecordCreateSet ok pIntervals pMem =
     (let (size, useBitVector) = RecordSetMemoryRequirements_choice pIntervals;
          bad = (case pMem of None \<Rightarrow> False
                 | Some (addr, memsize) \<Rightarrow> addr AND (8 - 1) \<noteq> 0 \<or> memsize < size)
      in if bad then None
         else if useBitVector
              then map_option BitVector (BitVectorCreateSet ok pIntervals (pMem \<noteq> None) size)
              else map_option IntervalList (IntervalListCreateSet ok pIntervals (pMem \<noteq> None) size))"

fun RecordIsMemberOfSet :: "RecordSet \<Rightarrow> int \<Rightarrow> ulong option" where
  "RecordIsMemberOfSet (BitVector s) pm = BitVectorIsMemberOfSet s pm"
| "RecordIsMemberOfSet (IntervalList s) pm = Some (IntervalListIsMemberOfSet s pm)"

fun RecordIterateSet :: "RecordSet \<Rightarrow> nat \<Rightarrow> nat \<times> RecordSetInterval option" where
  "RecordIterateSet (BitVector s) pIter = BitVectorIterateSet s pIter"
| "RecordIterateSet (IntervalList s) pIter = IntervalListIterateSet s pIter"

text \<open>Destroying a set frees its memory unless the caller supplied it.\<close>

fun RecordDestroySet :: "RecordSet \<Rightarrow> bool" where
  "RecordDestroySet (BitVector s) = (bv_ops s = BitVectorSetOperations)"
| "RecordDestroySet (IntervalList s) = (il_ops s = IntervalListSetOperations)"

text \<open>The loop \<^verbatim>\<open>set.h\<close> gives as typical usage, with the number of calls bounded.\<close>

fun iterate_from ::
    "(nat \<Rightarrow> nat \<times> RecordSetInterval option) \<Rightarrow> nat \<Rightarrow> nat \<Rightarrow> RecordSetInterval list option" where
  "iterate_from next 0 pIter = None"
| "iterate_from next (Suc fuel) pIter =
     (case next pIter of
        (pIter', iv) \<Rightarrow>
          if pIter' = 0 then Some []
          else case iv of None \<Rightarrow> None
               | Some interval \<Rightarrow> map_option (Cons interval) (iterate_from next fuel pIter'))"

section \<open>The interface of the ADT\<close>

definition iv_set :: "RecordSetInterval \<Rightarrow> nat set" where
  "iv_set p = {unat (ifirst p) .. unat (ilast p)}"

definition ivs_set :: "RecordSetInterval list \<Rightarrow> nat set" where
  "ivs_set ps = (\<Union>p \<in> set ps. iv_set p)"

definition proper :: "RecordSetInterval list \<Rightarrow> bool" where
  "proper ps \<longleftrightarrow> (\<forall>p \<in> set ps. ifirst p \<le> ilast p)"

text \<open>Increasing order, no overlap and no two intervals that touch.\<close>

definition separated :: "RecordSetInterval list \<Rightarrow> bool" where
  "separated ps \<longleftrightarrow> proper ps \<and> sorted_wrt (\<lambda>a b. unat (ilast a) + 1 < unat (ifirst b)) ps"

lemma ivs_set_simps [simp]:
  "ivs_set [] = {}"
  "ivs_set (p # ps) = iv_set p \<union> ivs_set ps"
  "ivs_set (ps @ qs) = ivs_set ps \<union> ivs_set qs"
  by (auto simp: ivs_set_def)

lemma finite_iv_set [simp]: "finite (iv_set p)" and finite_ivs_set [simp]: "finite (ivs_set ps)"
  by (simp_all add: iv_set_def ivs_set_def)

lemma proper_simps [simp]:
  "proper []" "proper (p # ps) \<longleftrightarrow> ifirst p \<le> ilast p \<and> proper ps"
  "proper (ps @ qs) \<longleftrightarrow> proper ps \<and> proper qs"
  by (auto simp: proper_def)

lemma separated_simps [simp]:
  "separated []"
  "separated (p # ps) \<longleftrightarrow> ifirst p \<le> ilast p \<and> separated ps \<and>
     (\<forall>q \<in> set ps. unat (ilast p) + 1 < unat (ifirst q))"
  by (auto simp: separated_def)

lemma separated_above:
  "separated (p # ps) \<Longrightarrow> m \<in> ivs_set ps \<Longrightarrow> unat (ilast p) + 1 < m"
  by (fastforce simp: ivs_set_def iv_set_def)

lemma separated_ConsI:
  assumes "ifirst p \<le> ilast p" "separated ps" "\<forall>m \<in> ivs_set ps. unat (ilast p) + 1 < m"
  shows "separated (p # ps)"
proof -
  have "unat (ilast p) + 1 < unat (ifirst q)" if "q \<in> set ps" for q
  proof -
    have "ifirst q \<le> ilast q" using assms(2) that by (auto simp: separated_def proper_def)
    then have "unat (ifirst q) \<in> iv_set q" by (simp add: iv_set_def word_le_nat_alt)
    then show ?thesis using assms(3) that by (auto simp: ivs_set_def)
  qed
  then show ?thesis using assms by simp
qed

text \<open>A set has only one separated list of intervals.\<close>

lemma separated_head:
  assumes "separated (p # ps)" "separated (q # qs)" "ivs_set (p # ps) = ivs_set (q # qs)"
  shows "unat (ifirst p) \<le> unat (ifirst q) \<and> unat (ilast p) \<le> unat (ilast q)"
proof -
  have p: "unat (ifirst p) \<le> unat (ilast p)" and q: "unat (ifirst q) \<le> unat (ilast q)"
    using assms by (simp_all add: word_le_nat_alt)
  have mq: "unat (ifirst q) \<in> iv_set q" and mp: "unat (ifirst p) \<in> iv_set p"
    using p q by (simp_all add: iv_set_def)
  have "unat (ifirst q) \<in> ivs_set (p # ps)" using mq assms(3) by simp
  then have "unat (ifirst p) \<le> unat (ifirst q)"
    using separated_above [OF assms(1)] p by (fastforce simp: iv_set_def)
  moreover have "unat (ifirst p) \<in> ivs_set (q # qs)" using mp assms(3) by auto
  then have "unat (ifirst q) \<le> unat (ifirst p)"
    using separated_above [OF assms(2)] q by (fastforce simp: iv_set_def)
  moreover have "unat (ilast p) \<le> unat (ilast q)"
  proof (rule ccontr)
    assume "\<not> unat (ilast p) \<le> unat (ilast q)"
    then have "unat (ilast q) + 1 \<in> ivs_set (p # ps)"
      using \<open>unat (ifirst p) \<le> unat (ifirst q)\<close> q by (simp add: iv_set_def)
    then have "unat (ilast q) + 1 \<in> ivs_set (q # qs)" unfolding assms(3) .
    then have "unat (ilast q) + 1 \<in> iv_set q \<union> ivs_set qs" by simp
    then have "unat (ilast q) + 1 \<in> ivs_set qs" by (simp add: iv_set_def)
    then show False using separated_above [OF assms(2)] by fastforce
  qed
  ultimately show ?thesis by simp
qed

lemma separated_unique:
  "separated ps \<Longrightarrow> separated qs \<Longrightarrow> ivs_set ps = ivs_set qs \<Longrightarrow> ps = qs"
proof (induction ps arbitrary: qs)
  case Nil
  then show ?case by (cases qs) (auto simp: iv_set_def word_le_nat_alt)
next
  case (Cons p ps)
  then obtain q qs' where qs: "qs = q # qs'"
    by (cases qs) (auto simp: iv_set_def word_le_nat_alt)
  note heads = separated_head [OF Cons.prems(1) Cons.prems(2) [unfolded qs] Cons.prems(3) [unfolded qs]]
    separated_head [OF Cons.prems(2) [unfolded qs] Cons.prems(1) Cons.prems(3) [unfolded qs, symmetric]]
  then have "ifirst p = ifirst q" "ilast p = ilast q" by (auto simp: word_unat_eq_iff)
  then have eq: "p = q" by simp
  have "ivs_set ps = ivs_set (p # ps) - iv_set p"
    using separated_above [OF Cons.prems(1)] by (fastforce simp: iv_set_def)
  moreover have "ivs_set qs' = ivs_set (q # qs') - iv_set q"
    using separated_above [OF Cons.prems(2) [unfolded qs]] by (fastforce simp: iv_set_def)
  ultimately have "ivs_set ps = ivs_set qs'" using Cons.prems(3) qs eq by simp
  then show ?case using Cons.IH [of qs'] Cons.prems qs eq by simp
qed

locale record_set =
  fixes invar :: "'s \<Rightarrow> bool"
    and elems :: "'s \<Rightarrow> nat set"
    and remaining :: "'s \<Rightarrow> nat \<Rightarrow> nat set"
    and member :: "'s \<Rightarrow> int \<Rightarrow> ulong option"
    and iterate :: "'s \<Rightarrow> nat \<Rightarrow> nat \<times> RecordSetInterval option"
  assumes finite_elems: "invar s \<Longrightarrow> finite (elems s)"
    and member_law: "invar s \<Longrightarrow> \<exists>w. member s (int m) = Some w \<and> (w \<noteq> 0 \<longleftrightarrow> m \<in> elems s)"
    and remaining_start: "invar s \<Longrightarrow> remaining s 0 = elems s"
    and remaining_elems: "invar s \<Longrightarrow> remaining s i \<subseteq> elems s"
    and iterate_done: "invar s \<Longrightarrow> iterate s i = (j, None) \<Longrightarrow> j = 0 \<and> remaining s i = {}"
    and iterate_next: "invar s \<Longrightarrow> iterate s i = (j, Some iv) \<Longrightarrow>
          j \<noteq> 0 \<and> ifirst iv \<le> ilast iv \<and> remaining s i = iv_set iv \<union> remaining s j \<and>
          (\<forall>m \<in> remaining s j. unat (ilast iv) + 1 < m)"
begin

lemma iterate_from_remaining:
  "invar s \<Longrightarrow> card (remaining s i) < fuel \<Longrightarrow>
   \<exists>ivs. iterate_from (iterate s) fuel i = Some ivs \<and> separated ivs \<and> ivs_set ivs = remaining s i"
proof (induction fuel arbitrary: i)
  case 0
  then show ?case by simp
next
  case (Suc fuel)
  obtain j r where it: "iterate s i = (j, r)" by (cases "iterate s i")
  show ?case
  proof (cases r)
    case None
    then have "j = 0" "remaining s i = {}" using iterate_done [OF Suc.prems(1)] it by simp_all
    then show ?thesis using it by simp
  next
    case (Some iv)
    have nxt: "j \<noteq> 0" "ifirst iv \<le> ilast iv" "remaining s i = iv_set iv \<union> remaining s j"
      and above: "\<And>m. m \<in> remaining s j \<Longrightarrow> unat (ilast iv) + 1 < m"
      using iterate_next [OF Suc.prems(1) it [unfolded Some]] by blast+
    have fin: "finite (remaining s i)"
      by (rule finite_subset [OF remaining_elems [OF Suc.prems(1)] finite_elems [OF Suc.prems(1)]])
    have le: "unat (ifirst iv) \<le> unat (ilast iv)"
      using nxt(2) by (simp add: word_le_nat_alt)
    have "unat (ifirst iv) \<in> iv_set iv" using le by (simp add: iv_set_def)
    moreover have "unat (ifirst iv) \<notin> remaining s j" using above le by fastforce
    ultimately have "remaining s j \<subset> remaining s i" unfolding nxt(3) by blast
    then have "card (remaining s j) < card (remaining s i)"
      by (rule psubset_card_mono [OF fin])
    then obtain ivs where ivs: "iterate_from (iterate s) fuel j = Some ivs"
      "separated ivs" "ivs_set ivs = remaining s j"
      using Suc.IH [of j] Suc.prems by auto
    have "separated (iv # ivs)"
      using ivs nxt(2) above by (intro separated_ConsI) simp_all
    moreover have "iterate_from (iterate s) (Suc fuel) i = Some (iv # ivs)"
      using ivs(1) nxt it Some by simp
    moreover have "ivs_set (iv # ivs) = remaining s i" using ivs(3) nxt by simp
    ultimately show ?thesis by blast
  qed
qed

lemma iterate_all:
  "invar s \<Longrightarrow> card (elems s) < fuel \<Longrightarrow>
   \<exists>ivs. iterate_from (iterate s) fuel 0 = Some ivs \<and> separated ivs \<and> ivs_set ivs = elems s"
  using iterate_from_remaining [of s 0 fuel] remaining_start [of s] by simp

end

section \<open>Bit vectors implement the interface\<close>

definition bv_bit :: "BitVectorSet \<Rightarrow> nat \<Rightarrow> bool" where
  "bv_bit s m \<longleftrightarrow> bit (bitvec s ! (m div 64)) (m mod 64)"

definition bv_elems :: "BitVectorSet \<Rightarrow> nat set" where
  "bv_elems s = {m. m < 64 * length (bitvec s) \<and> bv_bit s m}"

definition bv_inv :: "BitVectorSet \<Rightarrow> bool" where
  "bv_inv s \<longleftrightarrow> -1 \<le> maxMember s \<and> maxMember s \<le> 65535 \<and>
     length (bitvec s) = nat (maxMember s + 64) div 64 \<and>
     (\<forall>m \<in> bv_elems s. int m \<le> maxMember s)"

lemma bv_inv_bounds:
  assumes "bv_inv s"
  shows "int (64 * length (bitvec s)) \<le> maxMember s + 64" "maxMember s < int (64 * length (bitvec s))"
proof -
  define k where "k = nat (maxMember s + 64)"
  have "int k = maxMember s + 64" using assms by (simp add: k_def bv_inv_def)
  moreover have "64 * (k div 64) \<le> k" "k < 64 * (k div 64) + 64" by presburger+
  moreover have "length (bitvec s) = k div 64" using assms by (simp add: k_def bv_inv_def)
  ultimately show "int (64 * length (bitvec s)) \<le> maxMember s + 64"
    "maxMember s < int (64 * length (bitvec s))" by linarith+
qed

lemma bv_word_in_range: "bv_inv s \<Longrightarrow> int (w * 64) \<le> maxMember s \<longleftrightarrow> w < length (bitvec s)"
  using bv_inv_bounds [of s] by linarith

lemma bv_walk_spec:
  "n \<le> 64 \<Longrightarrow> n \<le> bv_walk bits v n \<and> bv_walk bits v n \<le> 64 \<and>
     (\<forall>k. n \<le> k \<and> k < bv_walk bits v n \<longrightarrow> bit bits k \<noteq> v) \<and>
     (bv_walk bits v n < 64 \<longrightarrow> bit bits (bv_walk bits v n) = v)"
proof (induction bits v n rule: bv_walk.induct)
  case (1 bits v n)
  show ?case
  proof (cases "n < 64 \<and> bit bits n \<noteq> v")
    case True
    then have step: "bv_walk bits v n = bv_walk bits v (Suc n)"
      by (subst bv_walk.simps) (simp add: and_exp_eq_0_iff)
    have "n < 64 \<and> ((bits AND push_bit n 1 = 0) = v)" using True by (simp add: and_exp_eq_0_iff)
    note IH = "1.IH" [OF this]
    then show ?thesis unfolding step using True IH
      by (metis Suc_leD Suc_leI le_less_Suc_eq not_less)
  next
    case False
    then have "bv_walk bits v n = n"
      by (subst bv_walk.simps) (auto simp: and_exp_eq_0_iff)
    then show ?thesis using False "1.prems" by auto
  qed
qed

lemma bv_walk_found:
  assumes "n \<le> b" "b < 64" "bit bits b = v"
  shows "bv_walk bits v n \<le> b" "bit bits (bv_walk bits v n) = v"
    "n \<le> bv_walk bits v n" "\<And>k. n \<le> k \<Longrightarrow> k < bv_walk bits v n \<Longrightarrow> bit bits k \<noteq> v"
proof -
  note spec = bv_walk_spec [of n bits v]
  show le: "bv_walk bits v n \<le> b" using spec assms by (metis le_trans less_imp_le_nat not_less)
  then show "bit bits (bv_walk bits v n) = v" "n \<le> bv_walk bits v n"
    "\<And>k. n \<le> k \<Longrightarrow> k < bv_walk bits v n \<Longrightarrow> bit bits k \<noteq> v"
    using spec assms by auto
qed

lemma bv_skip_spec:
  "w \<le> bv_skip s v w \<and> (\<forall>k. w \<le> k \<and> k < bv_skip s v w \<longrightarrow> bitvec s ! k = v) \<and>
     (int (bv_skip s v w * 64) \<le> maxMember s \<longrightarrow> bitvec s ! bv_skip s v w \<noteq> v)"
proof (induction s v w rule: bv_skip.induct)
  case (1 s v w)
  show ?case
  proof (cases "int (w * 64) \<le> maxMember s \<and> bitvec s ! w = v")
    case True
    then have step: "bv_skip s v w = bv_skip s v (Suc w)" by (subst bv_skip.simps) simp
    show ?thesis unfolding step using True "1.IH" [OF True]
      by (metis Suc_leD Suc_leI le_less_Suc_eq not_less)
  next
    case False
    then have "bv_skip s v w = w" by (subst bv_skip.simps) auto
    then show ?thesis using False by auto
  qed
qed

text \<open>The mask comparison asks whether the rest of the first word is all \<open>\<not> bitval\<close>.\<close>

lemma bv_useful_eq:
  fixes bits :: ulong
  shows "bits AND NOT (push_bit r 1 - 1) = (if v then 0 else NOT 0) AND NOT (push_bit r 1 - 1) \<longleftrightarrow>
     (\<forall>b. r \<le> b \<and> b < 64 \<longrightarrow> bit bits b \<noteq> v)" (is "?l = ?r \<longleftrightarrow> ?all")
proof -
  have "?l = ?r \<longleftrightarrow> (\<forall>b < 64. bit ?l b = bit ?r b)" by (auto simp: bit_eq_iff)
  also have "\<dots> \<longleftrightarrow> ?all"
    by (auto simp: bit_and_iff bit_not_iff not_less)
  finally show ?thesis .
qed

lemma word_differs_bit:
  fixes x :: ulong
  assumes "x \<noteq> (if v then 0 else NOT 0)" shows "\<exists>b < 64. bit x b = v"
proof (rule ccontr)
  assume "\<not> ?thesis"
  then have "x = (if v then 0 else NOT 0)" by (intro bit_word_eqI) (auto simp: bit_not_iff)
  then show False using assms by simp
qed

text \<open>Positions inside word \<open>w\<close> of the vector.\<close>

lemma bv_bit_word: "b < 64 \<Longrightarrow> bv_bit s (w * 64 + b) = bit (bitvec s ! w) b"
  by (simp add: bv_bit_def)

lemma bv_pos_word: obtains b where "k = k div 64 * 64 + b" "b < (64::nat)" "b = k mod 64"
  by (metis div_mult_mod_eq mod_less_divisor zero_less_numeral)

lemma bv_skipped_word:
  assumes "bitvec s ! w = (if v then 0 else NOT 0)" "k div 64 = w"
  shows "bv_bit s k \<noteq> v"
  using assms by (auto simp: bv_bit_def bit_not_iff split: if_splits)

lemma BitVectorFindBit_cases:
  assumes inv: "bv_inv s"
  shows "(BitVectorFindBit s i v = -1 \<and> (\<forall>k. i \<le> k \<and> k < 64 * length (bitvec s) \<longrightarrow> bv_bit s k \<noteq> v)) \<or>
     (\<exists>p. BitVectorFindBit s i v = int p \<and> i \<le> p \<and> p < 64 * length (bitvec s) \<and> bv_bit s p = v \<and>
        (\<forall>k. i \<le> k \<and> k < p \<longrightarrow> bv_bit s k \<noteq> v))"
proof -
  define sl where "sl = i div 64"
  define skip where "skip = (if v then 0 else NOT 0 :: ulong)"
  define w where "w = (if \<forall>b. i mod 64 \<le> b \<and> b < 64 \<longrightarrow> bit (bitvec s ! sl) b \<noteq> v
      then bv_skip s skip (Suc sl) else sl)"
  have r: "i - sl * 64 = i mod 64" by (simp add: sl_def minus_div_mult_eq_mod)
  note useful = bv_useful_eq [of "bitvec s ! sl" "i mod 64" v, folded skip_def]
  have find: "BitVectorFindBit s i v =
      (if int (sl * 64) > maxMember s \<or> int (w * 64) > maxMember s then -1
       else int (w * 64 + bv_walk (bitvec s ! w) v (if w * 64 < i then i - w * 64 else 0)))"
    unfolding BitVectorFindBit_def Let_def sl_def [symmetric] skip_def [symmetric] r useful
      w_def [symmetric] by simp
  have slw: "sl \<le> w" using bv_skip_spec [of "Suc sl" s skip] by (auto simp: w_def)
  have before: "bv_bit s k \<noteq> v" if "i \<le> k" "k < w * 64" for k
  proof -
    have "k div 64 < w" "sl \<le> k div 64" using that by (auto simp: sl_def div_le_mono)
    show ?thesis
    proof (cases "k div 64 = sl")
      case True
      then have "i mod 64 \<le> k mod 64" using that(1) by (metis sl_def div_mult_mod_eq add_le_cancel_left)
      then show ?thesis using \<open>k div 64 < w\<close> True by (auto simp: w_def bv_bit_def split: if_splits)
    next
      case False
      then have "bitvec s ! (k div 64) = skip"
        using \<open>k div 64 < w\<close> \<open>sl \<le> k div 64\<close> bv_skip_spec [of "Suc sl" s skip]
        by (auto simp: w_def split: if_splits)
      then show ?thesis using bv_skipped_word skip_def by blast
    qed
  qed
  show ?thesis
  proof (cases "int (w * 64) \<le> maxMember s")
    case False
    then have "64 * length (bitvec s) \<le> w * 64" using bv_word_in_range [OF inv, of w] by simp
    then show ?thesis using before False find by auto
  next
    case True
    define start where "start = (if w * 64 < i then i - w * 64 else 0)"
    have wl: "w < length (bitvec s)" using True bv_word_in_range [OF inv] by simp
    have "\<exists>b. start \<le> b \<and> b < 64 \<and> bit (bitvec s ! w) b = v"
    proof (cases "w = sl")
      case True
      then have "start = i mod 64" using r by (auto simp: start_def sl_def)
      then show ?thesis using True bv_skip_spec [of "Suc sl" s skip] by (auto simp: w_def split: if_splits)
    next
      case False
      then have "bitvec s ! w \<noteq> skip"
        using True slw bv_skip_spec [of "Suc sl" s skip] by (auto simp: w_def split: if_splits)
      moreover have "start = 0" using False slw by (auto simp: start_def sl_def)
      ultimately show ?thesis using word_differs_bit skip_def by auto
    qed
    then obtain b where b: "start \<le> b" "b < 64" "bit (bitvec s ! w) b = v" by blast
    define p where "p = bv_walk (bitvec s ! w) v start"
    note walk = bv_walk_found [OF b, folded p_def]
    have "p < 64" using walk(1) b(2) by simp
    have "BitVectorFindBit s i v = int (w * 64 + p)"
      using find True slw by (simp add: start_def p_def)
    moreover have "i \<le> w * 64 + p" using walk(3) by (auto simp: start_def split: if_splits)
    moreover have "w * 64 + p < 64 * length (bitvec s)" using \<open>p < 64\<close> wl by simp
    moreover have "bv_bit s (w * 64 + p) = v" using walk(2) \<open>p < 64\<close> by (simp add: bv_bit_word)
    moreover have "bv_bit s k \<noteq> v" if k: "i \<le> k" "k < w * 64 + p" for k
    proof (cases "k < w * 64")
      case False
      then obtain c where c: "k = w * 64 + c" "c < p" using k(2) by (metis le_Suc_ex not_less nat_add_left_cancel_less)
      then have "start \<le> c" using k(1) by (auto simp: start_def)
      then show ?thesis using walk(4) c \<open>p < 64\<close> by (simp add: bv_bit_word)
    qed (use before k in simp)
    ultimately show ?thesis by blast
  qed
qed

lemma BitVectorFindBit_None:
  "bv_inv s \<Longrightarrow> BitVectorFindBit s i v < 0 \<Longrightarrow>
     BitVectorFindBit s i v = -1 \<and> (\<forall>k. i \<le> k \<and> k < 64 * length (bitvec s) \<longrightarrow> bv_bit s k \<noteq> v)"
  using BitVectorFindBit_cases [of s i v] by fastforce

lemma BitVectorFindBit_Some:
  assumes "bv_inv s" "\<not> BitVectorFindBit s i v < 0"
  obtains p where "BitVectorFindBit s i v = int p" "i \<le> p" "p < 64 * length (bitvec s)" "bv_bit s p = v"
    "\<And>k. i \<le> k \<Longrightarrow> k < p \<Longrightarrow> bv_bit s k \<noteq> v"
  using BitVectorFindBit_cases [OF assms(1), of i v] assms(2) by fastforce

definition bv_remaining :: "BitVectorSet \<Rightarrow> nat \<Rightarrow> nat set" where
  "bv_remaining s i = {m \<in> bv_elems s. i \<le> m}"

lemma bv_elems_le: "bv_inv s \<Longrightarrow> m \<in> bv_elems s \<Longrightarrow> m \<le> nat (maxMember s) \<and> m < 65536"
  by (force simp: bv_inv_def)

text \<open>One iteration finds the maximal run of members from the first one at or after \<open>i\<close>.\<close>

lemma BitVectorIterateSet_run:
  assumes inv: "bv_inv s" and it: "BitVectorIterateSet s i = (j, Some iv)"
  obtains p l where "i \<le> p" "p \<le> l" "l < 65536" "ifirst iv = of_nat p" "ilast iv = of_nat l" "j = l + 1"
    "\<And>k. i \<le> k \<Longrightarrow> k < p \<Longrightarrow> k \<notin> bv_elems s" "{p..l} \<subseteq> bv_elems s" "l + 1 \<notin> bv_elems s"
proof -
  let ?N = "64 * length (bitvec s)"
  have "\<not> BitVectorFindBit s i True < 0"
    using it BitVectorFindBit_None [OF inv, of i True]
    by (auto simp: BitVectorIterateSet_def Let_def split: if_splits)
  then obtain p where p: "BitVectorFindBit s i True = int p" "i \<le> p" "p < ?N" "bv_bit s p"
    "\<And>k. i \<le> k \<Longrightarrow> k < p \<Longrightarrow> \<not> bv_bit s k"
    using BitVectorFindBit_Some [OF inv, of i True] by metis
  define b' where "b' = BitVectorFindBit s p False"
  define l where "l = nat (if b' < 0 then maxMember s else b' - 1)"
  have pin: "p \<in> bv_elems s" using p by (simp add: bv_elems_def)
  have run: "p \<le> l \<and> {p..l} \<subseteq> bv_elems s \<and> l + 1 \<notin> bv_elems s \<and>
     (if b' < 0 then maxMember s else b' - 1) = int l"
  proof (cases "b' < 0")
    case True
    then have all: "\<And>k. p \<le> k \<Longrightarrow> k < ?N \<Longrightarrow> k \<in> bv_elems s"
      using BitVectorFindBit_None [OF inv, of p False] by (simp add: b'_def bv_elems_def)
    have l: "l = nat (maxMember s)" using True by (simp add: l_def)
    have "p \<le> l" using bv_elems_le [OF inv pin] l by simp
    moreover have "l < ?N" using bv_inv_bounds [OF inv] bv_elems_le [OF inv pin] p(3) l by linarith
    then have "{p..l} \<subseteq> bv_elems s" using all by auto
    moreover have "l + 1 \<notin> bv_elems s" using bv_elems_le [OF inv, of "l + 1"] l by auto
    moreover have "maxMember s = int l" using inv pin l by (force simp: bv_inv_def)
    ultimately show ?thesis using True by simp
  next
    case False
    then obtain q where q: "b' = int q" "p \<le> q" "q < ?N" "\<not> bv_bit s q"
      "\<And>k. p \<le> k \<Longrightarrow> k < q \<Longrightarrow> bv_bit s k"
      using BitVectorFindBit_Some [OF inv, of p False] unfolding b'_def by metis
    have "p \<noteq> q" using p(4) q(4) by auto
    then have "l = q - 1" "p \<le> l" "l + 1 = q" using q by (auto simp: l_def)
    moreover have "{p..l} \<subseteq> bv_elems s" using q \<open>l = q - 1\<close> \<open>p \<noteq> q\<close> by (auto simp: bv_elems_def)
    moreover have "b' - 1 = int l" using q(1) \<open>l + 1 = q\<close> by simp
    ultimately show ?thesis using q(4) False by (simp add: bv_elems_def)
  qed
  then have "l \<in> bv_elems s" by auto
  then have "l < 65536" using bv_elems_le [OF inv] by simp
  have iv: "ifirst iv = of_nat p" "ilast iv = of_nat l" "j = l + 1"
    using it p(1) run \<open>l < 65536\<close>
    by (auto simp: BitVectorIterateSet_def Let_def b'_def [symmetric] unat_of_nat take_bit_eq_mod)
  show thesis
    by (rule that [of p l]) (use p iv run \<open>l < 65536\<close> in \<open>auto simp: bv_elems_def\<close>)
qed

lemma BitVectorIterateSet_done:
  "bv_inv s \<Longrightarrow> BitVectorIterateSet s i = (j, None) \<Longrightarrow> j = 0 \<and> bv_remaining s i = {}"
  using BitVectorFindBit_None [of s i True]
  by (auto simp: BitVectorIterateSet_def Let_def bv_remaining_def bv_elems_def split: if_splits)

lemma BitVectorIterateSet_next:
  assumes "bv_inv s" "BitVectorIterateSet s i = (j, Some iv)"
  shows "j \<noteq> 0 \<and> ifirst iv \<le> ilast iv \<and> bv_remaining s i = iv_set iv \<union> bv_remaining s j \<and>
     (\<forall>m \<in> bv_remaining s j. unat (ilast iv) + 1 < m)"
proof -
  obtain p l where r: "i \<le> p" "p \<le> l" "l < 65536" "ifirst iv = of_nat p" "ilast iv = of_nat l"
    "j = l + 1" "\<And>k. i \<le> k \<Longrightarrow> k < p \<Longrightarrow> k \<notin> bv_elems s" "{p..l} \<subseteq> bv_elems s" "l + 1 \<notin> bv_elems s"
    using BitVectorIterateSet_run [OF assms] by metis
  have u: "unat (ifirst iv) = p" "unat (ilast iv) = l"
    using r(2-5) by (simp_all add: unat_of_nat take_bit_eq_mod)
  have "bv_remaining s i = {p..l} \<union> bv_remaining s j"
    using r(1,2,6-8) by (fastforce simp: bv_remaining_def not_less)
  moreover have "l + 1 < m" if "m \<in> bv_remaining s j" for m
    using that r(6,9) by (cases "m = l + 1") (auto simp: bv_remaining_def)
  ultimately show ?thesis using u r(2,6) by (simp add: iv_set_def word_le_nat_alt)
qed

lemma BitVectorIsMemberOfSet_law:
  assumes "bv_inv s"
  shows "\<exists>w. BitVectorIsMemberOfSet s (int m) = Some w \<and> (w \<noteq> 0 \<longleftrightarrow> m \<in> bv_elems s)"
proof (cases "int m > maxMember s")
  case True
  then show ?thesis using assms by (force simp: BitVectorIsMemberOfSet_def bv_inv_def)
next
  case False
  then have "m < 64 * length (bitvec s)" using bv_inv_bounds(2) [OF assms] by linarith
  then have "m div 64 < length (bitvec s)" by (simp add: less_mult_imp_div_less mult.commute)
  then show ?thesis using False \<open>m < 64 * length (bitvec s)\<close>
    by (simp add: BitVectorIsMemberOfSet_def bv_elems_def bv_bit_def and_exp_eq_0_iff)
qed

lemma finite_bv_elems [simp]: "finite (bv_elems s)"
  by (simp add: bv_elems_def)

interpretation bv: record_set bv_inv bv_elems bv_remaining BitVectorIsMemberOfSet BitVectorIterateSet
proof unfold_locales
  show "bv_inv s \<Longrightarrow> bv_remaining s 0 = bv_elems s" for s
    by (simp add: bv_remaining_def)
  show "bv_inv s \<Longrightarrow> bv_remaining s i \<subseteq> bv_elems s" for s i
    by (auto simp: bv_remaining_def)
qed (simp_all add: BitVectorIsMemberOfSet_law BitVectorIterateSet_done BitVectorIterateSet_next
       del: One_nat_def Suc_eq_plus1_left add_Suc_right)

lemma maxMember_loop_bounds:
  "m \<le> maxMember_loop ps m \<and> (\<forall>p \<in> set ps. uint (ilast p) \<le> maxMember_loop ps m) \<and>
     (m \<le> 65535 \<longrightarrow> maxMember_loop ps m \<le> 65535)"
proof (induction ps arbitrary: m)
  case (Cons p ps)
  have "uint (ilast p) < 65536" using uint_lt2p [of "ilast p"] by simp
  then show ?case using Cons.IH [of "if m < uint (ilast p) then uint (ilast p) else m"] by force
qed simp

lemma maxMemberInInterval_bounds:
  "-1 \<le> maxMemberInInterval ps" "maxMemberInInterval ps \<le> 65535"
  "m \<in> ivs_set ps \<Longrightarrow> int m \<le> maxMemberInInterval ps"
  using maxMember_loop_bounds [of "-1" ps]
  by (force simp: maxMemberInInterval_def ivs_set_def iv_set_def unat_uint_less_eq)+

lemma length_bv_fill [simp]: "length (bv_fill js v) = length v"
  by (induction js v rule: bv_fill.induct) auto

lemma length_bv_fill_all [simp]: "length (bv_fill_all ps v) = length v"
  by (induction ps v rule: bv_fill_all.induct) auto

lemma bv_fill_bit:
  "\<forall>j \<in> set js. j div 64 < length v \<Longrightarrow>
     bit (bv_fill js v ! (m div 64)) (m mod 64) \<longleftrightarrow> m \<in> set js \<or> bit (v ! (m div 64)) (m mod 64)"
proof (induction js v rule: bv_fill.induct)
  case (2 j js v)
  have "m = j \<longleftrightarrow> m div 64 = j div 64 \<and> m mod 64 = j mod 64" by (metis div_mult_mod_eq)
  then show ?case using 2 by (auto simp: nth_list_update bit_or_iff)
qed simp

lemma bv_fill_all_bit:
  "\<forall>j \<in> ivs_set ps. j div 64 < length v \<Longrightarrow>
     bit (bv_fill_all ps v ! (m div 64)) (m mod 64) \<longleftrightarrow> m \<in> ivs_set ps \<or> bit (v ! (m div 64)) (m mod 64)"
proof (induction ps v rule: bv_fill_all.induct)
  case (2 p ps v)
  have "set [unat (ifirst p)..<Suc (unat (ilast p))] = iv_set p" by (auto simp: iv_set_def)
  then show ?case using 2 by (auto simp: bv_fill_bit)
qed simp

lemma BitVectorCreateSet_correct:
  assumes "BitVectorCreateSet ok ps haveMem (BitVectorSetMemoryRequirements (maxMemberInInterval ps)) = Some s"
  shows "bv_inv s \<and> bv_elems s = ivs_set ps"
proof -
  let ?M = "maxMemberInInterval ps"
  let ?n = "nat (?M + 64) div 64"
  have s: "maxMember s = ?M" "bitvec s = bv_fill_all ps (replicate ?n 0)"
    using assms by (auto simp: BitVectorCreateSet_def BitVectorSetMemoryRequirements_def split: if_splits)
  have range: "m < 64 * ?n" if "m \<in> ivs_set ps" for m
    using maxMemberInInterval_bounds(3) [OF that] by linarith
  then have "\<forall>j \<in> ivs_set ps. j div 64 < length (replicate ?n (0::ulong))"
    by (simp add: less_mult_imp_div_less mult.commute)
  note bits = bv_fill_all_bit [OF this]
  have "bv_elems s = ivs_set ps"
    using range by (auto simp: bv_elems_def bv_bit_def s bits less_mult_imp_div_less mult.commute)
  then show ?thesis
    using maxMemberInInterval_bounds(1,2) [of ps] maxMemberInInterval_bounds(3) s
    by (simp add: bv_inv_def)
qed

section \<open>Interval lists implement the interface\<close>

definition il_inv :: "IntervalListSet \<Rightarrow> bool" where
  "il_inv s \<longleftrightarrow> separated (intervals s)"

definition il_elems :: "IntervalListSet \<Rightarrow> nat set" where
  "il_elems s = ivs_set (intervals s)"

definition il_remaining :: "IntervalListSet \<Rightarrow> nat \<Rightarrow> nat set" where
  "il_remaining s i = ivs_set (drop i (intervals s))"

lemma separated_nth:
  assumes "separated ivs" "k < l" "l < length ivs"
  shows "unat (ilast (ivs ! k)) + 1 < unat (ifirst (ivs ! l))"
  using sorted_wrt_nth_less [of "\<lambda>a b. unat (ilast a) + 1 < unat (ifirst b)" ivs k l] assms
  by (simp add: separated_def)

lemma separated_nth_proper: "separated ivs \<Longrightarrow> k < length ivs \<Longrightarrow> ifirst (ivs ! k) \<le> ilast (ivs ! k)"
  by (simp add: separated_def proper_def)

lemma iv_set_int: "m \<in> iv_set p \<longleftrightarrow> uint (ifirst p) \<le> int m \<and> int m \<le> uint (ilast p)"
  by (simp add: iv_set_def unat_uint_less_eq)

text \<open>A number below interval \<open>k\<close> is in no later interval, one above it in no earlier one.\<close>

lemma separated_below:
  "separated ivs \<Longrightarrow> k < length ivs \<Longrightarrow> m < unat (ifirst (ivs ! k)) \<Longrightarrow> k \<le> l \<Longrightarrow> l < length ivs \<Longrightarrow>
     m \<notin> iv_set (ivs ! l)"
  using separated_nth [of ivs k l] separated_nth_proper [of ivs k]
  by (cases "k = l") (auto simp: iv_set_def word_le_nat_alt)

lemma separated_beyond:
  "separated ivs \<Longrightarrow> k < length ivs \<Longrightarrow> unat (ilast (ivs ! k)) < m \<Longrightarrow> l \<le> k \<Longrightarrow> m \<notin> iv_set (ivs ! l)"
  using separated_nth [of ivs l k] separated_nth_proper [of ivs k]
  by (cases "k = l") (auto simp: iv_set_def word_le_nat_alt)

lemma il_search_range:
  "separated ivs \<Longrightarrow> 0 \<le> lo \<Longrightarrow> hi < int (length ivs) \<Longrightarrow>
     il_search ivs (int m) lo hi \<noteq> 0 \<longleftrightarrow> (\<exists>k. lo \<le> int k \<and> int k \<le> hi \<and> m \<in> iv_set (ivs ! k))"
proof (induction ivs "int m" lo hi rule: il_search.induct)
  case (1 ivs lo hi)
  show ?case
  proof (cases "lo \<le> hi")
    case False
    then show ?thesis by (subst il_search.simps) auto
  next
    case True
    define pr where "pr = nat ((hi + lo) div 2)"
    have pr: "int pr = (hi + lo) div 2" "lo \<le> int pr" "int pr \<le> hi" "pr < length ivs"
      using True "1.prems" by (auto simp: pr_def)
    note unfold = il_search.simps [of ivs "int m" lo hi, unfolded Let_def, folded pr_def, folded pr(1)]
    note IH = "1.hyps" [OF True refl refl, folded pr_def, folded pr(1)]
    consider "m \<in> iv_set (ivs ! pr)" | "m < unat (ifirst (ivs ! pr))" | "unat (ilast (ivs ! pr)) < m"
      by (fastforce simp: iv_set_def)
    then show ?thesis
    proof cases
      case 1
      then have "il_search ivs (int m) lo hi = 1"
        using True unfold by (simp add: iv_set_int)
      then show ?thesis using 1 pr(2,3) by auto
    next
      case 2
      then have no: "int m < uint (ifirst (ivs ! pr))" by (simp add: unat_uint_less_eq)
      have "il_search ivs (int m) lo hi = il_search ivs (int m) lo (int pr - 1)"
        using True no unfold by simp
      also have "\<dots> \<noteq> 0 \<longleftrightarrow> (\<exists>k. lo \<le> int k \<and> int k \<le> int pr - 1 \<and> m \<in> iv_set (ivs ! k))"
        using no "1.prems" pr(3) by (intro IH(1)) auto
      finally have sub: "il_search ivs (int m) lo hi \<noteq> 0 \<longleftrightarrow>
        (\<exists>k. lo \<le> int k \<and> int k \<le> int pr - 1 \<and> m \<in> iv_set (ivs ! k))" .
      have "int k \<le> int pr - 1" if "int k \<le> hi" "m \<in> iv_set (ivs ! k)" for k
        using separated_below [OF "1.prems"(1) pr(4) 2, of k] that "1.prems"(3) by linarith
      then show ?thesis unfolding sub using pr(3) by force
    next
      case 3
      then have no: "uint (ilast (ivs ! pr)) < int m" by (simp add: unat_uint_less_eq)
      have le: "uint (ifirst (ivs ! pr)) \<le> uint (ilast (ivs ! pr))"
        using separated_nth_proper [OF "1.prems"(1) pr(4)] by (simp add: word_le_def)
      have "il_search ivs (int m) lo hi = il_search ivs (int m) (int pr + 1) hi"
        using True no le unfold by simp
      also have "\<dots> \<noteq> 0 \<longleftrightarrow> (\<exists>k. int pr + 1 \<le> int k \<and> int k \<le> hi \<and> m \<in> iv_set (ivs ! k))"
        using no le "1.prems" by (intro IH(2)) auto
      finally have sub: "il_search ivs (int m) lo hi \<noteq> 0 \<longleftrightarrow>
        (\<exists>k. int pr + 1 \<le> int k \<and> int k \<le> hi \<and> m \<in> iv_set (ivs ! k))" .
      have "int pr + 1 \<le> int k" if "m \<in> iv_set (ivs ! k)" for k
        using separated_beyond [OF "1.prems"(1) pr(4) 3, of k] that by linarith
      moreover have "lo \<le> int k" if "int pr + 1 \<le> int k" for k using that pr(2) by linarith
      ultimately show ?thesis unfolding sub by blast
    qed
  qed
qed

lemma IntervalListIsMemberOfSet_law:
  assumes "il_inv s"
  shows "IntervalListIsMemberOfSet s (int m) \<noteq> 0 \<longleftrightarrow> m \<in> il_elems s"
proof -
  have "(\<exists>k. 0 \<le> int k \<and> int k \<le> int (length (intervals s)) - 1 \<and> m \<in> iv_set (intervals s ! k)) \<longleftrightarrow>
      m \<in> il_elems s"
    by (fastforce simp: il_elems_def ivs_set_def in_set_conv_nth)
  then show ?thesis
    using il_search_range [of "intervals s" 0 "int (length (intervals s)) - 1" m] assms
    by (simp add: IntervalListIsMemberOfSet_def il_inv_def)
qed

lemma separated_drop: "separated ps \<Longrightarrow> separated (drop n ps)"
  using in_set_dropD by (fastforce simp: separated_def proper_def sorted_wrt_drop)

lemma IntervalListIterateSet_next:
  assumes "il_inv s" "IntervalListIterateSet s i = (j, Some iv)"
  shows "j \<noteq> 0 \<and> ifirst iv \<le> ilast iv \<and> il_remaining s i = iv_set iv \<union> il_remaining s j \<and>
     (\<forall>m \<in> il_remaining s j. unat (ilast iv) + 1 < m)"
proof -
  have i: "i < length (intervals s)" "iv = intervals s ! i" "j = Suc i"
    using assms(2) by (auto simp: IntervalListIterateSet_def split: if_splits)
  then have "drop i (intervals s) = iv # drop j (intervals s)" by (simp add: Cons_nth_drop_Suc)
  moreover have "separated (drop i (intervals s))"
    using assms(1) by (simp add: il_inv_def separated_drop)
  ultimately show ?thesis
    using separated_above [of iv "drop j (intervals s)"] i(3) by (simp add: il_remaining_def)
qed

interpretation il: record_set il_inv il_elems il_remaining
  "\<lambda>s pm. Some (IntervalListIsMemberOfSet s pm)" IntervalListIterateSet
proof unfold_locales
  show "il_inv s \<Longrightarrow> finite (il_elems s)" for s by (simp add: il_elems_def)
  show "il_inv s \<Longrightarrow> il_remaining s 0 = il_elems s" for s
    by (simp add: il_elems_def il_remaining_def)
  show "il_inv s \<Longrightarrow> il_remaining s i \<subseteq> il_elems s" for s i
    using in_set_dropD by (fastforce simp: il_elems_def il_remaining_def ivs_set_def)
  show "il_inv s \<Longrightarrow> IntervalListIterateSet s i = (j, None) \<Longrightarrow> j = 0 \<and> il_remaining s i = {}" for s i j
    by (auto simp: IntervalListIterateSet_def il_remaining_def split: if_splits)
qed (simp_all add: IntervalListIsMemberOfSet_law IntervalListIterateSet_next
       del: One_nat_def Suc_eq_plus1_left add_Suc_right)

abbreviation first_sorted :: "RecordSetInterval list \<Rightarrow> bool" where
  "first_sorted \<equiv> sorted_wrt (\<lambda>a b. ifirst a \<le> ifirst b)"

lemma il_insert_set [simp]: "set (il_insert p st) = insert p (set st)"
  unfolding il_insert_def by (metis Un_insert_right list.simps(15) set_append takeWhile_dropWhile_id)

lemma il_insert_sorted: "first_sorted st \<Longrightarrow> first_sorted (il_insert p st)"
  unfolding il_insert_def by (induction st) (auto simp: not_less dest: set_takeWhileD set_dropWhileD)

lemma il_sort_sorted: "first_sorted st \<Longrightarrow> first_sorted (il_sort ps st)"
  by (induction ps st rule: il_sort.induct) (simp_all add: il_insert_sorted)

lemma il_sort_set [simp]: "set (il_sort ps st) = set ps \<union> set st"
  by (induction ps st rule: il_sort.induct) auto

lemma iv_set_merge:
  "ifirst a \<le> ilast a \<Longrightarrow> ifirst b \<le> ilast b \<Longrightarrow> ifirst a \<le> ifirst b \<Longrightarrow>
     unat (ifirst b) \<le> unat (ilast a) + 1 \<Longrightarrow>
     iv_set (a\<lparr>ilast := max (ilast a) (ilast b)\<rparr>) = iv_set a \<union> iv_set b"
  by (auto simp: iv_set_def word_le_nat_alt max_def)

lemma il_merge_correct:
  "first_sorted ps \<Longrightarrow> proper ps \<Longrightarrow> separated (il_merge ps) \<and> ivs_set (il_merge ps) = ivs_set ps"
proof (induction ps rule: il_merge.induct)
  case (1 a b rest)
  show ?case
  proof (cases "unat (ilast a) + 1 < unat (ifirst b)")
    case True
    have IH: "separated (il_merge (b # rest))" "ivs_set (il_merge (b # rest)) = ivs_set (b # rest)"
      using "1.IH"(1) [OF True] "1.prems" by auto
    have "unat (ilast a) + 1 < m" if "m \<in> ivs_set (b # rest)" for m
      using that True "1.prems"(1) by (force simp: ivs_set_def iv_set_def word_le_nat_alt)
    then have "separated (a # il_merge (b # rest))"
      using IH "1.prems"(2) by (intro separated_ConsI) auto
    then show ?thesis using True IH(2) by simp
  next
    case False
    let ?ab = "a\<lparr>ilast := max (ilast a) (ilast b)\<rparr>"
    have "first_sorted (?ab # rest)" "proper (?ab # rest)" "iv_set ?ab = iv_set a \<union> iv_set b"
      using "1.prems" False iv_set_merge [of a b] by (auto simp: le_max_iff_disj)
    then show ?thesis using "1.IH"(2) [OF False] False by auto
  qed
qed simp_all

lemma IntervalListCreateSet_correct:
  assumes "proper ps" "IntervalListCreateSet ok ps haveMem memsize = Some s"
  shows "il_inv s \<and> il_elems s = ivs_set ps"
proof -
  have "intervals s = il_merge (il_sort ps [])"
    using assms(2) by (auto simp: IntervalListCreateSet_def Let_def split: if_splits)
  moreover have "first_sorted (il_sort ps [])" by (rule il_sort_sorted) simp
  moreover have "proper (il_sort ps [])" "ivs_set (il_sort ps []) = ivs_set ps"
    using assms(1) by (simp_all add: proper_def ivs_set_def)
  ultimately show ?thesis
    using il_merge_correct [of "il_sort ps []"] by (simp add: il_inv_def il_elems_def)
qed

section \<open>The ADT as its users see it\<close>

fun rs_inv :: "RecordSet \<Rightarrow> bool" where
  "rs_inv (BitVector s) = bv_inv s"
| "rs_inv (IntervalList s) = il_inv s"

fun rs_elems :: "RecordSet \<Rightarrow> nat set" where
  "rs_elems (BitVector s) = bv_elems s"
| "rs_elems (IntervalList s) = il_elems s"

fun rs_remaining :: "RecordSet \<Rightarrow> nat \<Rightarrow> nat set" where
  "rs_remaining (BitVector s) i = bv_remaining s i"
| "rs_remaining (IntervalList s) i = il_remaining s i"

interpretation rs: record_set rs_inv rs_elems rs_remaining RecordIsMemberOfSet RecordIterateSet
proof unfold_locales
  show "rs_inv s \<Longrightarrow> finite (rs_elems s)" for s
    using il.finite_elems by (cases s) auto
  show "rs_inv s \<Longrightarrow> \<exists>w. RecordIsMemberOfSet s (int m) = Some w \<and> (w \<noteq> 0 \<longleftrightarrow> m \<in> rs_elems s)" for s m
    using bv.member_law il.member_law by (cases s) auto
  show "rs_inv s \<Longrightarrow> rs_remaining s 0 = rs_elems s" for s
    using bv.remaining_start il.remaining_start by (cases s) auto
  show "rs_inv s \<Longrightarrow> rs_remaining s i \<subseteq> rs_elems s" for s i
    using bv.remaining_elems il.remaining_elems by (cases s) (simp_all)
  show "rs_inv s \<Longrightarrow> RecordIterateSet s i = (j, None) \<Longrightarrow> j = 0 \<and> rs_remaining s i = {}" for s i j
    using bv.iterate_done il.iterate_done by (cases s) (simp_all)
  show "rs_inv s \<Longrightarrow> RecordIterateSet s i = (j, Some iv) \<Longrightarrow>
      j \<noteq> 0 \<and> ifirst iv \<le> ilast iv \<and> rs_remaining s i = iv_set iv \<union> rs_remaining s j \<and>
      (\<forall>m \<in> rs_remaining s j. unat (ilast iv) + 1 < m)" for s i j iv
    using bv.iterate_next [of _ i j iv] il.iterate_next [of _ i j iv]
    by (cases s) (simp_all del: One_nat_def Suc_eq_plus1_left add_Suc_right)
qed

lemma RecordCreateSet_correct:
  assumes "proper ps" "RecordCreateSet ok ps pMem = Some s"
  shows "rs_inv s \<and> rs_elems s = ivs_set ps"
  using assms BitVectorCreateSet_correct [of ok ps] IntervalListCreateSet_correct [OF assms(1), of ok]
  by (auto simp: RecordCreateSet_def RecordSetMemoryRequirements_choice_def Let_def
      split: if_splits option.splits)

text \<open>C22. A set created from proper intervals answers every membership query by the union
  of the intervals, whichever representation the size heuristic picked, and no query
  reads outside the bit vector.\<close>

theorem RecordIsMemberOfSet_correct:
  assumes "proper ps" "RecordCreateSet ok ps pMem = Some s"
  shows "\<exists>w. RecordIsMemberOfSet s (int m) = Some w \<and> (w \<noteq> 0 \<longleftrightarrow> m \<in> ivs_set ps)"
  using RecordCreateSet_correct [OF assms] rs.member_law [of s m] by simp

definition example_intervals :: "RecordSetInterval list" where
  "example_intervals = [\<lparr>ifirst = 60, ilast = 70\<rparr>, \<lparr>ifirst = 3, ilast = 5\<rparr>, \<lparr>ifirst = 6, ilast = 9\<rparr>]"

theorem RecordIsMemberOfSet_correct_witness:
  "proper example_intervals \<and> (\<exists>s. RecordCreateSet alloc_ok example_intervals None = Some s \<and>
     (\<exists>w. RecordIsMemberOfSet s (int 64) = Some w \<and> (w \<noteq> 0 \<longleftrightarrow> 64 \<in> ivs_set example_intervals)))"
proof -
  have p: "proper example_intervals" by (simp add: example_intervals_def)
  have "RecordCreateSet alloc_ok example_intervals None \<noteq> None" by code_simp
  then obtain s where s: "RecordCreateSet alloc_ok example_intervals None = Some s" by blast
  show ?thesis using p s RecordIsMemberOfSet_correct [OF p s, of 64] by blast
qed

text \<open>C8. The iteration loop of \<^verbatim>\<open>set.h\<close> ends after at most one call more than the set has
  members, and the intervals it yields are proper, in increasing order, neither
  overlapping nor touching, and cover exactly the members.\<close>

theorem RecordIterateSet_correct:
  assumes "proper ps" "RecordCreateSet ok ps pMem = Some s" "card (ivs_set ps) < fuel"
  shows "\<exists>ivs. iterate_from (RecordIterateSet s) fuel 0 = Some ivs \<and> separated ivs \<and>
     ivs_set ivs = ivs_set ps"
  using RecordCreateSet_correct [OF assms(1,2)] rs.iterate_all [of s fuel] assms(3) by simp

theorem RecordIterateSet_correct_witness:
  "card (ivs_set example_intervals) < 100 \<and> (\<exists>s. RecordCreateSet alloc_ok example_intervals None = Some s \<and>
     (\<exists>ivs. iterate_from (RecordIterateSet s) 100 0 = Some ivs \<and> separated ivs \<and>
        ivs_set ivs = ivs_set example_intervals))"
proof -
  have p: "proper example_intervals" by (simp add: example_intervals_def)
  have c: "card (ivs_set example_intervals) < 100"
  proof -
    have "ivs_set example_intervals \<subseteq> {0..70}" by (auto simp: example_intervals_def iv_set_def)
    then have "card (ivs_set example_intervals) \<le> card {0..70::nat}" by (rule card_mono [rotated]) simp
    then show ?thesis by simp
  qed
  have "RecordCreateSet alloc_ok example_intervals None \<noteq> None" by code_simp
  then obtain s where s: "RecordCreateSet alloc_ok example_intervals None = Some s" by blast
  show ?thesis using c s RecordIterateSet_correct [OF p s c] by blast
qed

text \<open>C20. Users cannot tell the representations apart: the intervals a bit vector yields and
  the intervals an interval list yields for the same input are the same list.\<close>

theorem representations_agree:
  assumes "proper ps" "card (ivs_set ps) < fuel"
    and "BitVectorCreateSet ok ps haveMem (BitVectorSetMemoryRequirements (maxMemberInInterval ps)) = Some b"
    and "IntervalListCreateSet ok' ps haveMem' memsize = Some l"
  shows "iterate_from (BitVectorIterateSet b) fuel 0 = iterate_from (IntervalListIterateSet l) fuel 0 \<and>
     (BitVectorIsMemberOfSet b (int m) \<noteq> Some 0 \<longleftrightarrow> IntervalListIsMemberOfSet l (int m) \<noteq> 0)"
proof -
  note b = BitVectorCreateSet_correct [OF assms(3)] and l = IntervalListCreateSet_correct [OF assms(1,4)]
  obtain xs where xs: "iterate_from (BitVectorIterateSet b) fuel 0 = Some xs" "separated xs"
    "ivs_set xs = ivs_set ps"
    using bv.iterate_all [of b fuel] b assms(2) by auto
  obtain ys where ys: "iterate_from (IntervalListIterateSet l) fuel 0 = Some ys" "separated ys"
    "ivs_set ys = ivs_set ps"
    using il.iterate_all [of l fuel] l assms(2) by auto
  have "xs = ys" using separated_unique xs ys by simp
  then show ?thesis using xs ys bv.member_law [of b m] il.member_law [of l m] b l by auto
qed

theorem representations_agree_witness:
  "\<exists>b l. BitVectorCreateSet alloc_ok example_intervals False
      (BitVectorSetMemoryRequirements (maxMemberInInterval example_intervals)) = Some b \<and>
     IntervalListCreateSet alloc_ok example_intervals False 28 = Some l \<and>
     iterate_from (BitVectorIterateSet b) 100 0 = iterate_from (IntervalListIterateSet l) 100 0"
proof -
  have p: "proper example_intervals" by (simp add: example_intervals_def)
  have "ivs_set example_intervals \<subseteq> {0..70}" by (auto simp: example_intervals_def iv_set_def)
  then have "card (ivs_set example_intervals) \<le> card {0..70::nat}" by (rule card_mono [rotated]) simp
  then have c: "card (ivs_set example_intervals) < 100" by simp
  obtain b where b: "BitVectorCreateSet alloc_ok example_intervals False
      (BitVectorSetMemoryRequirements (maxMemberInInterval example_intervals)) = Some b"
    by (simp add: BitVectorCreateSet_def)
  obtain l where l: "IntervalListCreateSet alloc_ok example_intervals False 28 = Some l"
    by (simp add: IntervalListCreateSet_def)
  show ?thesis using b l representations_agree [OF p c b l, of 0] by blast
qed

text \<open>Creation succeeds exactly when every allocation it makes succeeds and the memory
  the caller passed, if any, is aligned and at least as large as
  \<^verbatim>\<open>RecordSetMemoryRequirements\<close> announced; destroying the set frees memory exactly when
  the server allocated it.\<close>

theorem RecordCreateSet_succeeds_iff:
  "((\<exists>s. RecordCreateSet ok ps pMem = Some s) \<longleftrightarrow>
     (case pMem of
        None \<Rightarrow> (if snd (RecordSetMemoryRequirements_choice ps) then ok 0
                 else (ps = [] \<or> ok 0) \<and> ok 1)
      | Some (addr, memsize) \<Rightarrow>
          addr AND (of_nat (snd (RecordSetMemoryRequirements ps)) - 1) = 0 \<and>
          fst (RecordSetMemoryRequirements ps) \<le> memsize \<and>
          (snd (RecordSetMemoryRequirements_choice ps) \<or> ps = [] \<or> ok 0))) \<and>
   map_option RecordDestroySet (RecordCreateSet ok ps pMem) \<in> {None, Some (pMem = None)}"
proof -
  obtain size bvec where c: "RecordSetMemoryRequirements_choice ps = (size, bvec)"
    by (cases "RecordSetMemoryRequirements_choice ps")
  show ?thesis
    by (cases pMem) (auto simp: RecordCreateSet_def RecordSetMemoryRequirements_def c
        BitVectorCreateSet_def IntervalListCreateSet_def Let_def)
qed

end
