(* ===== verification/Resources.thy ===== *)
theory Resources
  imports Ssx_Prelude
begin

text \<open>
  The resource database (\<^verbatim>\<open>dix/resource.c\<close>, \<^verbatim>\<open>include/resource.h\<close>): every X object a client
  creates lives in that client's hash table, keyed by its 32-bit identifier.

  \<^item> A chain of \<^verbatim>\<open>ResourceRec\<close>s is a list, newest first; a position in a chain is the
    pointer the C loops move along it. Pointers to objects are 64-bit words, 0 being NULL.
  \<^item> Function pointers in \<^verbatim>\<open>DeleteFuncs\<close> are names (\<open>DeleteType\<close>); the argument \<open>del\<close> of an
    operation says what calling one does to the whole state, so a delete function may
    itself add or free resources. Loops over such calls may fail to end and are
    \<^verbatim>\<open>partial_function (option)\<close>.
  \<^item> \<^verbatim>\<open>FlushClientCaches\<close>, \<^verbatim>\<open>HandleSaveSet\<close>, \<^verbatim>\<open>MarkClientException\<close> and \<^verbatim>\<open>ErrorF\<close> do not read or
    write this state; they appear in the log \<open>events\<close>. \<open>None\<close> as a result is \<^verbatim>\<open>FatalError\<close>.
  \<^item> \<^verbatim>\<open>MAXCLIENTS\<close> is 256 (\<^verbatim>\<open>include/misc.h\<close>): 8 client bits, 21 bits below them.
\<close>

section \<open>Identifiers, types and state\<close>

type_synonym RESTYPE = "64 word"
type_synonym pointer = "64 word"

abbreviation MAXCLIENTS :: nat where "MAXCLIENTS \<equiv> 256"
abbreviation CLIENTOFFSET :: nat where "CLIENTOFFSET \<equiv> 21"

definition RESOURCE_ID_MASK :: XID where "RESOURCE_ID_MASK = push_bit 21 1 - 1"
definition RESOURCE_CLIENT_MASK :: XID where "RESOURCE_CLIENT_MASK = push_bit 21 (push_bit 8 1 - 1)"
definition CLIENT_BITS :: "XID \<Rightarrow> XID" where "CLIENT_BITS xid = xid AND RESOURCE_CLIENT_MASK"
definition CLIENT_ID :: "XID \<Rightarrow> nat" where "CLIENT_ID xid = unat (drop_bit 21 (CLIENT_BITS xid))"
definition SERVER_BIT :: XID where "SERVER_BIT = 0x40000000"
definition SERVER_MINID :: XID where "SERVER_MINID = 32"

definition RC_CACHED :: RESTYPE where "RC_CACHED = push_bit 31 1"
definition RC_DRAWABLE :: RESTYPE where "RC_DRAWABLE = push_bit 30 1"
definition RC_NEVERRETAIN :: RESTYPE where "RC_NEVERRETAIN = push_bit 29 1"
definition RC_LASTPREDEF :: RESTYPE where "RC_LASTPREDEF = RC_NEVERRETAIN"
definition RC_ANY :: RESTYPE where "RC_ANY = NOT 0"

definition RT_WINDOW :: RESTYPE where "RT_WINDOW = 1 OR RC_CACHED OR RC_DRAWABLE"
definition RT_PIXMAP :: RESTYPE where "RT_PIXMAP = 2 OR RC_CACHED OR RC_DRAWABLE"
definition RT_GC :: RESTYPE where "RT_GC = 3 OR RC_CACHED"
definition RT_PASSIVEGRAB :: RESTYPE where "RT_PASSIVEGRAB = 9 OR RC_NEVERRETAIN"
definition RT_LASTPREDEF :: RESTYPE where "RT_LASTPREDEF = 9"
definition RT_NONE :: RESTYPE where "RT_NONE = 0"

abbreviation INITBUCKETS :: nat where "INITBUCKETS \<equiv> 64"
abbreviation INITHASHSIZE :: nat where "INITHASHSIZE \<equiv> 6"
abbreviation MAXHASHSIZE :: nat where "MAXHASHSIZE \<equiv> 11"

record Resource =
  res_id :: XID
  res_type :: RESTYPE
  res_value :: pointer

record ClientResourceRec =
  resources :: "Resource list list"
  elements :: int
  buckets :: nat
  hashsize :: nat
  fakeID :: XID
  endFakeID :: XID
  expectID :: XID

text \<open>The delete functions \<^verbatim>\<open>InitClientResources\<close> installs, and those extensions register.\<close>

datatype DeleteType =
    NoopDDA | DeleteWindow | dixDestroyPixmap | FreeGC | CloseFont | FreeCursor | FreeColormap
  | FreeClientPixels | OtherClientGone | DeletePassiveGrab | DeleteFunc nat

record ClientRec =
  cl_index :: nat
  clientAsMask :: XID
  lastDrawableID :: XID
  lastDrawable :: pointer

datatype res_event =
    FlushedCaches XID | SaveSetHandled nat | ClientException nat
  | FreeNotFound XID | Deleted XID RESTYPE pointer

record ResState =
  clientTable :: "ClientResourceRec list"
  lastResourceType :: RESTYPE
  lastResourceClass :: RESTYPE
  TypeMask :: RESTYPE
  DeleteFuncs :: "DeleteType list"
  ResourceNames :: "nat list"
  clients :: "ClientRec option list"
  rootWindow :: pointer
  rootWindowID :: XID
  events :: "res_event list"

type_synonym delfun = "DeleteType \<Rightarrow> pointer \<Rightarrow> XID \<Rightarrow> ResState \<Rightarrow> ResState"

definition upd_client :: "ResState \<Rightarrow> nat \<Rightarrow> ClientResourceRec \<Rightarrow> ResState" where
  "upd_client st i c = st\<lparr>clientTable := (clientTable st)[i := c]\<rparr>"

definition log_event :: "res_event \<Rightarrow> ResState \<Rightarrow> ResState" where
  "log_event e st = st\<lparr>events := e # events st\<rparr>"

text \<open>The call through \<^verbatim>\<open>DeleteFuncs\<close>; the event records that it was made.\<close>

definition call_delete :: "delfun \<Rightarrow> RESTYPE \<Rightarrow> pointer \<Rightarrow> XID \<Rightarrow> ResState \<Rightarrow> ResState" where
  "call_delete del type value xid st =
     del (DeleteFuncs st ! unat (type AND TypeMask st)) value xid (log_event (Deleted xid type value) st)"

section \<open>Resource types and classes\<close>

definition CreateNewResourceType :: "alloc \<Rightarrow> DeleteType \<Rightarrow> ResState \<Rightarrow> RESTYPE \<times> ResState" where
  "CreateNewResourceType ok deleteFunc st =
     (let next = lastResourceType st + 1
      in if next AND lastResourceClass st \<noteq> 0 then (0, st)
         else if \<not> ok 0 then (0, st)
         else if \<not> ok 1 then (0, st)
         else (next, st\<lparr>ResourceNames := ResourceNames st @ [0],
                         lastResourceType := next,
                         DeleteFuncs := DeleteFuncs st @ [deleteFunc]\<rparr>))"

definition CreateNewResourceClass :: "ResState \<Rightarrow> RESTYPE \<times> ResState" where
  "CreateNewResourceClass st =
     (let next = drop_bit 1 (lastResourceClass st)
      in if next AND lastResourceType st \<noteq> 0 then (0, st)
         else (next, st\<lparr>lastResourceClass := next, TypeMask := next - 1\<rparr>))"

section \<open>Client tables\<close>

text \<open>The server client has index 0; the allocations are DeleteFuncs, ResourceNames, the buckets.\<close>

definition InitClientResources :: "alloc \<Rightarrow> ClientRec \<Rightarrow> ResState \<Rightarrow> bool \<times> ResState" where
  "InitClientResources ok client st =
     (let isServer = (cl_index client = 0);
          st1 = (if isServer
                 then st\<lparr>lastResourceType := RT_LASTPREDEF, lastResourceClass := RC_LASTPREDEF,
                         TypeMask := RC_LASTPREDEF - 1\<rparr>
                 else st);
          st2 = (if isServer
                 then st1\<lparr>DeleteFuncs := [NoopDDA, DeleteWindow, dixDestroyPixmap, FreeGC, CloseFont,
                             FreeCursor, FreeColormap, FreeClientPixels, OtherClientGone,
                             DeletePassiveGrab]\<rparr>
                 else st1);
          st3 = (if isServer then st2\<lparr>ResourceNames := replicate 10 0\<rparr> else st2);
          fake = clientAsMask client OR (if cl_index client \<noteq> 0 then SERVER_BIT else SERVER_MINID)
      in if isServer \<and> \<not> ok 0 then (False, st1)
         else if isServer \<and> \<not> ok 1 then (False, st2)
         else if \<not> ok 2 then (False, st3)
         else (True, upd_client st3 (cl_index client)
                 \<lparr>resources = replicate INITBUCKETS [], elements = 0, buckets = INITBUCKETS,
                  hashsize = INITHASHSIZE, fakeID = fake,
                  endFakeID = (fake OR RESOURCE_ID_MASK) + 1,
                  expectID = clientAsMask client\<rparr>))"

definition Hash :: "nat \<Rightarrow> XID \<Rightarrow> int" where
  "Hash hsize xid =
     (let xid = xid AND RESOURCE_ID_MASK
      in if hsize = 6 then uint (0x03F AND (xid XOR drop_bit 6 xid XOR drop_bit 12 xid))
         else if hsize = 7 then uint (0x07F AND (xid XOR drop_bit 7 xid XOR drop_bit 13 xid))
         else if hsize = 8 then uint (0x0FF AND (xid XOR drop_bit 8 xid XOR drop_bit 16 xid))
         else if hsize = 9 then uint (0x1FF AND (xid XOR drop_bit 9 xid))
         else if hsize = 10 then uint (0x3FF AND (xid XOR drop_bit 10 xid))
         else if hsize = 11 then uint (0x7FF AND (xid XOR drop_bit 11 xid))
         else -1)"

definition chain :: "ClientResourceRec \<Rightarrow> XID \<Rightarrow> Resource list" where
  "chain c xid = resources c ! nat (Hash (hashsize c) xid)"

definition set_chain :: "ClientResourceRec \<Rightarrow> XID \<Rightarrow> Resource list \<Rightarrow> ClientResourceRec" where
  "set_chain c xid rs = c\<lparr>resources := (resources c)[nat (Hash (hashsize c) xid) := rs]\<rparr>"

section \<open>Allocating identifiers\<close>

partial_function (option) AvailableID_loop :: "ClientResourceRec \<Rightarrow> XID \<Rightarrow> XID \<Rightarrow> XID option" where
  "AvailableID_loop c xid maxid =
     (if xid \<le> maxid then
        if list_ex (\<lambda>r. res_id r = xid) (chain c xid) then AvailableID_loop c (xid + 1) maxid
        else Some xid
      else Some 0)"

definition AvailableID :: "ClientResourceRec \<Rightarrow> XID \<Rightarrow> XID \<Rightarrow> XID \<Rightarrow> XID option" where
  "AvailableID c xid maxid goodid =
     (if xid \<le> goodid \<and> goodid \<le> maxid then Some goodid else AvailableID_loop c xid maxid)"

text \<open>The state of the loop over all resources of the client: the range and the known free xid.\<close>

fun GetXIDRange_loop ::
    "ClientResourceRec \<Rightarrow> Resource list \<Rightarrow> XID \<Rightarrow> XID \<Rightarrow> XID \<Rightarrow> (XID \<times> XID) option" where
  "GetXIDRange_loop c [] xid maxid goodid = Some (xid, maxid)"
| "GetXIDRange_loop c (r # rs) xid maxid goodid =
     (if res_id r < xid \<or> maxid < res_id r then GetXIDRange_loop c rs xid maxid goodid
      else if res_id r - xid \<ge> maxid - res_id r then
        Option.bind (AvailableID c xid (res_id r - 1) goodid) (\<lambda>good.
          if good \<noteq> 0 then GetXIDRange_loop c rs xid (res_id r - 1) good
          else GetXIDRange_loop c rs (res_id r + 1) maxid good)
      else
        Option.bind (AvailableID c (res_id r + 1) maxid goodid) (\<lambda>good.
          if good = 0 then GetXIDRange_loop c rs xid (res_id r - 1) good
          else GetXIDRange_loop c rs (res_id r + 1) maxid good))"

definition GetXIDRange :: "ResState \<Rightarrow> nat \<Rightarrow> bool \<Rightarrow> (XID \<times> XID) option" where
  "GetXIDRange st client server =
     (let base = push_bit CLIENTOFFSET (of_nat client);
          xid = (if server then base OR (if client \<noteq> 0 then SERVER_BIT else SERVER_MINID) else base);
          c = clientTable st ! client
      in Option.bind (GetXIDRange_loop c (concat (resources c)) xid (xid OR RESOURCE_ID_MASK) 0)
           (\<lambda>(mn, mx). if mn > mx then Some (0, 0) else Some (mn, mx)))"

definition FakeClientID :: "ResState \<Rightarrow> nat \<Rightarrow> (XID \<times> ResState) option" where
  "FakeClientID st client =
     (let c = clientTable st ! client;
          xid = fakeID c;
          st1 = upd_client st client (c\<lparr>fakeID := fakeID c + 1\<rparr>)
      in if xid \<noteq> endFakeID c then Some (xid, st1)
         else Option.bind (GetXIDRange st1 client True) (\<lambda>(mn, mx).
           if mn = 0 then
             if client = 0 then None
             else
               let xid = push_bit CLIENTOFFSET (of_nat client) OR (SERVER_BIT * 3);
                   maxid = xid OR RESOURCE_ID_MASK;
                   st2 = log_event (ClientException client) st1
               in Some (xid, upd_client st2 client
                    ((clientTable st2 ! client)\<lparr>fakeID := xid + 1, endFakeID := maxid + 1\<rparr>))
           else Some (mn, upd_client st1 client
                    ((clientTable st1 ! client)\<lparr>fakeID := mn + 1, endFakeID := mx + 1\<rparr>))))"

section \<open>Adding\<close>

text \<open>Chains keep their order: each resource is appended to its new bucket, old buckets in order.\<close>

fun rehash_into :: "nat \<Rightarrow> Resource list \<Rightarrow> Resource list list \<Rightarrow> Resource list list" where
  "rehash_into hsize [] new = new"
| "rehash_into hsize (r # rs) new =
     rehash_into hsize rs
       (new[nat (Hash hsize (res_id r)) := new ! nat (Hash hsize (res_id r)) @ [r]])"

definition RebuildTable :: "alloc \<Rightarrow> ClientResourceRec \<Rightarrow> ClientResourceRec" where
  "RebuildTable ok c =
     (if \<not> ok 0 \<or> \<not> ok 1 then c
      else c\<lparr>hashsize := hashsize c + 1,
             resources := rehash_into (hashsize c + 1) (concat (resources c))
                            (replicate (2 * buckets c) []),
             buckets := buckets c * 2\<rparr>)"

definition AddResource ::
    "alloc \<Rightarrow> delfun \<Rightarrow> XID \<Rightarrow> RESTYPE \<Rightarrow> pointer \<Rightarrow> ResState \<Rightarrow> (bool \<times> ResState) option" where
  "AddResource ok del xid type value st =
     (let client = CLIENT_ID xid; rrec = clientTable st ! client
      in if buckets rrec = 0 then None
         else
           let rrec1 = (if elements rrec \<ge> 4 * int (buckets rrec) \<and> hashsize rrec < MAXHASHSIZE
                        then RebuildTable ok rrec else rrec);
               st1 = upd_client st client rrec1
           in if \<not> ok 2 then
                Some (False, call_delete del type value xid st1)
              else
                let res = \<lparr>res_id = xid, res_type = type, res_value = value\<rparr>;
                    rrec2 = set_chain rrec1 xid (res # chain rrec1 xid);
                    rrec3 = rrec2\<lparr>elements := elements rrec2 + 1\<rparr>;
                    rrec4 = (if xid AND SERVER_BIT = 0 \<and> xid \<ge> expectID rrec3
                             then rrec3\<lparr>expectID := xid + 1\<rparr> else rrec3)
                in Some (True, upd_client st client rrec4))"

section \<open>Freeing\<close>

definition run_delete :: "delfun \<Rightarrow> bool \<Rightarrow> Resource \<Rightarrow> ResState \<Rightarrow> ResState" where
  "run_delete del skip r st =
     (let st1 = (if res_type r AND RC_CACHED \<noteq> 0 then log_event (FlushedCaches (res_id r)) st else st)
      in if skip then st1 else call_delete del (res_type r) (res_value r) (res_id r) st1)"

text \<open>Unlinking the k-th resource of the chain in bucket \<open>h\<close> of client \<open>cid\<close>.\<close>

definition unlink :: "nat \<Rightarrow> nat \<Rightarrow> nat \<Rightarrow> ResState \<Rightarrow> ResState" where
  "unlink cid h k st =
     (let c = clientTable st ! cid; ch = resources c ! h
      in upd_client st cid (c\<lparr>resources := (resources c)[h := take k ch @ drop (Suc k) ch]\<rparr>))"

definition reset_last_drawable :: "nat \<Rightarrow> XID \<Rightarrow> ResState \<Rightarrow> ResState" where
  "reset_last_drawable cid xid st =
     (case clients st ! cid of
        None \<Rightarrow> st
      | Some cl \<Rightarrow>
          if xid = lastDrawableID cl
          then st\<lparr>clients := (clients st)[cid := Some (cl\<lparr>lastDrawable := rootWindow st,
                                                          lastDrawableID := rootWindowID st\<rparr>)]\<rparr>
          else st)"

text \<open>
  The chain is followed from position \<open>k\<close>; \<open>h\<close> is the bucket found before the loop. After a
  delete function changed the number of elements the loop starts over at the head.
\<close>

partial_function (option) FreeResource_loop ::
    "delfun \<Rightarrow> nat \<Rightarrow> nat \<Rightarrow> XID \<Rightarrow> RESTYPE \<Rightarrow> nat \<Rightarrow> bool \<Rightarrow> ResState \<Rightarrow> (bool \<times> ResState) option" where
  "FreeResource_loop del cid h xid skip k gotOne st =
     (let ch = resources (clientTable st ! cid) ! h
      in if k < length ch then
           let r = ch ! k
           in if res_id r = xid then
                let st1 = unlink cid h k st;
                    c1 = clientTable st1 ! cid;
                    n = elements c1 - 1;
                    st2 = upd_client st1 cid (c1\<lparr>elements := n\<rparr>);
                    st3 = run_delete del (res_type r = skip) r st2
                in FreeResource_loop del cid h xid skip
                     (if elements (clientTable st3 ! cid) \<noteq> n then 0 else k) True st3
              else FreeResource_loop del cid h xid skip (Suc k) gotOne st
         else Some (gotOne, st))"

definition FreeResource :: "delfun \<Rightarrow> XID \<Rightarrow> RESTYPE \<Rightarrow> ResState \<Rightarrow> ResState option" where
  "FreeResource del xid skipDeleteFuncType st =
     (let cid = CLIENT_ID xid; c = clientTable st ! cid
      in if cid < MAXCLIENTS \<and> buckets c \<noteq> 0 then
           Option.bind (FreeResource_loop del cid (nat (Hash (hashsize c) xid)) xid skipDeleteFuncType 0 False st)
             (\<lambda>(gotOne, st1).
                let st2 = reset_last_drawable cid xid st1
                in Some (if gotOne then st2 else log_event (FreeNotFound xid) st2))
         else Some (log_event (FreeNotFound xid) st))"

fun first_index :: "('a \<Rightarrow> bool) \<Rightarrow> 'a list \<Rightarrow> nat option" where
  "first_index P [] = None"
| "first_index P (x # xs) = (if P x then Some 0 else map_option Suc (first_index P xs))"

definition FreeResourceByType :: "delfun \<Rightarrow> XID \<Rightarrow> RESTYPE \<Rightarrow> bool \<Rightarrow> ResState \<Rightarrow> ResState" where
  "FreeResourceByType del xid type skipFree st =
     (let cid = CLIENT_ID xid; c = clientTable st ! cid
      in if cid < MAXCLIENTS \<and> buckets c \<noteq> 0 then
           let st1 = (case first_index (\<lambda>r. res_id r = xid \<and> res_type r = type) (chain c xid) of
                        None \<Rightarrow> st
                      | Some k \<Rightarrow>
                          run_delete del skipFree (chain c xid ! k)
                            (unlink cid (nat (Hash (hashsize c) xid)) k st))
           in reset_last_drawable cid xid st1
         else st)"

definition ChangeResourceValue :: "XID \<Rightarrow> RESTYPE \<Rightarrow> pointer \<Rightarrow> ResState \<Rightarrow> bool \<times> ResState" where
  "ChangeResourceValue xid rtype value st =
     (let cid = CLIENT_ID xid; c = clientTable st ! cid
      in if cid < MAXCLIENTS \<and> buckets c \<noteq> 0 then
           (case first_index (\<lambda>r. res_id r = xid \<and> res_type r = rtype) (chain c xid) of
              None \<Rightarrow> (False, st)
            | Some k \<Rightarrow>
                let st1 = (if rtype AND RC_CACHED \<noteq> 0 then log_event (FlushedCaches xid) st else st)
                in (True, upd_client st1 cid
                      (set_chain c xid ((chain c xid)[k := (chain c xid ! k)\<lparr>res_value := value\<rparr>]))))
         else (False, st))"

section \<open>Walking a client's resources\<close>

text \<open>
  The callback \<open>func\<close> may change the state; when it changes the number of elements the
  walk of the current bucket starts over. Type 0 selects every resource.
\<close>

partial_function (option) walk_chain ::
    "(Resource \<Rightarrow> ResState \<Rightarrow> ResState) \<Rightarrow> RESTYPE \<Rightarrow> nat \<Rightarrow> nat \<Rightarrow> nat \<Rightarrow> ResState \<Rightarrow> ResState option" where
  "walk_chain func type ci i k st =
     (let ch = resources (clientTable st ! ci) ! i
      in if k < length ch then
           if type = 0 \<or> res_type (ch ! k) = type then
             let n = elements (clientTable st ! ci);
                 st1 = func (ch ! k) st
             in walk_chain func type ci i
                  (if elements (clientTable st1 ! ci) \<noteq> n then 0 else Suc k) st1
           else walk_chain func type ci i (Suc k) st
         else Some st)"

partial_function (option) walk_buckets ::
    "(Resource \<Rightarrow> ResState \<Rightarrow> ResState) \<Rightarrow> RESTYPE \<Rightarrow> nat \<Rightarrow> nat \<Rightarrow> ResState \<Rightarrow> ResState option" where
  "walk_buckets func type ci i st =
     (if i < buckets (clientTable st ! ci) then
        Option.bind (walk_chain func type ci i 0 st) (walk_buckets func type ci (Suc i))
      else Some st)"

definition FindClientResourcesByType ::
    "ClientRec option \<Rightarrow> RESTYPE \<Rightarrow> (pointer \<Rightarrow> XID \<Rightarrow> ResState \<Rightarrow> ResState) \<Rightarrow> ResState \<Rightarrow> ResState option" where
  "FindClientResourcesByType client type func st =
     walk_buckets (\<lambda>r. func (res_value r) (res_id r)) type
       (case client of None \<Rightarrow> 0 | Some cl \<Rightarrow> cl_index cl) 0 st"

definition FindAllClientResources ::
    "ClientRec option \<Rightarrow> (pointer \<Rightarrow> XID \<Rightarrow> RESTYPE \<Rightarrow> ResState \<Rightarrow> ResState) \<Rightarrow> ResState \<Rightarrow> ResState option" where
  "FindAllClientResources client func st =
     walk_buckets (\<lambda>r. func (res_value r) (res_id r) (res_type r)) 0
       (case client of None \<Rightarrow> 0 | Some cl \<Rightarrow> cl_index cl) 0 st"

definition LookupClientResourceComplex ::
    "ClientRec option \<Rightarrow> RESTYPE \<Rightarrow> (pointer \<Rightarrow> XID \<Rightarrow> bool) \<Rightarrow> ResState \<Rightarrow> pointer" where
  "LookupClientResourceComplex client type func st =
     (let c = clientTable st ! (case client of None \<Rightarrow> 0 | Some cl \<Rightarrow> cl_index cl)
      in case List.find (\<lambda>r. (type = 0 \<or> res_type r = type) \<and> func (res_value r) (res_id r))
                        (concat (take (buckets c) (resources c))) of
           None \<Rightarrow> 0
         | Some r \<Rightarrow> res_value r)"

section \<open>Closing a client\<close>

partial_function (option) NeverRetain_chain ::
    "delfun \<Rightarrow> nat \<Rightarrow> nat \<Rightarrow> nat \<Rightarrow> ResState \<Rightarrow> ResState option" where
  "NeverRetain_chain del ci j k st =
     (let ch = resources (clientTable st ! ci) ! j
      in if k < length ch then
           if res_type (ch ! k) AND RC_NEVERRETAIN \<noteq> 0 then
             NeverRetain_chain del ci j k (run_delete del False (ch ! k) (unlink ci j k st))
           else NeverRetain_chain del ci j (Suc k) st
         else Some st)"

partial_function (option) NeverRetain_buckets ::
    "delfun \<Rightarrow> nat \<Rightarrow> nat \<Rightarrow> ResState \<Rightarrow> ResState option" where
  "NeverRetain_buckets del ci j st =
     (if j < buckets (clientTable st ! ci) then
        Option.bind (NeverRetain_chain del ci j 0 st) (NeverRetain_buckets del ci (Suc j))
      else Some st)"

definition FreeClientNeverRetainResources ::
    "delfun \<Rightarrow> ClientRec option \<Rightarrow> ResState \<Rightarrow> ResState option" where
  "FreeClientNeverRetainResources del client st =
     (case client of None \<Rightarrow> Some st | Some cl \<Rightarrow> NeverRetain_buckets del (cl_index cl) 0 st)"

partial_function (option) FreeClient_chain :: "delfun \<Rightarrow> nat \<Rightarrow> nat \<Rightarrow> ResState \<Rightarrow> ResState option" where
  "FreeClient_chain del ci j st =
     (case resources (clientTable st ! ci) ! j of
        [] \<Rightarrow> Some st
      | this # _ \<Rightarrow> FreeClient_chain del ci j (run_delete del False this (unlink ci j 0 st)))"

partial_function (option) FreeClient_buckets :: "delfun \<Rightarrow> nat \<Rightarrow> nat \<Rightarrow> ResState \<Rightarrow> ResState option" where
  "FreeClient_buckets del ci j st =
     (if j < buckets (clientTable st ! ci) then
        Option.bind (FreeClient_chain del ci j st) (FreeClient_buckets del ci (Suc j))
      else Some st)"

definition FreeClientResources :: "delfun \<Rightarrow> ClientRec option \<Rightarrow> ResState \<Rightarrow> ResState option" where
  "FreeClientResources del client st =
     (case client of
        None \<Rightarrow> Some st
      | Some cl \<Rightarrow>
          Option.bind (FreeClient_buckets del (cl_index cl) 0 (log_event (SaveSetHandled (cl_index cl)) st))
            (\<lambda>st1. Some (upd_client st1 (cl_index cl)
                       ((clientTable st1 ! cl_index cl)\<lparr>resources := [], buckets := 0\<rparr>))))"

text \<open>Clients \<open>n - 1\<close> down to 0; \<^verbatim>\<open>FreeAllResources\<close> starts at \<^verbatim>\<open>currentMaxClients\<close>.\<close>

fun FreeAllResources :: "delfun \<Rightarrow> nat \<Rightarrow> ResState \<Rightarrow> ResState option" where
  "FreeAllResources del 0 st = Some st"
| "FreeAllResources del (Suc i) st =
     Option.bind (if buckets (clientTable st ! i) \<noteq> 0 then FreeClientResources del (clients st ! i) st
                  else Some st)
       (FreeAllResources del i)"

section \<open>Looking up\<close>

text \<open>
  \<open>xace\<close> is the access-control hook for \<^verbatim>\<open>XACE_RESOURCE_ACCESS\<close>: client, identifier, type,
  access mode and object give its integer result; 0 means the access is refused.
\<close>

type_synonym xace_resource = "ClientRec \<Rightarrow> XID \<Rightarrow> RESTYPE \<Rightarrow> Mask \<Rightarrow> pointer \<Rightarrow> int"

definition find_resource :: "(Resource \<Rightarrow> bool) \<Rightarrow> XID \<Rightarrow> ResState \<Rightarrow> Resource option" where
  "find_resource P xid st =
     (let cid = CLIENT_ID xid; c = clientTable st ! cid
      in if cid < MAXCLIENTS \<and> buckets c \<noteq> 0
         then List.find (\<lambda>r. res_id r = xid \<and> P r) (chain c xid) else None)"

definition SecurityLookupIDByType ::
    "xace_resource \<Rightarrow> ClientRec option \<Rightarrow> XID \<Rightarrow> RESTYPE \<Rightarrow> Mask \<Rightarrow> ResState \<Rightarrow> pointer" where
  "SecurityLookupIDByType xace client xid rtype mode st =
     (let retval = (case find_resource (\<lambda>r. res_type r = rtype) xid st of
                      None \<Rightarrow> 0 | Some r \<Rightarrow> res_value r)
      in case client of
           None \<Rightarrow> retval
         | Some cl \<Rightarrow> if retval \<noteq> 0 \<and> xace cl xid rtype mode retval = 0 then 0 else retval)"

definition SecurityLookupIDByClass ::
    "xace_resource \<Rightarrow> ClientRec option \<Rightarrow> XID \<Rightarrow> RESTYPE \<Rightarrow> Mask \<Rightarrow> ResState \<Rightarrow> pointer" where
  "SecurityLookupIDByClass xace client xid classes mode st =
     (case find_resource (\<lambda>r. res_type r AND classes \<noteq> 0) xid st of
        None \<Rightarrow> 0
      | Some r \<Rightarrow>
          (case client of
             None \<Rightarrow> res_value r
           | Some cl \<Rightarrow>
               if res_value r \<noteq> 0 \<and> xace cl xid (res_type r) mode (res_value r) = 0 then 0
               else res_value r))"

definition LookupIDByType :: "XID \<Rightarrow> RESTYPE \<Rightarrow> ResState \<Rightarrow> pointer" where
  "LookupIDByType xid rtype st = SecurityLookupIDByType (\<lambda>_ _ _ _ _. 0) None xid rtype 0 st"

definition LookupIDByClass :: "XID \<Rightarrow> RESTYPE \<Rightarrow> ResState \<Rightarrow> pointer" where
  "LookupIDByClass xid classes st = SecurityLookupIDByClass (\<lambda>_ _ _ _ _. 0) None xid classes 0 st"

definition LegalNewID :: "bool \<Rightarrow> XID \<Rightarrow> ClientRec \<Rightarrow> ResState \<Rightarrow> bool" where
  "LegalNewID noPanoramiXExtension xid client st =
     (let c = clientTable st ! cl_index client;
          minid = clientAsMask client OR (if cl_index client \<noteq> 0 then SERVER_BIT else SERVER_MINID);
          maxid = (fakeID c OR RESOURCE_ID_MASK) + 1
      in if \<not> noPanoramiXExtension \<and> minid \<le> xid \<and> xid \<le> maxid then True
         else clientAsMask client = xid AND NOT RESOURCE_ID_MASK \<and>
              (expectID c \<le> xid \<or> LookupIDByClass xid RC_ANY st = 0))"

text \<open>\<open>need\<close> identifiers are still wanted; the ones found are returned in order.\<close>

partial_function (option) GetXIDList_loop :: "ResState \<Rightarrow> nat \<Rightarrow> XID \<Rightarrow> XID \<Rightarrow> XID list option" where
  "GetXIDList_loop st need xid maxid =
     (if need > 0 \<and> xid \<le> maxid then
        if LookupIDByClass xid RC_ANY st = 0
        then Option.bind (GetXIDList_loop st (need - 1) (xid + 1) maxid) (\<lambda>pids. Some (xid # pids))
        else GetXIDList_loop st need (xid + 1) maxid
      else Some [])"

definition GetXIDList :: "ClientRec \<Rightarrow> nat \<Rightarrow> ResState \<Rightarrow> XID list option" where
  "GetXIDList pClient count st =
     GetXIDList_loop st count (clientAsMask pClient) (clientAsMask pClient OR RESOURCE_ID_MASK)"

end
