(* ===== verification/Keyed_Store.thy ===== *)
theory Keyed_Store
  imports Ssx_Prelude
begin

text \<open>
  The interface shared by the server's hash tables: a store that keeps, for every key, a
  stack of entries of which a lookup sees the newest. The resource database frees all
  entries of a key at once, the generic hash table of the extensions frees the newest
  one; \<open>trim\<close> is that choice. A key is usable when the store may add under it.
\<close>

datatype ('k, 'v) store_op = Add 'k 'v | Free 'k

fun run_store :: "('k \<Rightarrow> 'v \<Rightarrow> 's \<Rightarrow> 's) \<Rightarrow> ('k \<Rightarrow> 's \<Rightarrow> 's) \<Rightarrow> ('k, 'v) store_op list \<Rightarrow> 's \<Rightarrow> 's" where
  "run_store add free [] s = s"
| "run_store add free (Add k v # ops) s = run_store add free ops (add k v s)"
| "run_store add free (Free k # ops) s = run_store add free ops (free k s)"

fun spec_store :: "('v list \<Rightarrow> 'v list) \<Rightarrow> ('k, 'v) store_op list \<Rightarrow> ('k \<Rightarrow> 'v list) \<Rightarrow> 'k \<Rightarrow> 'v list" where
  "spec_store trim [] m = m"
| "spec_store trim (Add k v # ops) m = spec_store trim ops (m(k := v # m k))"
| "spec_store trim (Free k # ops) m = spec_store trim ops (m(k := trim (m k)))"

fun op_key :: "('k, 'v) store_op \<Rightarrow> 'k" where
  "op_key (Add k v) = k"
| "op_key (Free k) = k"

locale keyed_store =
  fixes invar :: "'s \<Rightarrow> bool"
    and usable :: "'s \<Rightarrow> 'k \<Rightarrow> bool"
    and view :: "'s \<Rightarrow> 'k \<Rightarrow> 'v list"
    and trim :: "'v list \<Rightarrow> 'v list"
    and add :: "'k \<Rightarrow> 'v \<Rightarrow> 's \<Rightarrow> 's"
    and free :: "'k \<Rightarrow> 's \<Rightarrow> 's"
    and lookup :: "'s \<Rightarrow> 'k \<Rightarrow> 'v option"
  assumes add_invar: "invar s \<Longrightarrow> usable s k \<Longrightarrow> invar (add k v s)"
    and free_invar: "invar s \<Longrightarrow> usable s k \<Longrightarrow> invar (free k s)"
    and add_usable: "invar s \<Longrightarrow> usable s k \<Longrightarrow> usable (add k v s) k' = usable s k'"
    and free_usable: "invar s \<Longrightarrow> usable s k \<Longrightarrow> usable (free k s) k' = usable s k'"
    and add_view: "invar s \<Longrightarrow> usable s k \<Longrightarrow> view (add k v s) = (view s)(k := v # view s k)"
    and free_view: "invar s \<Longrightarrow> usable s k \<Longrightarrow> view (free k s) = (view s)(k := trim (view s k))"
    and lookup_view: "invar s \<Longrightarrow> lookup s k = (case view s k of [] \<Rightarrow> None | v # _ \<Rightarrow> Some v)"
begin

lemma run_refines:
  "invar s \<Longrightarrow> \<forall>x \<in> set ops. usable s (op_key x) \<Longrightarrow>
     invar (run_store add free ops s) \<and> view (run_store add free ops s) = spec_store trim ops (view s)"
proof (induction ops arbitrary: s)
  case (Cons x ops)
  show ?case
  proof (cases x)
    case (Add k v)
    then show ?thesis
      using Cons.IH [of "add k v s"] Cons.prems add_invar add_usable by (simp add: add_view fun_upd_def)
  next
    case (Free k)
    then show ?thesis
      using Cons.IH [of "free k s"] Cons.prems free_invar free_usable by (simp add: free_view fun_upd_def)
  qed
qed simp

lemma lookup_run:
  assumes "invar s" "\<forall>x \<in> set ops. usable s (op_key x)"
  shows "lookup (run_store add free ops s) k =
     (case spec_store trim ops (view s) k of [] \<Rightarrow> None | v # _ \<Rightarrow> Some v)"
  using run_refines [OF assms] lookup_view by simp

end

text \<open>
  A second interface, for clients that add a key only when it is absent: a finite map.
  Keys have to be of the kind the store compares faithfully.
\<close>

fun run_map :: "('s \<Rightarrow> 'k \<Rightarrow> 'v option) \<Rightarrow> ('k \<Rightarrow> 'v \<Rightarrow> 's \<Rightarrow> 's) \<Rightarrow> ('k \<Rightarrow> 's \<Rightarrow> 's) \<Rightarrow> ('k, 'v) store_op list \<Rightarrow> 's \<Rightarrow> 's" where
  "run_map lookup add remove [] s = s"
| "run_map lookup add remove (Add k v # ops) s =
     run_map lookup add remove ops (if lookup s k = None then add k v s else s)"
| "run_map lookup add remove (Free k # ops) s = run_map lookup add remove ops (remove k s)"

fun spec_map :: "('k, 'v) store_op list \<Rightarrow> ('k \<Rightarrow> 'v option) \<Rightarrow> 'k \<Rightarrow> 'v option" where
  "spec_map [] m = m"
| "spec_map (Add k v # ops) m = spec_map ops (if m k = None then m(k \<mapsto> v) else m)"
| "spec_map (Free k # ops) m = spec_map ops (m(k := None))"

locale map_store =
  fixes invar :: "'s \<Rightarrow> bool"
    and key_ok :: "'k \<Rightarrow> bool"
    and lookup :: "'s \<Rightarrow> 'k \<Rightarrow> 'v option"
    and add :: "'k \<Rightarrow> 'v \<Rightarrow> 's \<Rightarrow> 's"
    and remove :: "'k \<Rightarrow> 's \<Rightarrow> 's"
  assumes add_ok: "invar s \<Longrightarrow> key_ok k \<Longrightarrow> lookup s k = None \<Longrightarrow> invar (add k v s)"
    and remove_ok: "invar s \<Longrightarrow> key_ok k \<Longrightarrow> invar (remove k s)"
    and add_lookup: "invar s \<Longrightarrow> key_ok k \<Longrightarrow> lookup s k = None \<Longrightarrow> key_ok j \<Longrightarrow>
      lookup (add k v s) j = (if j = k then Some v else lookup s j)"
    and remove_lookup: "invar s \<Longrightarrow> key_ok k \<Longrightarrow> key_ok j \<Longrightarrow>
      lookup (remove k s) j = (if j = k then None else lookup s j)"
begin

lemma run_refines_map:
  "invar s \<Longrightarrow> \<forall>x \<in> set ops. key_ok (op_key x) \<Longrightarrow> \<forall>k. key_ok k \<longrightarrow> m k = lookup s k \<Longrightarrow>
     invar (run_map lookup add remove ops s) \<and>
     (\<forall>k. key_ok k \<longrightarrow> lookup (run_map lookup add remove ops s) k = spec_map ops m k)"
proof (induction ops arbitrary: s m)
  case (Cons x ops)
  show ?case
  proof (cases x)
    case (Add k v)
    then have k: "key_ok k" using Cons.prems by simp
    let ?s = "if lookup s k = None then add k v s else s" and ?m = "if m k = None then m(k \<mapsto> v) else m"
    have "invar ?s" using Cons.prems(1) add_ok k by simp
    moreover have "\<forall>j. key_ok j \<longrightarrow> ?m j = lookup ?s j" using Cons.prems(1,3) k add_lookup by simp
    ultimately show ?thesis using Cons.IH [of ?s ?m] Cons.prems(2) by (simp add: Add)
  next
    case (Free k)
    then have k: "key_ok k" using Cons.prems by simp
    have "\<forall>j. key_ok j \<longrightarrow> (m(k := None)) j = lookup (remove k s) j" using Cons.prems(1,3) k remove_lookup by simp
    then show ?thesis
      using Cons.IH [of "remove k s" "m(k := None)"] Cons.prems(1,2) remove_ok k by (simp add: Free fun_upd_def)
  qed
qed simp

end

end
