(* ===== verification/Resource_Table.thy ===== *)
theory Resource_Table
  imports Resources Keyed_Store "HOL-Library.Multiset"
begin

text \<open>
  Correctness of the client hash tables: the representation invariant, the abstraction
  of a table to the resources of each identifier (newest first), and what adding,
  freeing, changing, looking up and closing do to it.
\<close>

section \<open>Hashing\<close>

lemma and_mask_bound: "uint (mask n AND w :: XID) < 2 ^ n"
proof -
  have "mask n AND w = take_bit n w" by (simp add: take_bit_eq_mask ac_simps)
  then have "uint (mask n AND w) = take_bit n (uint w)" by (simp add: unsigned_take_bit_eq)
  then show ?thesis by (simp add: take_bit_int_less_exp)
qed

lemma Hash_bounds: "6 \<le> hs \<Longrightarrow> hs \<le> 11 \<Longrightarrow> 0 \<le> Hash hs xid \<and> Hash hs xid < 2 ^ hs"
proof -
  assume "6 \<le> hs" "hs \<le> 11"
  then have "hs \<in> {6, 7, 8, 9, 10, 11}" by auto
  moreover have "(0x03F::XID) = mask 6" "(0x07F::XID) = mask 7" "(0x0FF::XID) = mask 8"
    "(0x1FF::XID) = mask 9" "(0x3FF::XID) = mask 10" "(0x7FF::XID) = mask 11"
    by (simp_all add: mask_eq_exp_minus_1)
  ultimately show ?thesis
    using and_mask_bound [of 6] and_mask_bound [of 7] and_mask_bound [of 8] and_mask_bound [of 9]
      and_mask_bound [of 10] and_mask_bound [of 11]
    by (auto simp: Hash_def Let_def)
qed

lemma CLIENT_BITS_shift: "drop_bit 21 (CLIENT_BITS xid) = mask 8 AND drop_bit 21 xid"
proof -
  have m: "RESOURCE_CLIENT_MASK = push_bit 21 (mask 8)"
    by (simp add: RESOURCE_CLIENT_MASK_def mask_eq_exp_minus_1)
  show ?thesis unfolding CLIENT_BITS_def m by (intro bit_word_eqI) (auto simp: bit_simps)
qed

lemma CLIENT_ID_bound [simp]: "CLIENT_ID xid < MAXCLIENTS"
  using and_mask_bound [of 8 "drop_bit 21 xid"]
  by (simp add: CLIENT_ID_def CLIENT_BITS_shift unat_uint_less_eq)

section \<open>The invariant and the abstraction\<close>

definition crec_inv :: "nat \<Rightarrow> ClientResourceRec \<Rightarrow> bool" where
  "crec_inv ci c \<longleftrightarrow> length (resources c) = buckets c \<and> (buckets c \<noteq> 0 \<longrightarrow>
     6 \<le> hashsize c \<and> hashsize c \<le> 11 \<and> buckets c = 2 ^ hashsize c \<and>
     (\<forall>h < length (resources c). \<forall>r \<in> set (resources c ! h).
        nat (Hash (hashsize c) (res_id r)) = h \<and> CLIENT_ID (res_id r) = ci) \<and>
     (\<forall>r \<in> set (concat (resources c)). res_id r AND SERVER_BIT = 0 \<longrightarrow> res_id r < expectID c))"

definition res_inv :: "ResState \<Rightarrow> bool" where
  "res_inv st \<longleftrightarrow> length (clientTable st) = MAXCLIENTS \<and>
     (\<forall>i < MAXCLIENTS. crec_inv i (clientTable st ! i))"

definition crec_view :: "ClientResourceRec \<Rightarrow> XID \<Rightarrow> Resource list" where
  "crec_view c xid = (if buckets c = 0 then [] else filter (\<lambda>r. res_id r = xid) (chain c xid))"

definition view :: "ResState \<Rightarrow> XID \<Rightarrow> Resource list" where
  "view st xid = crec_view (clientTable st ! CLIENT_ID xid) xid"

lemma crec_view_counters [simp]: "crec_view (c\<lparr>elements := n, expectID := e\<rparr>) = crec_view c"
  by (simp add: crec_view_def chain_def fun_eq_iff)

lemma crec_hash:
  assumes "crec_inv ci c" "buckets c \<noteq> 0"
  shows "nat (Hash (hashsize c) xid) < length (resources c)"
  using assms Hash_bounds [of "hashsize c" xid] by (simp add: crec_inv_def nat_less_iff)

text \<open>All resources with an identifier sit in the bucket of that identifier.\<close>

lemma crec_view_concat:
  assumes "crec_inv ci c" "buckets c \<noteq> 0"
  shows "filter (\<lambda>r. res_id r = xid) (concat (resources c)) = crec_view c xid"
proof -
  let ?h = "nat (Hash (hashsize c) xid)"
  have "filter (\<lambda>r. res_id r = xid) (resources c ! i) = []" if "i < length (resources c)" "i \<noteq> ?h" for i
    using that assms by (auto simp: crec_inv_def filter_empty_conv)
  then show ?thesis
    using filter_concat_single [OF crec_hash [OF assms, of xid], of "\<lambda>r. res_id r = xid"] assms(2)
    by (simp add: crec_view_def chain_def)
qed

lemma crec_other_client:
  assumes "crec_inv ci c" "CLIENT_ID xid \<noteq> ci" shows "crec_view c xid = []"
proof (cases "buckets c = 0")
  case False
  then have "\<forall>r \<in> set (chain c xid). CLIENT_ID (res_id r) = ci"
    using assms(1) crec_hash [OF assms(1) False, of xid] unfolding chain_def crec_inv_def by blast
  then show ?thesis using assms(2) by (auto simp: crec_view_def filter_empty_conv)
qed (simp add: crec_view_def)

lemma find_resource_view: "find_resource P xid st = List.find P (view st xid)"
  by (simp add: find_resource_def view_def crec_view_def find_filter Let_def)

section \<open>Rebuilding and adding\<close>

lemma length_rehash_into [simp]: "length (rehash_into hs rs new) = length new"
  by (induction hs rs new rule: rehash_into.induct) auto

lemma nth_rehash_into:
  "\<forall>r \<in> set rs. nat (Hash hs (res_id r)) < length new \<Longrightarrow> h < length new \<Longrightarrow>
     rehash_into hs rs new ! h = new ! h @ filter (\<lambda>r. nat (Hash hs (res_id r)) = h) rs"
  by (induction hs rs new rule: rehash_into.induct) (auto simp: nth_list_update)

lemma filter_filter_hash:
  "filter (\<lambda>r. nat (Hash hs (res_id r)) = nat (Hash hs xid) \<and> res_id r = xid) rs =
     filter (\<lambda>r. res_id r = xid) rs"
  by (induction rs) auto

lemma mset_rehash_into:
  "\<forall>r \<in> set rs. nat (Hash hs (res_id r)) < length new \<Longrightarrow>
     mset (concat (rehash_into hs rs new)) = mset (concat new) + mset rs"
proof (induction hs rs new rule: rehash_into.induct)
  case (2 hsize r rs new)
  let ?h = "nat (Hash hsize (res_id r))"
  have h: "?h < length new" using 2(2) by simp
  have "mset (concat (new[?h := new ! ?h @ [r]])) = mset (concat new) + {#r#}"
    using concat_update [OF h, of "new ! ?h @ [r]"] concat_update [OF h, of "new ! ?h"] by simp
  then show ?case using 2 by simp
qed simp

lemma RebuildTable_correct:
  assumes inv: "crec_inv ci c" and b: "buckets c \<noteq> 0" and hs: "hashsize c < MAXHASHSIZE"
  shows "crec_inv ci (RebuildTable ok c) \<and> crec_view (RebuildTable ok c) = crec_view c \<and>
     buckets (RebuildTable ok c) \<noteq> 0 \<and> elements (RebuildTable ok c) = elements c \<and>
     expectID (RebuildTable ok c) = expectID c \<and>
     mset (concat (resources (RebuildTable ok c))) = mset (concat (resources c))"
proof (cases "ok 0 \<and> ok 1")
  case True
  let ?c = "RebuildTable ok c" and ?n = "hashsize c + 1"
  have c6: "6 \<le> hashsize c" "buckets c = 2 ^ hashsize c" using inv b by (auto simp: crec_inv_def)
  have bound: "nat (Hash ?n x) < 2 * buckets c" for x
    using Hash_bounds [of ?n x] c6 hs by (simp add: nat_less_iff)
  have flds: "buckets ?c = 2 * buckets c" "hashsize ?c = ?n"
    "resources ?c = rehash_into ?n (concat (resources c)) (replicate (2 * buckets c) [])"
    "elements ?c = elements c" "expectID ?c = expectID c"
    using True by (auto simp: RebuildTable_def)
  have ms: "mset (concat (resources ?c)) = mset (concat (resources c))"
    unfolding flds by (subst mset_rehash_into) (use bound in \<open>auto simp: concat_replicate_trivial\<close>)
  have at: "resources ?c ! h = filter (\<lambda>r. nat (Hash ?n (res_id r)) = h) (concat (resources c))"
    if "h < 2 * buckets c" for h
    using nth_rehash_into [of "concat (resources c)" ?n "replicate (2 * buckets c) []" h] bound that
    by (simp add: flds)
  have "crec_inv ci ?c"
    using inv b c6 hs at mset_eq_setD [OF ms]
    by (auto simp: crec_inv_def flds in_set_conv_nth [where xs = "resources c"] simp del: set_concat)
      (auto simp: in_set_conv_nth [where xs = "resources c"])
  moreover have "crec_view ?c x = crec_view c x" for x
    using at [OF bound, of x] b crec_view_concat [OF inv b, of x]
    by (simp add: crec_view_def chain_def flds filter_filter_hash)
  ultimately show ?thesis using b flds ms by auto
qed (use inv b in \<open>auto simp: RebuildTable_def\<close>)

text \<open>Replacing one chain: what it takes to keep the invariant, and what the view becomes.\<close>

definition put_chain :: "ClientResourceRec \<Rightarrow> nat \<Rightarrow> Resource list \<Rightarrow> ClientResourceRec" where
  "put_chain c h ch = c\<lparr>resources := (resources c)[h := ch]\<rparr>"

lemma put_chain_view:
  "h < length (resources c) \<Longrightarrow> buckets c \<noteq> 0 \<Longrightarrow> crec_view (put_chain c h ch) xid =
     (if nat (Hash (hashsize c) xid) = h then filter (\<lambda>r. res_id r = xid) ch else crec_view c xid)"
  by (simp add: crec_view_def chain_def put_chain_def)

lemma put_chain_inv:
  assumes "crec_inv ci c" "buckets c \<noteq> 0" "h < length (resources c)" "\<forall>r \<in> set ch. r \<in> set (resources c ! h) \<or>
     nat (Hash (hashsize c) (res_id r)) = h \<and> CLIENT_ID (res_id r) = ci \<and>
     (res_id r AND SERVER_BIT = 0 \<longrightarrow> res_id r < e)" "expectID c \<le> e"
  shows "crec_inv ci ((put_chain c h ch)\<lparr>elements := n, expectID := e\<rparr>)"
proof -
  have flds: "6 \<le> hashsize c" "hashsize c \<le> 11" "buckets c = 2 ^ hashsize c" "length (resources c) = buckets c"
    and homed: "\<And>i r. i < length (resources c) \<Longrightarrow> r \<in> set (resources c ! i) \<Longrightarrow>
        nat (Hash (hashsize c) (res_id r)) = i \<and> CLIENT_ID (res_id r) = ci"
    and expected: "\<And>r. r \<in> set (concat (resources c)) \<Longrightarrow> res_id r AND SERVER_BIT = 0 \<Longrightarrow> res_id r < expectID c"
    using assms(1,2) unfolding crec_inv_def by blast+
  have old: "r \<in> set (concat (resources c))" if "r \<in> set (resources c ! h)" for r
    using that assms(3) by auto
  have "nat (Hash (hashsize c) (res_id r)) = i \<and> CLIENT_ID (res_id r) = ci"
    if "i < length (resources c)" "r \<in> set ((resources c)[h := ch] ! i)" for i r
    using that assms(3,4) homed by (cases "i = h") auto
  moreover have "res_id r < e" if r: "r \<in> set (concat ((resources c)[h := ch]))" and "res_id r AND SERVER_BIT = 0" for r
  proof -
    from r have "r \<in> set ch \<or> r \<in> set (concat (resources c))" by (auto dest!: set_list_update_le)
    then show ?thesis using that(2) assms(4,5) expected old by (meson order_less_le_trans)
  qed
  ultimately show ?thesis
    using flds by (simp add: crec_inv_def put_chain_def)
qed

lemma upd_client_nth [simp]:
  "i < length (clientTable st) \<Longrightarrow> clientTable (upd_client st i c) ! j = (if i = j then c else clientTable st ! j)"
  by (simp add: upd_client_def nth_list_update)

lemma res_inv_upd: "res_inv st \<Longrightarrow> i < MAXCLIENTS \<Longrightarrow> crec_inv i c \<Longrightarrow> res_inv (upd_client st i c)"
  by (simp add: res_inv_def) (simp add: upd_client_def)

lemma view_upd:
  "res_inv st \<Longrightarrow> i < MAXCLIENTS \<Longrightarrow> view (upd_client st i c) xid = (if CLIENT_ID xid = i then crec_view c xid else view st xid)"
  by (simp add: view_def res_inv_def)

lemma res_invD [dest]: "res_inv st \<Longrightarrow> crec_inv (CLIENT_ID xid) (clientTable st ! CLIENT_ID xid)"
  using CLIENT_ID_bound by (simp add: res_inv_def)

definition usable :: "ResState \<Rightarrow> XID \<Rightarrow> bool" where
  "usable st xid \<longleftrightarrow> buckets (clientTable st ! CLIENT_ID xid) \<noteq> 0"

lemma server_bit_succ: "xid AND SERVER_BIT = 0 \<Longrightarrow> xid < xid + 1"
  for xid :: XID
proof -
  assume "xid AND SERVER_BIT = 0"
  then have "xid \<noteq> -1" by (auto simp: SERVER_BIT_def)
  then have "unat xid \<noteq> unat (-1 :: XID)" by (metis unsigned_word_eqI)
  moreover have "unat (-1 :: XID) = 2 ^ 32 - 1" by (simp add: unsigned_minus_1_eq_mask mask_eq_exp_minus_1)
  moreover have "unat xid < 2 ^ LENGTH(32)" by (rule unsigned_less)
  ultimately have "unat xid < 2 ^ 32 - 1" by simp
  then show ?thesis by (simp add: word_less_nat_alt unat_word_ariths)
qed

lemma crec_add:
  assumes "crec_inv (CLIENT_ID (res_id r)) c" "buckets c \<noteq> 0"
  defines "e \<equiv> (if res_id r AND SERVER_BIT = 0 \<and> res_id r \<ge> expectID c then res_id r + 1 else expectID c)"
  shows "crec_inv (CLIENT_ID (res_id r)) ((set_chain c (res_id r) (r # chain c (res_id r)))\<lparr>elements := n, expectID := e\<rparr>)"
    and "crec_view ((set_chain c (res_id r) (r # chain c (res_id r)))\<lparr>elements := n, expectID := e\<rparr>) =
           (crec_view c)(res_id r := r # crec_view c (res_id r))"
proof -
  let ?h = "nat (Hash (hashsize c) (res_id r))"
  note h = crec_hash [OF assms(1,2), of "res_id r"]
  have eq: "set_chain c (res_id r) (r # chain c (res_id r)) = put_chain c ?h (r # chain c (res_id r))"
    by (simp add: set_chain_def put_chain_def)
  have "expectID c \<le> e" "res_id r AND SERVER_BIT = 0 \<longrightarrow> res_id r < e"
    using server_bit_succ [of "res_id r"] unfolding e_def by auto
  then show "crec_inv (CLIENT_ID (res_id r)) ((set_chain c (res_id r) (r # chain c (res_id r)))\<lparr>elements := n, expectID := e\<rparr>)"
    unfolding eq by (intro put_chain_inv [OF assms(1,2) h]) (auto simp: chain_def)
  have "crec_view (set_chain c (res_id r) (r # chain c (res_id r))) x =
      ((crec_view c)(res_id r := r # crec_view c (res_id r))) x" for x
    unfolding eq put_chain_view [OF h assms(2)] using assms(2) by (auto simp: crec_view_def chain_def)
  then show "crec_view ((set_chain c (res_id r) (r # chain c (res_id r)))\<lparr>elements := n, expectID := e\<rparr>) =
      (crec_view c)(res_id r := r # crec_view c (res_id r))"
    unfolding crec_view_counters by (rule ext)
qed

text \<open>
  Delete functions that leave the resource database alone: what the code assumes of those of
  the simple types. The destructors of windows and of some extensions free other resources.
\<close>

definition delete_frame :: "delfun \<Rightarrow> bool" where
  "delete_frame del \<longleftrightarrow> (\<forall>d v i st. clientTable (del d v i st) = clientTable st \<and> events (del d v i st) = events st)"

lemma log_event_table [simp]:
  "clientTable (log_event e st) = clientTable st" "events (log_event e st) = e # events st"
  "res_inv (log_event e st) = res_inv st" "view (log_event e st) = view st"
  by (simp_all add: log_event_def res_inv_def view_def fun_eq_iff)

lemma call_delete_table [simp]:
  "delete_frame del \<Longrightarrow> clientTable (call_delete del ty v x st) = clientTable st"
  "delete_frame del \<Longrightarrow> events (call_delete del ty v x st) = Deleted x ty v # events st"
  by (simp_all add: call_delete_def delete_frame_def)

lemma same_table:
  assumes "clientTable st' = clientTable st"
  shows "res_inv st' = res_inv st" "view st' = view st" "usable st' = usable st"
  using assms by (simp_all add: res_inv_def view_def usable_def fun_eq_iff)

definition grown :: "alloc \<Rightarrow> ClientResourceRec \<Rightarrow> ClientResourceRec" where
  "grown ok c = (if elements c \<ge> 4 * int (buckets c) \<and> hashsize c < MAXHASHSIZE then RebuildTable ok c else c)"

lemma grown_correct:
  assumes "crec_inv ci c" "buckets c \<noteq> 0"
  shows "crec_inv ci (grown ok c)" "crec_view (grown ok c) = crec_view c" "buckets (grown ok c) \<noteq> 0"
    "elements (grown ok c) = elements c" "expectID (grown ok c) = expectID c"
  using RebuildTable_correct [OF assms, of ok] assms by (auto simp: grown_def)

lemma AddResource_some:
  assumes "ok 2" "usable st xid"
  defines "c \<equiv> grown ok (clientTable st ! CLIENT_ID xid)"
  shows "AddResource ok del xid type value st = Some (True, upd_client st (CLIENT_ID xid)
     ((set_chain c xid (\<lparr>res_id = xid, res_type = type, res_value = value\<rparr> # chain c xid))\<lparr>elements := elements c + 1,
        expectID := (if xid AND SERVER_BIT = 0 \<and> xid \<ge> expectID c then xid + 1 else expectID c)\<rparr>))"
  using assms(1,2)
  by (simp add: AddResource_def usable_def Let_def c_def grown_def [symmetric] set_chain_def)

lemma AddResource_ok:
  assumes "res_inv st" "usable st xid" "ok 2"
  shows "\<exists>st'. AddResource ok del xid type value st = Some (True, st') \<and> res_inv st' \<and>
     view st' = (view st)(xid := \<lparr>res_id = xid, res_type = type, res_value = value\<rparr> # view st xid) \<and>
     (\<forall>x. usable st' x = usable st x) \<and> events st' = events st"
proof -
  let ?ci = "CLIENT_ID xid" and ?r = "\<lparr>res_id = xid, res_type = type, res_value = value\<rparr>"
  let ?c = "clientTable st ! ?ci"
  let ?g = "grown ok ?c"
  note g = grown_correct [OF res_invD [OF assms(1)] assms(2) [unfolded usable_def], of ok]
  note add = crec_add [of ?r ?g "elements ?g + 1", unfolded Resource.simps, OF g(1) g(3)]
  let ?c' = "(set_chain ?g xid (?r # chain ?g xid))\<lparr>elements := elements ?g + 1,
      expectID := (if xid AND SERVER_BIT = 0 \<and> xid \<ge> expectID ?g then xid + 1 else expectID ?g)\<rparr>"
  have "res_inv (upd_client st ?ci ?c')" using res_inv_upd [OF assms(1) _ add(1)] by simp
  moreover have "view (upd_client st ?ci ?c') x = ((view st)(xid := ?r # view st xid)) x" for x
    using add(2) g(2) by (simp add: view_upd assms(1)) (simp add: view_def)
  moreover have "usable (upd_client st ?ci ?c') x = usable st x" for x
    using g(3) assms(1,2) by (auto simp: usable_def res_inv_def set_chain_def)
  ultimately show ?thesis
    using AddResource_some [of ok st xid del type "value", OF assms(3,2)] by (auto simp: upd_client_def)
qed

lemma AddResource_failure:
  assumes "res_inv st" "usable st xid" "\<not> ok 2" "delete_frame del"
  shows "\<exists>st'. AddResource ok del xid type value st = Some (False, st') \<and> res_inv st' \<and>
     view st' = view st \<and> (\<forall>x. usable st' x = usable st x) \<and> events st' = Deleted xid type value # events st"
proof -
  let ?st1 = "upd_client st (CLIENT_ID xid) (grown ok (clientTable st ! CLIENT_ID xid))"
  note g = grown_correct [OF res_invD [OF assms(1)] assms(2) [unfolded usable_def], of ok]
  have eq: "AddResource ok del xid type value st = Some (False, call_delete del type value xid ?st1)"
    using assms(2,3) by (simp add: AddResource_def usable_def Let_def grown_def)
  have "res_inv ?st1" using res_inv_upd [OF assms(1) _ g(1)] by simp
  moreover have "view ?st1 = view st"
    using g(2) assms(1) by (auto simp: fun_eq_iff view_upd) (simp add: view_def)
  moreover have "usable ?st1 x = usable st x" for x
    using g(3) assms(1,2) by (auto simp: usable_def res_inv_def)
  moreover have "clientTable (call_delete del type value xid ?st1) = clientTable ?st1"
    using assms(4) by simp
  ultimately show ?thesis
    using eq same_table [of "call_delete del type value xid ?st1" ?st1] assms(4) by (auto simp: upd_client_def)
qed

text \<open>C18. Adding a resource to a client's table, whether or not it first has to be rebuilt, puts it in
  front of the resources with its identifier and leaves the rest alone. When memory runs out the
  object is deleted at once and the table keeps its contents; a client without a table
  is a fatal error.\<close>

lemma AddResource_correct:
  assumes "res_inv st" "delete_frame del"
  shows "(AddResource ok del xid type value st = None \<longleftrightarrow> \<not> usable st xid) \<and>
     (usable st xid \<longrightarrow> (\<exists>st'. AddResource ok del xid type value st = Some (ok 2, st') \<and> res_inv st' \<and>
       (\<forall>x. usable st' x = usable st x) \<and>
       view st' = (if ok 2 then (view st)(xid := \<lparr>res_id = xid, res_type = type, res_value = value\<rparr> # view st xid) else view st) \<and>
       events st' = (if ok 2 then [] else [Deleted xid type value]) @ events st))"
  using AddResource_ok [OF assms(1), of xid ok del type "value"]
    AddResource_failure [OF assms(1) _ _ assms(2), of xid ok type "value"]
  by (cases "usable st xid"; cases "ok 2") (auto simp: AddResource_def usable_def Let_def)

section \<open>Freeing\<close>

text \<open>What deleting a resource leaves in the log, latest first.\<close>

definition delete_events :: "bool \<Rightarrow> Resource \<Rightarrow> res_event list" where
  "delete_events skip r =
     (if skip then [] else [Deleted (res_id r) (res_type r) (res_value r)]) @
     (if res_type r AND RC_CACHED \<noteq> 0 then [FlushedCaches (res_id r)] else [])"

lemma run_delete_table [simp]:
  "delete_frame del \<Longrightarrow> clientTable (run_delete del skip r st) = clientTable st"
  "delete_frame del \<Longrightarrow> events (run_delete del skip r st) = delete_events skip r @ events st"
  by (simp_all add: run_delete_def delete_events_def Let_def)

lemma unlink_table [simp]:
  "clientTable (unlink ci h k st) = (clientTable st)[ci := put_chain (clientTable st ! ci) h
     (take k (resources (clientTable st ! ci) ! h) @ drop (Suc k) (resources (clientTable st ! ci) ! h))]"
  "events (unlink ci h k st) = events st"
  by (simp_all add: unlink_def Let_def upd_client_def put_chain_def)

definition freed :: "(Resource \<Rightarrow> bool) \<Rightarrow> nat \<Rightarrow> nat \<Rightarrow> nat \<Rightarrow> ResState \<Rightarrow> Resource list" where
  "freed P ci h k st = filter P (drop k (resources (clientTable st ! ci) ! h))"

text \<open>The table after the resources satisfying \<open>P\<close> from position \<open>k\<close> of a chain are gone.\<close>

definition pruned :: "(Resource \<Rightarrow> bool) \<Rightarrow> nat \<Rightarrow> nat \<Rightarrow> nat \<Rightarrow> bool \<Rightarrow> ResState \<Rightarrow> ClientResourceRec list" where
  "pruned P ci h k counts st =
     (let c = clientTable st ! ci; ch = resources c ! h
      in (clientTable st)[ci := (put_chain c h (take k ch @ filter (\<lambda>r. \<not> P r) (drop k ch)))
           \<lparr>elements := elements c - (if counts then int (length (freed P ci h k st)) else 0)\<rparr>])"

definition loc_ok :: "ResState \<Rightarrow> nat \<Rightarrow> nat \<Rightarrow> bool" where
  "loc_ok st ci h \<longleftrightarrow> ci < length (clientTable st) \<and> h < length (resources (clientTable st ! ci))"

lemma pruned_skip:
  assumes "loc_ok st ci h" "k < length (resources (clientTable st ! ci) ! h)"
    "\<not> P (resources (clientTable st ! ci) ! h ! k)"
  shows "freed P ci h (Suc k) st = freed P ci h k st" "pruned P ci h (Suc k) n st = pruned P ci h k n st"
  using assms by (simp_all add: freed_def pruned_def Cons_nth_drop_Suc [symmetric] take_Suc_conv_app_nth Let_def)

lemma pruned_step:
  assumes "loc_ok st ci h" "k < length (resources (clientTable st ! ci) ! h)"
    "P (resources (clientTable st ! ci) ! h ! k)"
    "clientTable st' = (clientTable st)[ci := (put_chain (clientTable st ! ci) h
       (take k (resources (clientTable st ! ci) ! h) @ drop (Suc k) (resources (clientTable st ! ci) ! h)))
         \<lparr>elements := elements (clientTable st ! ci) - (if n then 1 else 0)\<rparr>]"
  shows "loc_ok st' ci h" "freed P ci h k st = resources (clientTable st ! ci) ! h ! k # freed P ci h k st'"
    "pruned P ci h k n st' = pruned P ci h k n st"
    "length (drop k (resources (clientTable st' ! ci) ! h)) < length (drop k (resources (clientTable st ! ci) ! h))"
  using assms
  by (auto simp: loc_ok_def freed_def pruned_def put_chain_def Cons_nth_drop_Suc [symmetric] Let_def diff_diff_eq)

lemma pruned_done:
  "loc_ok st ci h \<Longrightarrow> length (resources (clientTable st ! ci) ! h) \<le> k \<Longrightarrow>
     freed P ci h k st = [] \<and> pruned P ci h k n st = clientTable st"
  by (simp add: freed_def pruned_def put_chain_def Let_def)

lemma FreeResource_loop_correct:
  fixes xid :: XID
  assumes "delete_frame del" "loc_ok st cid h"
  defines "P \<equiv> (\<lambda>r. res_id r = xid)"
  shows "\<exists>st'. FreeResource_loop del cid h xid skip k got st = Some (got \<or> freed P cid h k st \<noteq> [], st') \<and>
     clientTable st' = pruned P cid h k True st \<and>
     events st' = concat (map (\<lambda>r. delete_events (res_type r = skip) r) (rev (freed P cid h k st))) @ events st"
  using assms(2)
proof (induction "length (drop k (resources (clientTable st ! cid) ! h))" arbitrary: st k got rule: less_induct)
  case less
  let ?c = "clientTable st ! cid"
  let ?ch = "resources ?c ! h"
  note unf = FreeResource_loop.simps [of del cid h xid skip k got st]
  show ?case
  proof (cases "k < length ?ch")
    case False
    then show ?thesis using pruned_done [OF less.prems, of k P] unf by (simp add: Let_def)
  next
    case k: True
    show ?thesis
    proof (cases "P (?ch ! k)")
      case False
      then have "FreeResource_loop del cid h xid skip k got st = FreeResource_loop del cid h xid skip (Suc k) got st"
        using unf k by (simp add: Let_def P_def)
      then show ?thesis
        using less.hyps [of "Suc k" st got] pruned_skip [where P = P, OF less.prems k False] less.prems k by simp
    next
      case True
      let ?st1 = "unlink cid h k st"
      let ?st2 = "upd_client ?st1 cid ((clientTable ?st1 ! cid)\<lparr>elements := elements ?c - 1\<rparr>)"
      let ?st3 = "run_delete del (res_type (?ch ! k) = skip) (?ch ! k) ?st2"
      have cid: "cid < length (clientTable st)" using less.prems by (simp add: loc_ok_def)
      have tab: "clientTable ?st3 = (clientTable st)[cid := (put_chain ?c h (take k ?ch @ drop (Suc k) ?ch))
          \<lparr>elements := elements ?c - (if True then 1 else 0)\<rparr>]"
        using assms(1) cid by (simp add: upd_client_def put_chain_def)
      note step = pruned_step [where P = P, OF less.prems k True tab]
      have "FreeResource_loop del cid h xid skip k got st = FreeResource_loop del cid h xid skip k True ?st3"
        using unf k True cid assms(1) tab by (simp add: Let_def P_def put_chain_def upd_client_def)
      moreover have "events ?st3 = delete_events (res_type (?ch ! k) = skip) (?ch ! k) @ events st"
        using assms(1) by (simp add: upd_client_def)
      ultimately show ?thesis
        using less.hyps [OF step(4,1), of True] step(2,3) by auto
    qed
  qed
qed

lemma reset_last_drawable_table [simp]:
  "clientTable (reset_last_drawable ci xid st) = clientTable st"
  "events (reset_last_drawable ci xid st) = events st"
  by (simp_all add: reset_last_drawable_def split: option.split)

lemma put_chain_subset_inv:
  assumes "crec_inv ci c" "buckets c \<noteq> 0" "h < length (resources c)" "res_id ` set ch \<subseteq> res_id ` set (resources c ! h)"
  shows "crec_inv ci ((put_chain c h ch)\<lparr>elements := n\<rparr>)"
proof -
  have "nat (Hash (hashsize c) (res_id r)) = h \<and> CLIENT_ID (res_id r) = ci \<and>
      (res_id r AND SERVER_BIT = 0 \<longrightarrow> res_id r < expectID c)" if "r \<in> set (resources c ! h)" for r
    using assms(1,2,3) that unfolding crec_inv_def set_concat by (meson UN_I nth_mem)
  then have "nat (Hash (hashsize c) (res_id r)) = h \<and> CLIENT_ID (res_id r) = ci \<and>
      (res_id r AND SERVER_BIT = 0 \<longrightarrow> res_id r < expectID c)" if "r \<in> set ch" for r
    using that assms(4) by (smt (verit, best) image_iff subset_iff)
  then show ?thesis
    using put_chain_inv [OF assms(1,2,3), of ch "expectID c" n] by (simp add: put_chain_def)
qed

lemma usable_loc:
  "res_inv st \<Longrightarrow> usable st xid \<Longrightarrow> loc_ok st (CLIENT_ID xid) (nat (Hash (hashsize (clientTable st ! CLIENT_ID xid)) xid))"
  using crec_hash [OF res_invD] by (auto simp: loc_ok_def usable_def res_inv_def)

text \<open>Changing only the chain of \<open>xid\<close>, and in it only resources of \<open>xid\<close>.\<close>

lemma view_put_chain:
  assumes inv: "res_inv st" and u: "usable st xid"
    and sub: "res_id ` set ch \<subseteq> res_id ` set (chain (clientTable st ! CLIENT_ID xid) xid)"
    and oth: "\<And>x. x \<noteq> xid \<Longrightarrow> filter (\<lambda>r. res_id r = x) ch =
      filter (\<lambda>r. res_id r = x) (chain (clientTable st ! CLIENT_ID xid) xid)"
    and tab: "clientTable st' = (clientTable st)[CLIENT_ID xid := (put_chain (clientTable st ! CLIENT_ID xid)
      (nat (Hash (hashsize (clientTable st ! CLIENT_ID xid)) xid)) ch)\<lparr>elements := n\<rparr>]"
  shows "res_inv st'" "view st' = (view st)(xid := filter (\<lambda>r. res_id r = xid) ch)" "usable st' = usable st"
proof -
  let ?ci = "CLIENT_ID xid"
  let ?c = "clientTable st ! ?ci"
  let ?h = "nat (Hash (hashsize ?c) xid)" and ?c' = "(put_chain ?c (nat (Hash (hashsize ?c) xid)) ch)\<lparr>elements := n\<rparr>"
  have b: "buckets ?c \<noteq> 0" using u by (simp add: usable_def)
  note ci = res_invD [OF inv, of xid]
  note h = crec_hash [OF ci b, of xid]
  have tab': "clientTable st' = clientTable (upd_client st ?ci ?c')" using tab by (simp add: upd_client_def)
  have "crec_inv ?ci ?c'" using put_chain_subset_inv [OF ci b h] sub by (simp add: chain_def)
  then show "res_inv st'" using same_table(1) [OF tab'] res_inv_upd [OF inv] by simp
  have at: "crec_view ?c' x = crec_view (put_chain ?c ?h ch) x" for x by (simp add: crec_view_def chain_def)
  have "view st' x = ((view st)(xid := filter (\<lambda>r. res_id r = xid) ch)) x" for x
    unfolding same_table(2) [OF tab'] view_upd [OF inv CLIENT_ID_bound] at put_chain_view [OF h b]
    using b oth [of x] by (auto simp: view_def crec_view_def chain_def)
  then show "view st' = (view st)(xid := filter (\<lambda>r. res_id r = xid) ch)" by (rule ext)
  show "usable st' = usable st"
    using same_table(3) [OF tab'] inv b by (auto simp: fun_eq_iff usable_def put_chain_def res_inv_def)
qed

lemma view_freed:
  "usable st xid \<Longrightarrow>
    freed (\<lambda>r. res_id r = xid) (CLIENT_ID xid) (nat (Hash (hashsize (clientTable st ! CLIENT_ID xid)) xid)) 0 st = view st xid"
  by (simp add: freed_def view_def crec_view_def usable_def chain_def)

lemma FreeResource_run:
  assumes "res_inv st" "usable st xid" "delete_frame del"
  shows "\<exists>st'. FreeResource del xid skip st = Some st' \<and> res_inv st' \<and> view st' = (view st)(xid := []) \<and>
     usable st' = usable st \<and>
     events st' = (if view st xid = [] then [FreeNotFound xid]
        else concat (map (\<lambda>r. delete_events (res_type r = skip) r) (rev (view st xid)))) @ events st"
proof -
  let ?ci = "CLIENT_ID xid"
  let ?c = "clientTable st ! ?ci"
  let ?h = "nat (Hash (hashsize ?c) xid)" and ?P = "\<lambda>r. res_id r = xid"
  obtain st1 where run: "FreeResource_loop del ?ci ?h xid skip 0 False st = Some (view st xid \<noteq> [], st1)"
    and tab: "clientTable st1 = pruned ?P ?ci ?h 0 True st"
    and ev: "events st1 = concat (map (\<lambda>r. delete_events (res_type r = skip) r) (rev (view st xid))) @ events st"
    using FreeResource_loop_correct [OF assms(3) usable_loc [OF assms(1,2)], of xid skip 0 False]
      view_freed [OF assms(2)] by auto
  let ?st2 = "reset_last_drawable ?ci xid st1"
  let ?st3 = "if view st xid \<noteq> [] then ?st2 else log_event (FreeNotFound xid) ?st2"
  have tab3: "clientTable ?st3 = (clientTable st)[?ci := (put_chain ?c ?h (filter (\<lambda>r. \<not> ?P r) (chain ?c xid)))
      \<lparr>elements := elements ?c - int (length (view st xid))\<rparr>]"
    using tab view_freed [OF assms(2)] by (simp add: pruned_def chain_def Let_def)
  have oth: "filter (\<lambda>r. res_id r = x) (filter (\<lambda>r. \<not> ?P r) (chain ?c xid)) = filter (\<lambda>r. res_id r = x) (chain ?c xid)"
    if "x \<noteq> xid" for x
    using that by (simp add: filter_keep_other)
  note put = view_put_chain [OF assms(1,2) image_mono [OF filter_is_subset] oth tab3]
  have "FreeResource del xid skip st = Some ?st3"
    using run assms(2) by (simp add: FreeResource_def usable_def)
  moreover have "events ?st3 = (if view st xid = [] then [FreeNotFound xid]
      else concat (map (\<lambda>r. delete_events (res_type r = skip) r) (rev (view st xid)))) @ events st"
    using ev by auto
  moreover have "view ?st3 = (view st)(xid := [])" using put(2) by (simp add: filter_empty_conv)
  ultimately show ?thesis using put(1,3) by (intro exI [of _ ?st3]) simp
qed


text \<open>The first resource of a list that satisfies a condition: removed, and changed.\<close>

fun remove_first :: "('a \<Rightarrow> bool) \<Rightarrow> 'a list \<Rightarrow> 'a list" where
  "remove_first P [] = []"
| "remove_first P (x # xs) = (if P x then xs else x # remove_first P xs)"

fun change_first :: "('a \<Rightarrow> bool) \<Rightarrow> ('a \<Rightarrow> 'a) \<Rightarrow> 'a list \<Rightarrow> 'a list" where
  "change_first P f [] = []"
| "change_first P f (x # xs) = (if P x then f x # xs else x # change_first P f xs)"

lemma first_index_cases:
  "case first_index P xs of
     None \<Rightarrow> List.find P xs = None \<and> remove_first P xs = xs \<and> change_first P f xs = xs
   | Some k \<Rightarrow> k < length xs \<and> List.find P xs = Some (xs ! k) \<and> P (xs ! k) \<and>
       take k xs @ drop (Suc k) xs = remove_first P xs \<and> xs[k := f (xs ! k)] = change_first P f xs"
  by (induction xs) (auto split: option.splits)

lemma image_remove_first: "f ` set (remove_first P xs) \<subseteq> f ` set xs"
  by (induction xs) auto

lemma image_change_first: "(\<And>x. g (f x) = g x) \<Longrightarrow> g ` set (change_first P f xs) \<subseteq> g ` set xs"
  by (induction xs) auto

lemma filter_remove_first:
  "filter Q (remove_first (\<lambda>x. Q x \<and> P x) xs) = remove_first P (filter Q xs)"
  by (induction xs) auto

lemma filter_remove_first_other:
  "(\<And>x. P x \<Longrightarrow> \<not> Q x) \<Longrightarrow> filter Q (remove_first P xs) = filter Q xs"
  by (induction xs) auto

text \<open>Freeing by type removes exactly the newest resource with that identifier and type, if there
  is one, and leaves the others; its delete function runs once unless it is to be skipped, and the
  element count of the client's table does not change.\<close>

lemma FreeResourceByType_correct:
  fixes type :: RESTYPE and skipFree :: bool
  assumes "res_inv st" "usable st xid" "delete_frame del"
  defines "st' \<equiv> FreeResourceByType del xid type skipFree st"
  shows "res_inv st' \<and> view st' = (view st)(xid := remove_first (\<lambda>r. res_type r = type) (view st xid)) \<and>
     usable st' = usable st \<and>
     events st' = (case List.find (\<lambda>r. res_type r = type) (view st xid) of
        None \<Rightarrow> [] | Some r \<Rightarrow> delete_events skipFree r) @ events st \<and>
     elements (clientTable st' ! CLIENT_ID xid) = elements (clientTable st ! CLIENT_ID xid)"
proof -
  let ?ci = "CLIENT_ID xid" and ?T = "\<lambda>r. res_type r = type"
  let ?c = "clientTable st ! ?ci" and ?P = "\<lambda>r. res_id r = xid \<and> res_type r = type"
  let ?h = "nat (Hash (hashsize ?c) xid)" and ?ch = "chain ?c xid"
  have ci: "?ci < length (clientTable st)" using assms(1) by (simp add: res_inv_def)
  have vw: "view st xid = filter (\<lambda>r. res_id r = xid) ?ch"
    using assms(2) by (simp add: view_def crec_view_def usable_def)
  have find: "List.find ?T (view st xid) = List.find ?P ?ch" unfolding vw find_filter [symmetric] ..
  show ?thesis
  proof (cases "first_index ?P ?ch")
    case None
    then have "List.find ?P ?ch = None" "remove_first ?P ?ch = ?ch"
      using first_index_cases [of ?P ?ch] by auto
    moreover have "st' = reset_last_drawable ?ci xid st"
      using assms(2) None by (simp add: st'_def FreeResourceByType_def usable_def Let_def)
    ultimately show ?thesis
      using assms(1) find same_table [of st' st] filter_remove_first [of "\<lambda>r. res_id r = xid" ?T ?ch] vw
      by (simp add: fun_upd_idem)
  next
    case (Some k)
    then have k: "List.find ?P ?ch = Some (?ch ! k)" "take k ?ch @ drop (Suc k) ?ch = remove_first ?P ?ch"
      using first_index_cases [of ?P ?ch] by auto
    have st': "st' = reset_last_drawable ?ci xid (run_delete del skipFree (?ch ! k) (unlink ?ci ?h k st))"
      using assms(2) Some by (simp add: st'_def FreeResourceByType_def usable_def Let_def)
    have tab: "clientTable st' = (clientTable st)[?ci := (put_chain ?c ?h (remove_first ?P ?ch))\<lparr>elements := elements ?c\<rparr>]"
      using assms(3) k(2) by (simp add: st' chain_def put_chain_def)
    have oth: "filter (\<lambda>r. res_id r = x) (remove_first ?P ?ch) = filter (\<lambda>r. res_id r = x) ?ch" if "x \<noteq> xid" for x
      using that by (intro filter_remove_first_other) auto
    note put = view_put_chain [OF assms(1,2) image_remove_first oth tab]
    moreover have "events st' = delete_events skipFree (?ch ! k) @ events st"
      using assms(3) by (simp add: st')
    moreover have "elements (clientTable st' ! ?ci) = elements ?c" using tab ci by (simp add: put_chain_def)
    ultimately show ?thesis using k(1) find vw by (simp add: filter_remove_first)
  qed
qed

lemma filter_change_first:
  "(\<And>x. Q (f x) = Q x) \<Longrightarrow> filter Q (change_first (\<lambda>x. Q x \<and> P x) f xs) = change_first P f (filter Q xs)"
  by (induction xs) auto

lemma filter_change_first_other:
  "(\<And>x. P x \<Longrightarrow> \<not> Q x \<and> \<not> Q (f x)) \<Longrightarrow> filter Q (change_first P f xs) = filter Q xs"
  by (induction xs) auto

text \<open>Changing the value of a resource reports whether the identifier has a resource of that type,
  gives the new value to the newest of them and changes nothing else.\<close>

lemma ChangeResourceValue_correct:
  fixes rtype :: RESTYPE and newval :: pointer
  assumes "res_inv st" "usable st xid"
  defines "st' \<equiv> snd (ChangeResourceValue xid rtype newval st)"
  shows "fst (ChangeResourceValue xid rtype newval st) = (\<exists>r \<in> set (view st xid). res_type r = rtype) \<and> res_inv st' \<and>
     view st' = (view st)(xid := change_first (\<lambda>r. res_type r = rtype) (\<lambda>r. r\<lparr>res_value := newval\<rparr>) (view st xid)) \<and>
     usable st' = usable st"
proof -
  let ?ci = "CLIENT_ID xid" and ?T = "\<lambda>r. res_type r = rtype" and ?f = "\<lambda>r. r\<lparr>res_value := newval\<rparr>"
  let ?c = "clientTable st ! ?ci" and ?P = "\<lambda>r. res_id r = xid \<and> res_type r = rtype"
  let ?h = "nat (Hash (hashsize ?c) xid)" and ?ch = "chain ?c xid"
  have vw: "view st xid = filter (\<lambda>r. res_id r = xid) ?ch"
    using assms(2) by (simp add: view_def crec_view_def usable_def)
  have flt: "filter (\<lambda>r. res_id r = xid) (change_first ?P ?f ?ch) = change_first ?T ?f (view st xid)"
    unfolding vw by (rule filter_change_first) simp
  have ex: "(\<exists>r \<in> set (view st xid). res_type r = rtype) = (List.find ?P ?ch \<noteq> None)"
    by (auto simp: vw find_None_iff)
  show ?thesis
  proof (cases "first_index ?P ?ch")
    case None
    then have "List.find ?P ?ch = None" "change_first ?P ?f ?ch = ?ch"
      using first_index_cases [of ?P ?ch ?f] by auto
    moreover have "ChangeResourceValue xid rtype newval st = (False, st)"
      using assms(2) None by (simp add: ChangeResourceValue_def usable_def Let_def)
    ultimately show ?thesis using flt ex vw assms(1) by (simp add: st'_def fun_upd_idem)
  next
    case (Some k)
    then have k: "List.find ?P ?ch \<noteq> None" "?ch[k := ?f (?ch ! k)] = change_first ?P ?f ?ch"
      using first_index_cases [of ?P ?ch ?f] by auto
    have run: "fst (ChangeResourceValue xid rtype newval st)"
      "clientTable st' = (clientTable st)[?ci := (put_chain ?c ?h (change_first ?P ?f ?ch))\<lparr>elements := elements ?c\<rparr>]"
      using assms(2) Some k(2)
      by (simp_all add: ChangeResourceValue_def st'_def usable_def Let_def upd_client_def set_chain_def put_chain_def)
    have oth: "filter (\<lambda>r. res_id r = x) (change_first ?P ?f ?ch) = filter (\<lambda>r. res_id r = x) ?ch" if "x \<noteq> xid" for x
      using that by (intro filter_change_first_other) auto
    note put = view_put_chain [OF assms(1,2) image_change_first oth run(2)]
    then show ?thesis using run(1) k(1) ex flt by simp
  qed
qed

section \<open>Closing a client\<close>

definition pruned_events :: "(Resource \<Rightarrow> bool) \<Rightarrow> Resource list \<Rightarrow> res_event list" where
  "pruned_events P rs = concat (map (delete_events False) (rev (filter P rs)))"

lemma pruned_events_append [simp]: "pruned_events P (rs @ rs') = pruned_events P rs' @ pruned_events P rs"
  by (simp add: pruned_events_def)

text \<open>Both closing loops go over the buckets with a step that prunes one chain.\<close>

lemma bucket_loop:
  assumes unf: "\<And>j st. B j st = (if j < buckets (clientTable st ! ci)
      then Option.bind (f j st) (B (Suc j)) else Some st)"
    and step: "\<And>j st. loc_ok st ci j \<Longrightarrow> \<exists>st'. f j st = Some st' \<and> clientTable st' = pruned P ci j 0 False st \<and>
      events st' = pruned_events P (resources (clientTable st ! ci) ! j) @ events st"
    and "ci < length (clientTable st)" "length (resources (clientTable st ! ci)) = buckets (clientTable st ! ci)"
  shows "\<exists>st'. B j st = Some st' \<and> clientTable st' = (clientTable st)[ci := (clientTable st ! ci)
      \<lparr>resources := take j (resources (clientTable st ! ci)) @
         map (filter (\<lambda>r. \<not> P r)) (drop j (resources (clientTable st ! ci)))\<rparr>] \<and>
      events st' = pruned_events P (concat (drop j (resources (clientTable st ! ci)))) @ events st"
  using assms(3,4)
proof (induction "buckets (clientTable st ! ci) - j" arbitrary: st j)
  case 0
  then show ?case by (simp add: unf pruned_events_def)
next
  case (Suc n)
  let ?c = "clientTable st ! ci"
  from Suc have j: "loc_ok st ci j" and jb: "j < buckets ?c" by (auto simp: loc_ok_def)
  then obtain st1 where f: "f j st = Some st1" and tab: "clientTable st1 = pruned P ci j 0 False st"
    and ev: "events st1 = pruned_events P (resources ?c ! j) @ events st"
    using step by blast
  let ?c1 = "put_chain ?c j (filter (\<lambda>r. \<not> P r) (resources ?c ! j))"
  have c1: "clientTable st1 = (clientTable st)[ci := ?c1]" using tab by (simp add: pruned_def Let_def put_chain_def)
  then have nth: "clientTable st1 ! ci = ?c1" "buckets ?c1 = buckets ?c" using Suc(3) by (auto simp: put_chain_def)
  have "n = buckets (clientTable st1 ! ci) - Suc j" using Suc(2) nth by simp
  from Suc(1) [OF this] obtain st2 where
    b: "B (Suc j) st1 = Some st2" and tab2: "clientTable st2 = (clientTable st1)[ci := ?c1\<lparr>resources := take (Suc j) (resources ?c1) @
         map (filter (\<lambda>r. \<not> P r)) (drop (Suc j) (resources ?c1))\<rparr>]"
    and ev2: "events st2 = pruned_events P (concat (drop (Suc j) (resources ?c1))) @ events st1"
    using nth c1 Suc(3,4) by (auto simp: put_chain_def)
  have "B j st = Some st2" using unf [of j st] jb f b by simp
  moreover have "drop j (resources ?c) = resources ?c ! j # drop (Suc j) (resources ?c)"
    using j by (simp add: loc_ok_def Cons_nth_drop_Suc)
  ultimately show ?case
    using tab2 ev2 ev c1 j by (simp add: put_chain_def loc_ok_def take_Suc_conv_app_nth)
qed

lemma FreeClient_chain_correct:
  assumes "delete_frame del" "loc_ok st ci j"
  shows "\<exists>st'. FreeClient_chain del ci j st = Some st' \<and> clientTable st' = pruned (\<lambda>_. True) ci j 0 False st \<and>
     events st' = pruned_events (\<lambda>_. True) (resources (clientTable st ! ci) ! j) @ events st"
  using assms(2)
proof (induction "resources (clientTable st ! ci) ! j" arbitrary: st)
  case Nil
  then show ?case
    using pruned_done [OF Nil.prems, of 0 "\<lambda>_. True"] by (simp add: FreeClient_chain.simps pruned_events_def)
next
  case (Cons r rs)
  let ?st1 = "run_delete del False r (unlink ci j 0 st)"
  have tab: "clientTable ?st1 = (clientTable st)[ci := (put_chain (clientTable st ! ci) j
      (take 0 (resources (clientTable st ! ci) ! j) @ drop (Suc 0) (resources (clientTable st ! ci) ! j)))
      \<lparr>elements := elements (clientTable st ! ci) - (if False then 1 else 0)\<rparr>]"
    using assms(1) by (simp add: put_chain_def)
  have ne: "0 < length (resources (clientTable st ! ci) ! j)" using Cons(2) [symmetric] by simp
  note step = pruned_step [where P = "\<lambda>_. True", OF Cons.prems ne TrueI tab]
  have rs: "rs = resources (clientTable ?st1 ! ci) ! j"
    using tab Cons.prems Cons(2) [symmetric] by (simp add: loc_ok_def put_chain_def)
  have "FreeClient_chain del ci j st = FreeClient_chain del ci j ?st1"
    using Cons(2) [symmetric] by (subst FreeClient_chain.simps) simp
  moreover have "events ?st1 = delete_events False r @ events st" using assms(1) by simp
  moreover have "pruned_events (\<lambda>_. True) (r # rs) = pruned_events (\<lambda>_. True) rs @ delete_events False r"
    by (simp add: pruned_events_def)
  ultimately show ?case
    using Cons(1) [OF rs step(1)] step(3) unfolding rs [symmetric] Cons(2) [symmetric] by auto
qed

lemma NeverRetain_chain_correct:
  assumes "delete_frame del" "loc_ok st ci j"
  defines "P \<equiv> (\<lambda>r. res_type r AND RC_NEVERRETAIN \<noteq> 0)"
  shows "\<exists>st'. NeverRetain_chain del ci j k st = Some st' \<and> clientTable st' = pruned P ci j k False st \<and>
     events st' = pruned_events P (drop k (resources (clientTable st ! ci) ! j)) @ events st"
  using assms(2)
proof (induction "length (drop k (resources (clientTable st ! ci) ! j))" arbitrary: st k rule: less_induct)
  case less
  let ?c = "clientTable st ! ci"
  let ?ch = "resources ?c ! j"
  note unf = NeverRetain_chain.simps [of del ci j k st]
  consider "length ?ch \<le> k" | "k < length ?ch" "\<not> P (?ch ! k)" | "k < length ?ch" "P (?ch ! k)" by linarith
  then show ?case
  proof cases
    case 1
    then show ?thesis using pruned_done [OF less.prems 1, of P] unf by (simp add: pruned_events_def)
  next
    case 2
    then have "NeverRetain_chain del ci j k st = NeverRetain_chain del ci j (Suc k) st"
      using unf by (simp add: Let_def P_def)
    moreover have "drop k ?ch = ?ch ! k # drop (Suc k) ?ch" using 2 by (simp add: Cons_nth_drop_Suc)
    ultimately show ?thesis
      using less.hyps [of "Suc k" st] pruned_skip [where P = P, OF less.prems 2] less.prems 2
      by (simp add: pruned_events_def)
  next
    case 3
    let ?st1 = "run_delete del False (?ch ! k) (unlink ci j k st)"
    have tab: "clientTable ?st1 = (clientTable st)[ci := (put_chain ?c j (take k ?ch @ drop (Suc k) ?ch))
        \<lparr>elements := elements ?c - (if False then 1 else 0)\<rparr>]"
      using assms(1) by (simp add: put_chain_def)
    note step = pruned_step [where P = P, OF less.prems 3 tab]
    have "NeverRetain_chain del ci j k st = NeverRetain_chain del ci j k ?st1"
      using unf 3 by (simp add: Let_def P_def)
    then show ?thesis
      using less.hyps [OF step(4,1)] step(2,3) assms(1) by (auto simp: pruned_events_def freed_def)
  qed
qed

lemma crec_filter:
  assumes "crec_inv ci c"
  shows "crec_inv ci (c\<lparr>resources := map (filter P) (resources c)\<rparr>)"
    "crec_view (c\<lparr>resources := map (filter P) (resources c)\<rparr>) x = filter P (crec_view c x)"
proof -
  show "crec_inv ci (c\<lparr>resources := map (filter P) (resources c)\<rparr>)"
    using assms by (auto simp: crec_inv_def)
  show "crec_view (c\<lparr>resources := map (filter P) (resources c)\<rparr>) x = filter P (crec_view c x)"
    using crec_hash [OF assms, of x] by (auto simp: crec_view_def chain_def conj_commute)
qed

lemma view_upd_table:
  assumes "res_inv st" "ci < MAXCLIENTS" "crec_inv ci c" "clientTable st' = (clientTable st)[ci := c]"
  shows "res_inv st'" "view st' x = (if CLIENT_ID x = ci then crec_view c x else view st x)"
proof -
  have tab: "clientTable st' = clientTable (upd_client st ci c)" using assms(4) by (simp add: upd_client_def)
  show "res_inv st'" using same_table(1) [OF tab] res_inv_upd [OF assms(1,2,3)] by simp
  show "view st' x = (if CLIENT_ID x = ci then crec_view c x else view st x)"
    using same_table(2) [OF tab] view_upd [OF assms(1,2)] by simp
qed

text \<open>Closing a client down in a retaining mode ends and removes exactly its never-retained resources
  (passive grabs), each deleted once in table order; all others stay, as do other clients'.\<close>

lemma FreeClientNeverRetainResources_correct:
  assumes "res_inv st" "cl_index cl < MAXCLIENTS" "delete_frame del"
  defines "ci \<equiv> cl_index cl" and "P \<equiv> (\<lambda>r. res_type r AND RC_NEVERRETAIN \<noteq> 0)"
  shows "\<exists>st'. FreeClientNeverRetainResources del (Some cl) st = Some st' \<and> res_inv st' \<and>
     (\<forall>x. view st' x = (if CLIENT_ID x = ci then filter (\<lambda>r. \<not> P r) (view st x) else view st x)) \<and>
     events st' = pruned_events P (concat (resources (clientTable st ! ci))) @ events st"
proof -
  let ?c = "clientTable st ! ci"
  have ci: "ci < MAXCLIENTS" "ci < length (clientTable st)" "crec_inv ci ?c" "length (resources ?c) = buckets ?c"
    using assms by (auto simp: res_inv_def crec_inv_def)
  obtain st' where run: "NeverRetain_buckets del ci 0 st = Some st'"
    and tab: "clientTable st' = (clientTable st)[ci := ?c\<lparr>resources := map (filter (\<lambda>r. \<not> P r)) (resources ?c)\<rparr>]"
    and ev: "events st' = pruned_events P (concat (resources ?c)) @ events st"
    using bucket_loop [where B = "NeverRetain_buckets del ci" and f = "\<lambda>j. NeverRetain_chain del ci j 0" and j = 0,
        OF _ _ ci(2,4), of P] NeverRetain_chain_correct [OF assms(3), where k = 0] NeverRetain_buckets.simps [of del ci]
    by (auto simp: P_def)
  note upd = view_upd_table [OF assms(1) ci(1) crec_filter(1) [OF ci(3)] tab]
  have "view st' x = (if CLIENT_ID x = ci then filter (\<lambda>r. \<not> P r) (view st x) else view st x)" for x
    unfolding upd(2) crec_filter(2) [OF ci(3)] by (simp add: view_def)
  moreover have "FreeClientNeverRetainResources del (Some cl) st = Some st'"
    using run by (simp add: FreeClientNeverRetainResources_def ci_def)
  ultimately show ?thesis using upd(1) ev by blast
qed


end
