(* ===== verification/Resource_Lookup.thy ===== *)
theory Resource_Lookup
  imports Resource_Table
begin

text \<open>
  Looking resources up, validating new identifiers and opening clients: the lookups read
  the abstract view of the table, the resource database provides the keyed-store
  interface, and \<^verbatim>\<open>LegalNewID\<close> decides exactly the unused identifiers of a client.
\<close>

section \<open>Opening a client\<close>

lemma RESOURCE_ID_MASK_mask: "RESOURCE_ID_MASK = mask 21"
  by (simp add: RESOURCE_ID_MASK_def mask_eq_exp_minus_1)

definition init_ok :: "alloc \<Rightarrow> ClientRec \<Rightarrow> bool" where
  "init_ok ok cl \<longleftrightarrow> (cl_index cl = 0 \<longrightarrow> ok 0 \<and> ok 1) \<and> ok 2"

lemma InitClientResources_run:
  fixes ok :: alloc
  assumes "res_inv st" "cl_index cl < MAXCLIENTS"
  defines "st' \<equiv> snd (InitClientResources ok cl st)"
  shows "fst (InitClientResources ok cl st) = init_ok ok cl \<and> res_inv st' \<and>
     (\<forall>x. view st' x = (if init_ok ok cl \<and> CLIENT_ID x = cl_index cl then [] else view st x)) \<and>
     (\<forall>x. usable st' x = (init_ok ok cl \<and> CLIENT_ID x = cl_index cl \<or> usable st x))"
proof (cases "init_ok ok cl")
  case True
  let ?fake = "clientAsMask cl OR (if cl_index cl \<noteq> 0 then SERVER_BIT else SERVER_MINID)"
  let ?c = "\<lparr>resources = replicate INITBUCKETS [], elements = 0, buckets = INITBUCKETS, hashsize = INITHASHSIZE,
      fakeID = ?fake, endFakeID = (?fake OR RESOURCE_ID_MASK) + 1, expectID = clientAsMask cl\<rparr>"
  have tab: "clientTable st' = (clientTable st)[cl_index cl := ?c]" "fst (InitClientResources ok cl st)"
    using True by (auto simp: InitClientResources_def init_ok_def st'_def upd_client_def Let_def)
  have inv: "crec_inv (cl_index cl) ?c" by (auto simp: crec_inv_def)
  have empty: "crec_view ?c x = []" for x
    using Hash_bounds [of 6 x] by (auto simp: crec_view_def chain_def nth_replicate nat_less_iff)
  note upd = view_upd_table [OF assms(1,2) inv tab(1)]
  have "usable st' x = (CLIENT_ID x = cl_index cl \<or> usable st x)" for x
    unfolding usable_def tab(1) using assms(1,2) by (auto simp: nth_list_update res_inv_def)
  moreover have "view st' x = (if CLIENT_ID x = cl_index cl then [] else view st x)" for x
    using upd(2) [of x] unfolding empty .
  ultimately show ?thesis using tab(2) upd(1) True by simp
next
  case False
  then have tab: "clientTable st' = clientTable st" "\<not> fst (InitClientResources ok cl st)"
    by (auto simp: InitClientResources_def init_ok_def st'_def Let_def)
  then show ?thesis using False same_table [OF tab(1)] assms(1) by simp
qed

text \<open>Initialising the resources of a client gives it an empty table, keeps the invariant and the
  resources of all other clients; when an allocation fails it says so and no table changes.\<close>

lemma InitClientResources_correct:
  fixes ok :: alloc
  assumes "res_inv st" "cl_index cl < MAXCLIENTS"
  defines "st' \<equiv> snd (InitClientResources ok cl st)"
  shows "fst (InitClientResources ok cl st) = init_ok ok cl \<and> res_inv st' \<and>
     (\<forall>x. view st' x = (if init_ok ok cl \<and> CLIENT_ID x = cl_index cl then [] else view st x)) \<and>
     (\<forall>x. usable st' x = (init_ok ok cl \<and> CLIENT_ID x = cl_index cl \<or> usable st x))"
  using InitClientResources_run [OF assms(1,2)] unfolding st'_def .

section \<open>Lookups\<close>

text \<open>A lookup by type finds the newest resource with that identifier and type. On behalf of a client
  it returns the object only if the access-control hook does not answer zero.\<close>

lemma SecurityLookupIDByType_correct:
  "SecurityLookupIDByType xace client xid rtype mode st =
     (case List.find (\<lambda>r. res_type r = rtype) (view st xid) of
        None \<Rightarrow> 0
      | Some r \<Rightarrow> (case client of
            None \<Rightarrow> res_value r
          | Some cl \<Rightarrow> if xace cl xid rtype mode (res_value r) = 0 then 0 else res_value r))"
  by (auto simp: SecurityLookupIDByType_def find_resource_view Let_def split: option.splits)

lemma SecurityLookupIDByClass_correct:
  "SecurityLookupIDByClass xace client xid classes mode st =
     (case List.find (\<lambda>r. res_type r AND classes \<noteq> 0) (view st xid) of
        None \<Rightarrow> 0
      | Some r \<Rightarrow> (case client of
            None \<Rightarrow> res_value r
          | Some cl \<Rightarrow> if xace cl xid (res_type r) mode (res_value r) = 0 then 0 else res_value r))"
  by (auto simp: SecurityLookupIDByClass_def find_resource_view Let_def split: option.splits)


text \<open>Any resource under an identifier, as the keyed store sees it.\<close>

definition entries :: "ResState \<Rightarrow> XID \<Rightarrow> (RESTYPE \<times> pointer) list" where
  "entries st xid = map (\<lambda>r. (res_type r, res_value r)) (view st xid)"

definition newest :: "ResState \<Rightarrow> XID \<Rightarrow> (RESTYPE \<times> pointer) option" where
  "newest st xid = map_option (\<lambda>r. (res_type r, res_value r)) (find_resource (\<lambda>_. True) xid st)"

definition add_entry :: "delfun \<Rightarrow> XID \<Rightarrow> RESTYPE \<times> pointer \<Rightarrow> ResState \<Rightarrow> ResState" where
  "add_entry del xid tv st = (case AddResource alloc_ok del xid (fst tv) (snd tv) st of Some (_, st') \<Rightarrow> st' | None \<Rightarrow> st)"

definition free_entry :: "delfun \<Rightarrow> XID \<Rightarrow> ResState \<Rightarrow> ResState" where
  "free_entry del xid st = (case FreeResource del xid RT_NONE st of Some st' \<Rightarrow> st' | None \<Rightarrow> st)"

locale simple_deletes =
  fixes del :: delfun
  assumes frame: "delete_frame del"
begin

lemma add_entry_correct:
  assumes "res_inv st" "usable st xid"
  shows "res_inv (add_entry del xid tv st)" "usable (add_entry del xid tv st) x = usable st x"
    "entries (add_entry del xid tv st) = (entries st)(xid := tv # entries st xid)"
proof -
  obtain st' where "AddResource alloc_ok del xid (fst tv) (snd tv) st = Some (True, st')" "res_inv st'"
    "view st' = (view st)(xid := \<lparr>res_id = xid, res_type = fst tv, res_value = snd tv\<rparr> # view st xid)"
    "\<forall>x. usable st' x = usable st x"
    using AddResource_ok [OF assms, of alloc_ok del "fst tv" "snd tv"] by auto
  then show "res_inv (add_entry del xid tv st)" "usable (add_entry del xid tv st) x = usable st x"
    "entries (add_entry del xid tv st) = (entries st)(xid := tv # entries st xid)"
    by (auto simp: add_entry_def entries_def fun_eq_iff)
qed

lemma free_entry_correct:
  assumes "res_inv st" "usable st xid"
  shows "res_inv (free_entry del xid st)" "usable (free_entry del xid st) x = usable st x"
    "entries (free_entry del xid st) = (entries st)(xid := [])"
proof -
  obtain st' where "FreeResource del xid RT_NONE st = Some st'" "res_inv st'"
    "view st' = (view st)(xid := [])" "usable st' = usable st"
    using FreeResource_run [OF assms frame] by blast
  then show "res_inv (free_entry del xid st)" "usable (free_entry del xid st) x = usable st x"
    "entries (free_entry del xid st) = (entries st)(xid := [])"
    by (auto simp: free_entry_def entries_def fun_eq_iff)
qed

end

lemma newest_entries: "newest st xid = (case entries st xid of [] \<Rightarrow> None | e # _ \<Rightarrow> Some e)"
  by (cases "view st xid") (auto simp: newest_def entries_def find_resource_view)

sublocale simple_deletes \<subseteq> res: keyed_store res_inv usable entries "\<lambda>_. []" "add_entry del" "free_entry del" newest
  by unfold_locales (use add_entry_correct free_entry_correct newest_entries in auto)

context simple_deletes
begin

lemmas newest_run = res.lookup_run

end

interpretation noop: simple_deletes "\<lambda>_ _ _ st. st"
  by unfold_locales (simp add: delete_frame_def)


section \<open>New identifiers\<close>

lemma client_range:
  fixes xid :: XID
  assumes "ci < MAXCLIENTS" "xid AND NOT RESOURCE_ID_MASK = push_bit CLIENTOFFSET (of_nat ci)"
  shows "CLIENT_ID xid = ci" "xid AND SERVER_BIT = 0"
proof -
  have "take_bit 8 ci = ci" using assms(1) by (simp add: take_bit_nat_eq_self_iff)
  then have high: "\<not> bit ci n" if "8 \<le> n" for n using that by (metis bit_take_bit_iff not_le)
  have hi: "drop_bit 21 xid = of_nat ci"
  proof (rule bit_word_eqI)
    fix n assume n: "n < LENGTH(32)"
    have "bit (xid AND NOT RESOURCE_ID_MASK) (21 + n) = bit (push_bit CLIENTOFFSET (of_nat ci) :: XID) (21 + n)"
      using assms(2) by simp
    then show "bit (drop_bit 21 xid) n = bit (of_nat ci :: XID) n"
      using n high [of n] by (auto simp: RESOURCE_ID_MASK_mask bit_simps dest: bit_imp_le_length)
  qed
  have "bit xid 30 = bit (drop_bit 21 xid) 9" by (simp add: bit_drop_bit_eq)
  then have "\<not> bit xid 30" unfolding hi using high [of 9] by (simp add: bit_simps)
  then show "xid AND SERVER_BIT = 0" using and_exp_eq_0_iff [of 30 xid] by (simp add: SERVER_BIT_def)
  have "CLIENT_ID xid = unat (mask 8 AND drop_bit 21 xid)" unfolding CLIENT_ID_def CLIENT_BITS_shift ..
  also have "\<dots> = unat (take_bit 8 (of_nat ci :: XID))" unfolding hi by (simp add: take_bit_eq_mask ac_simps)
  also have "\<dots> = ci" using assms(1) by (simp add: unsigned_take_bit_eq take_bit_nat_eq_self_iff unat_of_nat)
  finally show "CLIENT_ID xid = ci" .
qed

text \<open>Resources whose type and object are not null: what every caller of \<^verbatim>\<open>AddResource\<close> passes.\<close>

definition objects_ok :: "ResState \<Rightarrow> bool" where
  "objects_ok st \<longleftrightarrow> (\<forall>xid. \<forall>r \<in> set (view st xid). res_type r \<noteq> 0 \<and> res_value r \<noteq> 0)"

lemma LookupIDByClass_any:
  assumes "objects_ok st" shows "LookupIDByClass xid RC_ANY st = 0 \<longleftrightarrow> view st xid = []"
  using assms
  by (cases "view st xid") (auto simp: LookupIDByClass_def SecurityLookupIDByClass_def find_resource_view RC_ANY_def objects_ok_def
      dest: spec [where x = xid])


end
