(* ===== verification/Resource_IDs.thy ===== *)
theory Resource_IDs
  imports Resource_Lookup
begin

text \<open>
  Allocation of identifiers: the search for a range of free identifiers
  (\<^verbatim>\<open>AvailableID\<close>, \<^verbatim>\<open>GetXIDRange\<close>), the identifiers the server makes up for a client
  (\<^verbatim>\<open>FakeClientID\<close>) and the list XC-MISC asks for (\<^verbatim>\<open>GetXIDList\<close>).
\<close>

section \<open>Ranges of words\<close>

lemma word_le_pred: "r \<noteq> 0 \<Longrightarrow> x \<le> r - 1 \<longleftrightarrow> x < r"
  for r :: XID
  by (simp add: word_le_nat_alt word_less_nat_alt unat_minus_one unat_gt_0 le_diff_conv2 Suc_le_eq)

lemma unat_succ: "r \<noteq> -1 \<Longrightarrow> unat (r + 1) = unat r + 1"
  for r :: XID
proof -
  assume "r \<noteq> -1"
  then have "unat r \<noteq> unat (-1 :: XID)" by (metis unsigned_word_eqI)
  moreover have "unat (-1 :: XID) = 2 ^ 32 - 1" by (simp add: unsigned_minus_1_eq_mask mask_eq_exp_minus_1)
  moreover have "unat r < 2 ^ LENGTH(32)" by (rule unsigned_less)
  ultimately show ?thesis by (simp add: unat_word_ariths)
qed

lemma word_succ_le: "r \<noteq> -1 \<Longrightarrow> r + 1 \<le> x \<longleftrightarrow> r < x"
  for r :: XID
  by (simp add: word_le_nat_alt word_less_nat_alt unat_succ Suc_le_eq)

lemma range_split:
  fixes lo hi r :: XID
  assumes "r \<noteq> 0" "r \<noteq> -1" "lo \<le> r" "r \<le> hi"
  shows "{lo..hi} = {lo..r - 1} \<union> {r} \<union> {r + 1..hi}"
  using assms by (auto simp: word_le_pred word_succ_le)

section \<open>Searching for free identifiers\<close>

definition free_in :: "ClientResourceRec \<Rightarrow> XID \<Rightarrow> bool" where
  "free_in c x \<longleftrightarrow> \<not> list_ex (\<lambda>r. res_id r = x) (chain c x)"

definition found :: "ClientResourceRec \<Rightarrow> XID set \<Rightarrow> XID \<Rightarrow> bool" where
  "found c S g \<longleftrightarrow> (if \<exists>x \<in> S. free_in c x then g \<in> S \<and> free_in c g else g = 0)"

lemma found_insert: "\<not> free_in c x \<Longrightarrow> found c S g \<Longrightarrow> found c (insert x S) g"
  by (auto simp: found_def split: if_splits)

lemma AvailableID_loop_found:
  assumes "maxid \<noteq> -1"
  shows "\<exists>g. AvailableID_loop c xid maxid = Some g \<and> found c {xid..maxid} g"
proof (induction "unat maxid + 1 - unat xid" arbitrary: xid rule: less_induct)
  case less
  note unf = AvailableID_loop.simps [of c xid maxid]
  consider "maxid < xid" | "xid \<le> maxid" "free_in c xid" | "xid \<le> maxid" "\<not> free_in c xid" by fastforce
  then show ?case
  proof cases
    case 1
    then show ?thesis using unf by (auto simp: found_def)
  next
    case 2
    then show ?thesis using unf by (force simp: found_def free_in_def)
  next
    case 3
    then have ne: "xid \<noteq> -1" using assms by (metis word_order.extremum_unique)
    then have "unat maxid + 1 - unat (xid + 1) < unat maxid + 1 - unat xid"
      using 3(1) by (simp add: unat_succ word_le_nat_alt)
    from less [OF this] obtain g where g: "AvailableID_loop c (xid + 1) maxid = Some g" and "found c {xid + 1..maxid} g"
      by blast
    moreover have "{xid..maxid} = insert xid {xid + 1..maxid}" using 3(1) word_succ_le [OF ne] by force
    ultimately have "found c {xid..maxid} g" using found_insert [OF 3(2)] by simp
    then show ?thesis using unf 3 g by (simp add: free_in_def)
  qed
qed

lemma AvailableID_found:
  assumes "maxid \<noteq> -1" "goodid \<noteq> 0 \<Longrightarrow> free_in c goodid" "xid \<noteq> 0"
  shows "\<exists>g. AvailableID c xid maxid goodid = Some g \<and> found c {xid..maxid} g"
proof (cases "xid \<le> goodid \<and> goodid \<le> maxid")
  case True
  then have "goodid \<noteq> 0" using assms(3) by auto
  then show ?thesis using True assms(2) by (auto simp: AvailableID_def found_def)
qed (use AvailableID_loop_found [OF assms(1)] in \<open>auto simp: AvailableID_def\<close>)

text \<open>
  What the loop over the resources promises of a range: the range it ends with has a free
  identifier if the given one has, and no resource of the list lies in it.
\<close>

definition shrinks :: "ClientResourceRec \<Rightarrow> Resource list \<Rightarrow> XID set \<Rightarrow> (XID \<times> XID) option \<Rightarrow> bool" where
  "shrinks c rs S result \<longleftrightarrow> (\<exists>mn mx. result = Some (mn, mx) \<and> {mn..mx} \<subseteq> S \<and>
     (\<forall>r \<in> set rs. res_id r \<notin> {mn..mx}) \<and> ((\<exists>x \<in> {mn..mx}. free_in c x) \<longleftrightarrow> (\<exists>x \<in> S. free_in c x)))"

lemma shrinks_widen:
  assumes "shrinks c rs S result" "S \<subseteq> T" "res_id r \<notin> S" "(\<exists>x \<in> S. free_in c x) \<longleftrightarrow> (\<exists>x \<in> T. free_in c x)"
  shows "shrinks c (r # rs) T result"
proof -
  obtain mn mx where "result = Some (mn, mx)" "{mn..mx} \<subseteq> S" "\<forall>r \<in> set rs. res_id r \<notin> {mn..mx}"
    "(\<exists>x \<in> {mn..mx}. free_in c x) \<longleftrightarrow> (\<exists>x \<in> S. free_in c x)"
    using assms(1) unfolding shrinks_def by blast
  moreover from this have "{mn..mx} \<subseteq> T" "res_id r \<notin> {mn..mx}" using assms(2,3) by blast+
  ultimately show ?thesis unfolding shrinks_def using assms(4) by auto
qed

lemma GetXIDRange_loop_correct:
  assumes "\<forall>r \<in> set rs. \<not> free_in c (res_id r)" "goodid \<noteq> 0 \<longrightarrow> free_in c goodid" "lo \<noteq> 0" "hi \<noteq> -1"
  shows "shrinks c rs {lo..hi} (GetXIDRange_loop c rs lo hi goodid)"
  using assms
proof (induction rs arbitrary: lo hi goodid)
  case (Cons r rs)
  let ?x = "res_id r"
  have rest: "\<forall>r \<in> set rs. \<not> free_in c (res_id r)" and used: "\<not> free_in c ?x" using Cons.prems(1) by auto
  show ?case
  proof (cases "?x < lo \<or> hi < ?x")
    case True
    then have "?x \<notin> {lo..hi}" by auto
    then show ?thesis
      using shrinks_widen [OF Cons.IH [OF rest Cons.prems(2-4)] subset_refl, of r] True by simp
  next
    case False
    then have in0: "lo \<le> ?x" "?x \<le> hi" by auto
    then have x: "?x \<noteq> 0" "?x \<noteq> -1" using Cons.prems(3,4)
      by (auto simp: word_order.extremum_unique dest: order.antisym)
    note split = range_split [OF x in0]
    have lows: "?x - 1 \<noteq> -1" "?x + 1 \<noteq> 0" using x by (auto simp: eq_neg_iff_add_eq_0)
    obtain g1 where g1: "AvailableID c lo (?x - 1) goodid = Some g1" "found c {lo..?x - 1} g1"
      using AvailableID_found [OF lows(1) _ Cons.prems(3)] Cons.prems(2) by blast
    obtain g2 where g2: "AvailableID c (?x + 1) hi goodid = Some g2" "found c {?x + 1..hi} g2"
      using AvailableID_found [OF Cons.prems(4) _ lows(2)] Cons.prems(2) by blast
    have zero: "g1 = 0 \<longleftrightarrow> \<not> (\<exists>y \<in> {lo..?x - 1}. free_in c y)" "g2 = 0 \<longleftrightarrow> \<not> (\<exists>y \<in> {?x + 1..hi}. free_in c y)"
      using g1(2) g2(2) Cons.prems(3) lows(2) by (auto simp: found_def word_order.extremum_unique split: if_splits)
    have fr: "g1 \<noteq> 0 \<longrightarrow> free_in c g1" "g2 \<noteq> 0 \<longrightarrow> free_in c g2"
      using g1(2) g2(2) by (auto simp: found_def split: if_splits)
    have out: "?x \<notin> {lo..?x - 1}" "?x \<notin> {?x + 1..hi}" using x by (auto simp: word_le_pred word_succ_le)
    have ex: "(\<exists>y \<in> {lo..hi}. free_in c y) \<longleftrightarrow> g1 \<noteq> 0 \<or> g2 \<noteq> 0" unfolding split zero using used by blast
    have sub: "{lo..?x - 1} \<subseteq> {lo..hi}" "{?x + 1..hi} \<subseteq> {lo..hi}" unfolding split by blast+
    note low = shrinks_widen [OF Cons.IH [OF rest _ Cons.prems(3) lows(1)] sub(1) out(1)]
      and high = shrinks_widen [OF Cons.IH [OF rest _ lows(2) Cons.prems(4)] sub(2) out(2)]
    have "GetXIDRange_loop c (r # rs) lo hi goodid =
        (if ?x - lo \<ge> hi - ?x
         then (if g1 \<noteq> 0 then GetXIDRange_loop c rs lo (?x - 1) g1 else GetXIDRange_loop c rs (?x + 1) hi g1)
         else (if g2 = 0 then GetXIDRange_loop c rs lo (?x - 1) g2 else GetXIDRange_loop c rs (?x + 1) hi g2))"
      using False g1(1) g2(1) by simp
    then show ?thesis
      using low [OF fr(1)] low [OF fr(2)] high [OF fr(1)] high [OF fr(2)] zero ex
      by (simp only: split: if_split) blast
  qed
qed (auto simp: shrinks_def)

section \<open>Free ranges of a client\<close>

text \<open>The identifiers from \<open>lo\<close> to the last one with the same client bits.\<close>

definition last_id :: "XID \<Rightarrow> XID" where
  "last_id lo = lo OR RESOURCE_ID_MASK"

lemma same_high_bits:
  assumes "lo \<le> x" "x \<le> last_id lo" shows "CLIENT_ID x = CLIENT_ID lo"
proof -
  have mono: "drop_bit 21 a \<le> drop_bit 21 b" if "a \<le> b" for a b :: XID
    using that unfolding word_le_nat_alt unat_drop_bit_eq by (simp add: drop_bit_eq_div div_le_mono)
  have "drop_bit 21 (last_id lo) = drop_bit 21 lo"
    by (rule bit_word_eqI) (auto simp: last_id_def RESOURCE_ID_MASK_mask bit_simps)
  then have "drop_bit 21 x = drop_bit 21 lo" using mono [OF assms(1)] mono [OF assms(2)] by simp
  then show ?thesis by (simp add: CLIENT_ID_def CLIENT_BITS_shift)
qed

lemma free_in_view:
  "usable st x \<Longrightarrow> free_in (clientTable st ! CLIENT_ID x) x \<longleftrightarrow> view st x = []"
  by (auto simp: free_in_def view_def crec_view_def usable_def list_ex_iff filter_empty_conv)

definition range_start :: "nat \<Rightarrow> bool \<Rightarrow> XID" where
  "range_start client server = push_bit CLIENTOFFSET (of_nat client) OR
     (if server then (if client \<noteq> 0 then SERVER_BIT else SERVER_MINID) else 0)"

lemma GetXIDRange_start:
  "GetXIDRange st client server =
     Option.bind (GetXIDRange_loop (clientTable st ! client) (concat (resources (clientTable st ! client)))
         (range_start client server) (last_id (range_start client server)) 0)
       (\<lambda>(mn, mx). if mn > mx then Some (0, 0) else Some (mn, mx))"
  by (cases server; cases "client = 0") (simp_all add: GetXIDRange_def range_start_def last_id_def Let_def)

lemma range_start_facts:
  assumes "client < MAXCLIENTS"
  shows "CLIENT_ID (range_start client server) = client" "last_id (range_start client server) \<noteq> -1"
    "server \<or> client \<noteq> 0 \<Longrightarrow> range_start client server \<noteq> 0"
proof -
  let ?lo = "range_start client server"
  have "take_bit 8 client = client" using assms by (simp add: take_bit_nat_eq_self_iff)
  then have high: "\<not> bit client n" if "8 \<le> n" for n using that by (metis bit_take_bit_iff not_le)
  then have low: "n < 8" if "bit client n" for n using that by (meson not_le)
  have bits: "bit ?lo n \<longleftrightarrow> 21 \<le> n \<and> n < 32 \<and> bit client (n - 21) \<or>
      server \<and> (if client \<noteq> 0 then n = 30 else n = 5)" for n
    using bit_exp_word [of 30 n, where 'a = 32] bit_exp_word [of 5 n, where 'a = 32]
    by (auto simp: range_start_def SERVER_BIT_def SERVER_MINID_def bit_simps)
  have "mask 8 AND drop_bit 21 ?lo = of_nat client"
    by (intro bit_word_eqI) (auto simp: bit_simps bits dest: low)
  then have "CLIENT_ID ?lo = unat (of_nat client :: XID)" by (simp add: CLIENT_ID_def CLIENT_BITS_shift)
  then show cl: "CLIENT_ID ?lo = client" using assms by (simp add: unat_of_nat)
  have "\<not> bit (last_id ?lo) 31" using high [of 10] by (simp add: last_id_def RESOURCE_ID_MASK_mask bit_simps bits)
  then show "last_id ?lo \<noteq> -1" by auto
  show "?lo \<noteq> 0" if "server \<or> client \<noteq> 0"
  proof
    assume z: "?lo = 0"
    then have "client = 0" using cl by (simp add: CLIENT_ID_def CLIENT_BITS_def)
    then show False using bits [of 5] that z by simp
  qed
qed

lemma GetXIDRange_run:
  assumes "res_inv st" "client < MAXCLIENTS" "buckets (clientTable st ! client) \<noteq> 0" "server \<or> client \<noteq> 0"
  defines "lo \<equiv> range_start client server"
  shows "\<exists>mn mx. GetXIDRange st client server = Some (mn, mx) \<and>
     (if \<exists>x \<in> {lo..last_id lo}. view st x = []
      then mn \<le> mx \<and> {mn..mx} \<subseteq> {lo..last_id lo} \<and> (\<forall>x \<in> {mn..mx}. view st x = [])
      else mn = 0 \<and> mx = 0)"
proof -
  let ?c = "clientTable st ! client"
  have facts: "CLIENT_ID lo = client" "last_id lo \<noteq> -1" "lo \<noteq> 0"
    using range_start_facts [OF assms(2)] assms(4) unfolding lo_def by auto
  have ci: "crec_inv client ?c" using assms(1,2) by (simp add: res_inv_def)
  have free: "free_in ?c x \<longleftrightarrow> view st x = []" if "x \<in> {lo..last_id lo}" for x
    using free_in_view [of st x] same_high_bits [of lo x] that facts(1) assms(3) by (simp add: usable_def)
  have used: "\<not> free_in ?c (res_id r)" if "r \<in> set (concat (resources ?c))" for r
  proof -
    have "r \<in> set (crec_view ?c (res_id r))"
      unfolding crec_view_concat [OF ci assms(3), symmetric] using that by simp
    then show ?thesis using assms(3) by (auto simp: free_in_def crec_view_def list_ex_iff)
  qed
  then have "shrinks ?c (concat (resources ?c)) {lo..last_id lo}
      (GetXIDRange_loop ?c (concat (resources ?c)) lo (last_id lo) 0)"
    using facts by (intro GetXIDRange_loop_correct) auto
  then obtain mn mx where run: "GetXIDRange_loop ?c (concat (resources ?c)) lo (last_id lo) 0 = Some (mn, mx)"
    and sub: "{mn..mx} \<subseteq> {lo..last_id lo}" and none: "\<forall>r \<in> set (concat (resources ?c)). res_id r \<notin> {mn..mx}"
    and ex: "(\<exists>x \<in> {mn..mx}. free_in ?c x) \<longleftrightarrow> (\<exists>x \<in> {lo..last_id lo}. free_in ?c x)"
    unfolding shrinks_def by blast
  have all: "view st x = []" if "x \<in> {mn..mx}" for x
  proof -
    have "crec_view ?c x = []"
      unfolding crec_view_concat [OF ci assms(3), symmetric] using none that by (auto simp: filter_empty_conv)
    moreover have "CLIENT_ID x = client" using same_high_bits [of lo x] sub that facts(1) by auto
    ultimately show ?thesis by (simp add: view_def)
  qed
  have res: "GetXIDRange st client server = Some (if mn > mx then (0, 0) else (mn, mx))"
    using run unfolding GetXIDRange_start lo_def by simp
  show ?thesis
  proof (cases "mn \<le> mx")
    case True
    then have "mn \<in> {mn..mx}" by simp
    then have "\<exists>x \<in> {lo..last_id lo}. view st x = []" using sub all by blast
    then show ?thesis using res True sub all by (auto simp: not_less [symmetric])
  next
    case False
    then have "\<not> (\<exists>x \<in> {lo..last_id lo}. view st x = [])" using ex free by auto
    then show ?thesis using res False by auto
  qed
qed

text \<open>C23. The search for a range of identifiers always ends. If the client (or the server on its behalf)
  has any free identifier the search gives a non-empty range of identifiers that are all free;
  otherwise it gives the pair of zeros.\<close>

lemma GetXIDRange_correct:
  assumes "res_inv st" "client < MAXCLIENTS" "buckets (clientTable st ! client) \<noteq> 0" "server \<or> client \<noteq> 0"
  defines "lo \<equiv> range_start client server"
  shows "\<exists>mn mx. GetXIDRange st client server = Some (mn, mx) \<and>
     (if \<exists>x \<in> {lo..last_id lo}. view st x = []
      then mn \<le> mx \<and> {mn..mx} \<subseteq> {lo..last_id lo} \<and> (\<forall>x \<in> {mn..mx}. view st x = [])
      else mn = 0 \<and> mx = 0)"
  using GetXIDRange_run [OF assms(1-4)] unfolding lo_def .

section \<open>Identifiers made up by the server\<close>

text \<open>The identifiers a client's fake range still holds are unused.\<close>

definition fake_ok :: "ResState \<Rightarrow> nat \<Rightarrow> bool" where
  "fake_ok st ci \<longleftrightarrow> (let c = clientTable st ! ci
     in fakeID c \<le> endFakeID c \<and> (\<forall>x. fakeID c \<le> x \<and> x < endFakeID c \<longrightarrow> view st x = []))"

lemma crec_view_fake [simp]:
  "crec_view (c\<lparr>fakeID := a\<rparr>) = crec_view c" "crec_view (c\<lparr>fakeID := a, endFakeID := b\<rparr>) = crec_view c"
  by (simp_all add: crec_view_def chain_def fun_eq_iff)

lemma crec_inv_fake [simp]:
  "crec_inv ci (c\<lparr>fakeID := a\<rparr>) = crec_inv ci c" "crec_inv ci (c\<lparr>fakeID := a, endFakeID := b\<rparr>) = crec_inv ci c"
  by (simp_all add: crec_inv_def)

lemma view_upd_fake:
  assumes "res_inv st" "ci < MAXCLIENTS" "crec_view c = crec_view (clientTable st ! ci)"
  shows "view (upd_client st ci c) = view st"
  using assms by (auto simp: view_upd fun_eq_iff) (simp add: view_def)

lemma res_inv_upd_fake:
  assumes "res_inv st" "ci < MAXCLIENTS"
  shows "res_inv (upd_client st ci ((clientTable st ! ci)\<lparr>fakeID := a\<rparr>))"
    "res_inv (upd_client st ci ((clientTable st ! ci)\<lparr>fakeID := a, endFakeID := b\<rparr>))"
  by (rule res_inv_upd [OF assms]; use assms in \<open>simp add: res_inv_def\<close>)+

definition fake_range_free :: "ResState \<Rightarrow> nat \<Rightarrow> bool" where
  "fake_range_free st client \<longleftrightarrow> (\<exists>x \<in> {range_start client True..last_id (range_start client True)}. view st x = [])"

lemma FakeClientID_next:
  assumes "res_inv st" "client < MAXCLIENTS" "fake_ok st client"
    "fakeID (clientTable st ! client) \<noteq> endFakeID (clientTable st ! client)"
  shows "\<exists>xid st'. FakeClientID st client = Some (xid, st') \<and> view st xid = [] \<and> view st' = view st \<and>
     res_inv st' \<and> fake_ok st' client \<and> xid < fakeID (clientTable st' ! client) \<and> events st' = events st"
proof -
  let ?c = "clientTable st ! client"
  let ?st1 = "upd_client st client (?c\<lparr>fakeID := fakeID ?c + 1\<rparr>)"
  have len: "client < length (clientTable st)" using assms(1,2) by (simp add: res_inv_def)
  have inv1: "res_inv ?st1" "view ?st1 = view st"
    using res_inv_upd_fake(1) [OF assms(1,2)] view_upd_fake [OF assms(1,2)] by simp_all
  have fk: "fakeID ?c \<le> endFakeID ?c" "\<And>x. fakeID ?c \<le> x \<Longrightarrow> x < endFakeID ?c \<Longrightarrow> view st x = []"
    using assms(3) by (auto simp: fake_ok_def Let_def)
  have lt: "fakeID ?c < endFakeID ?c" "fakeID ?c \<noteq> -1"
    using fk(1) assms(4) by (auto simp: word_order.extremum_unique)
  have "fake_ok ?st1 client"
    unfolding fake_ok_def inv1(2) using len fk(2) lt word_succ_le [OF lt(2)] by (auto simp: Let_def)
  moreover have "FakeClientID st client = Some (fakeID ?c, ?st1)"
    using assms(4) by (simp add: FakeClientID_def Let_def)
  moreover have "fakeID ?c < fakeID (clientTable ?st1 ! client)"
    using len word_succ_le [OF lt(2), of "fakeID ?c + 1"] by simp
  ultimately show ?thesis
    using inv1 fk(2) [OF order_refl lt(1)] by (intro exI [of _ "fakeID ?c"] exI [of _ ?st1]) (simp add: upd_client_def)
qed

lemma FakeClientID_refill:
  assumes "res_inv st" "client < MAXCLIENTS" "buckets (clientTable st ! client) \<noteq> 0"
    "fakeID (clientTable st ! client) = endFakeID (clientTable st ! client)" "fake_range_free st client"
  shows "\<exists>xid st'. FakeClientID st client = Some (xid, st') \<and> view st xid = [] \<and> view st' = view st \<and>
     res_inv st' \<and> fake_ok st' client \<and> xid < fakeID (clientTable st' ! client) \<and> events st' = events st"
proof -
  let ?c = "clientTable st ! client" and ?lo = "range_start client True"
  let ?st1 = "upd_client st client (?c\<lparr>fakeID := fakeID ?c + 1\<rparr>)"
  have len: "client < length (clientTable st)" using assms(1,2) by (simp add: res_inv_def)
  have inv1: "res_inv ?st1" "view ?st1 = view st"
    using res_inv_upd_fake(1) [OF assms(1,2)] view_upd_fake [OF assms(1,2)] by simp_all
  have b1: "buckets (clientTable ?st1 ! client) \<noteq> 0" using assms(3) len by simp
  obtain mn mx where get: "GetXIDRange ?st1 client True = Some (mn, mx)" and le: "mn \<le> mx"
    and sub: "{mn..mx} \<subseteq> {?lo..last_id ?lo}" and free: "\<And>x. x \<in> {mn..mx} \<Longrightarrow> view st x = []"
    using GetXIDRange_run [OF inv1(1) assms(2) b1, of True] assms(5) unfolding fake_range_free_def inv1(2)
    by (simp only: disjI1 if_True) blast
  have lo: "mn \<noteq> 0" "mx \<noteq> -1" "mn \<noteq> -1"
    using sub le range_start_facts [OF assms(2), of True] by (auto simp: word_order.extremum_unique)
  let ?c2 = "(clientTable ?st1 ! client)\<lparr>fakeID := mn + 1, endFakeID := mx + 1\<rparr>"
  let ?st2 = "upd_client ?st1 client ?c2"
  have inv2: "res_inv ?st2" "view ?st2 = view st"
    using res_inv_upd_fake(2) [OF inv1(1) assms(2)] view_upd_fake [OF inv1(1) assms(2)] inv1(2) by simp_all
  have at2: "clientTable ?st2 ! client = ?c2" using len by (simp add: upd_client_def)
  have "x < mx + 1 \<longleftrightarrow> x \<le> mx" for x using word_succ_le [OF lo(2), of x] by (metis not_le)
  then have "fake_ok ?st2 client"
    unfolding fake_ok_def inv2(2) at2 using le free word_succ_le [OF lo(3)] by (auto simp: Let_def)
  moreover have "FakeClientID st client = Some (mn, ?st2)"
    using assms(4) get lo(1) by (simp add: FakeClientID_def Let_def)
  moreover have "mn < fakeID (clientTable ?st2 ! client)"
    using word_succ_le [OF lo(3), of "mn + 1"] unfolding at2 by simp
  ultimately show ?thesis
    using inv2 free [of mn] le by (intro exI [of _ mn] exI [of _ ?st2]) (simp add: upd_client_def)
qed

lemma FakeClientID_exhausted:
  assumes "res_inv st" "client < MAXCLIENTS" "buckets (clientTable st ! client) \<noteq> 0"
    "fakeID (clientTable st ! client) = endFakeID (clientTable st ! client)" "\<not> fake_range_free st client"
  shows "if client = 0 then FakeClientID st client = None
     else \<exists>xid st'. FakeClientID st client = Some (xid, st') \<and> view st' = view st \<and> res_inv st' \<and>
       events st' = ClientException client # events st"
proof -
  let ?c = "clientTable st ! client"
  let ?st1 = "upd_client st client (?c\<lparr>fakeID := fakeID ?c + 1\<rparr>)"
  have len: "client < length (clientTable st)" using assms(1,2) by (simp add: res_inv_def)
  have inv1: "res_inv ?st1" "view ?st1 = view st"
    using res_inv_upd_fake(1) [OF assms(1,2)] view_upd_fake [OF assms(1,2)] by simp_all
  have b1: "buckets (clientTable ?st1 ! client) \<noteq> 0" using assms(3) len by simp
  have get: "GetXIDRange ?st1 client True = Some (0, 0)"
    using GetXIDRange_run [OF inv1(1) assms(2) b1, of True] assms(5) inv1(2) unfolding fake_range_free_def
    by auto
  let ?st2 = "log_event (ClientException client) ?st1"
  let ?id = "push_bit CLIENTOFFSET (of_nat client) OR (SERVER_BIT * 3) :: XID"
  let ?st3 = "upd_client ?st2 client ((clientTable ?st2 ! client)\<lparr>fakeID := ?id + 1,
      endFakeID := (?id OR RESOURCE_ID_MASK) + 1\<rparr>)"
  have run: "FakeClientID st client = (if client = 0 then None else Some (?id, ?st3))"
    using assms(4) get by (simp add: FakeClientID_def Let_def)
  have inv2: "res_inv ?st2" using inv1(1) by simp
  have "res_inv ?st3" using res_inv_upd_fake(2) [OF inv2 assms(2)] by simp
  moreover have "view ?st3 = view st" using view_upd_fake [OF inv2 assms(2)] inv1(2) by simp
  moreover have "events ?st3 = ClientException client # events st" by (simp add: upd_client_def log_event_def)
  ultimately show ?thesis unfolding run by (cases "client = 0") auto
qed

text \<open>C24. As long as the server has identifiers left for a client, \<^verbatim>\<open>FakeClientID\<close> returns an unused one and
  keeps the rest of its range unused; the table itself is untouched. When every identifier is
  taken it is a fatal error for the server itself, and a client gets one outside the
  range and is marked for termination.\<close>

lemma FakeClientID_correct:
  assumes "res_inv st" "client < MAXCLIENTS" "buckets (clientTable st ! client) \<noteq> 0" "fake_ok st client"
  defines "c \<equiv> clientTable st ! client"
  shows "(fakeID c \<noteq> endFakeID c \<or> fake_range_free st client \<longrightarrow>
       (\<exists>xid st'. FakeClientID st client = Some (xid, st') \<and> view st xid = [] \<and> view st' = view st \<and>
          res_inv st' \<and> fake_ok st' client \<and> xid < fakeID (clientTable st' ! client) \<and> events st' = events st)) \<and>
     (fakeID c = endFakeID c \<and> \<not> fake_range_free st client \<longrightarrow>
       (if client = 0 then FakeClientID st client = None
        else \<exists>xid st'. FakeClientID st client = Some (xid, st') \<and> view st' = view st \<and> res_inv st' \<and>
          events st' = ClientException client # events st))"
  using FakeClientID_next [OF assms(1,2,4)] FakeClientID_refill [OF assms(1-3)] FakeClientID_exhausted [OF assms(1-3)]
  unfolding c_def by blast

section \<open>Lists of free identifiers\<close>

definition ids_from :: "XID \<Rightarrow> XID \<Rightarrow> XID list" where
  "ids_from lo hi = map of_nat [unat lo ..< Suc (unat hi)]"

lemma ids_from_step:
  "lo \<le> hi \<Longrightarrow> hi \<noteq> -1 \<Longrightarrow> ids_from lo hi = lo # ids_from (lo + 1) hi"
proof -
  assume "lo \<le> hi" "hi \<noteq> -1"
  then have "lo \<noteq> -1" by (metis word_order.extremum_unique)
  with \<open>lo \<le> hi\<close> show ?thesis by (simp add: ids_from_def unat_succ word_le_nat_alt upt_conv_Cons [of "unat lo"] del: upt_Suc)
qed

lemma GetXIDList_loop_run:
  assumes "hi \<noteq> -1"
  shows "GetXIDList_loop st need lo hi = Some (take need (filter (\<lambda>x. LookupIDByClass x RC_ANY st = 0) (ids_from lo hi)))"
proof (induction "Suc (unat hi) - unat lo" arbitrary: lo need)
  case 0
  then have "\<not> lo \<le> hi" by (simp add: word_le_nat_alt)
  then show ?case using 0 by (subst GetXIDList_loop.simps) (simp add: ids_from_def)
next
  case (Suc n)
  then have le: "lo \<le> hi" by (simp add: word_le_nat_alt)
  then have "lo \<noteq> -1" using assms by (metis word_order.extremum_unique)
  then have n: "n = Suc (unat hi) - unat (lo + 1)" using Suc(2) by (simp add: unat_succ)
  show ?case
    using Suc(1) [OF n] le ids_from_step [OF le assms]
    by (subst GetXIDList_loop.simps) (cases need, auto)
qed

text \<open>The list of identifiers for XC-MISC holds the first unused identifiers of the client in increasing
  order: as many as were asked for, or all there are.\<close>

lemma GetXIDList_correct:
  assumes "objects_ok st" "cl_index cl < MAXCLIENTS" "clientAsMask cl = range_start (cl_index cl) False"
  shows "GetXIDList cl n st =
     Some (take n (filter (\<lambda>x. view st x = []) (ids_from (clientAsMask cl) (last_id (clientAsMask cl)))))"
  using GetXIDList_loop_run [of "last_id (clientAsMask cl)" st n "clientAsMask cl"]
    range_start_facts(2) [OF assms(2), of False] LookupIDByClass_any [OF assms(1)] assms(3)
  by (simp add: GetXIDList_def last_id_def)

end
