(* ===== verification/Resource_Examples.thy ===== *)
theory Resource_Examples
  imports Resource_IDs
begin

text \<open>
  Concrete resource databases: the zero-initialised table at start-up, the one after the
  server client got its table, and one holding a pixmap. On them the
  theorems on the resource database are applied.
\<close>

definition initial_state :: ResState where
  "initial_state = \<lparr>clientTable = replicate MAXCLIENTS \<lparr>resources = [], elements = 0, buckets = 0, hashsize = 0,
       fakeID = 0, endFakeID = 0, expectID = 0\<rparr>,
     lastResourceType = 0, lastResourceClass = 0, TypeMask = 0, DeleteFuncs = [], ResourceNames = [],
     clients = replicate MAXCLIENTS None, rootWindow = 1, rootWindowID = 2, events = []\<rparr>"

definition server_client :: ClientRec where
  "server_client = \<lparr>cl_index = 0, clientAsMask = 0, lastDrawableID = 0, lastDrawable = 0\<rparr>"

definition server_state :: ResState where
  "server_state = snd (InitClientResources alloc_ok server_client initial_state)"

definition keep :: delfun where
  "keep d v i st = st"

definition pixmap_state :: ResState where
  "pixmap_state = add_entry keep 33 (RT_PIXMAP, 7) server_state"

lemma keep_frame [simp]: "delete_frame keep"
  by (simp add: delete_frame_def keep_def)

lemma initial_state_inv: "res_inv initial_state" "view initial_state x = []" "\<not> usable initial_state x"
  by (simp_all add: initial_state_def res_inv_def crec_inv_def view_def crec_view_def usable_def)

lemma server_state_inv [simp]:
  "res_inv server_state" "view server_state x = []" "usable server_state x \<longleftrightarrow> CLIENT_ID x = 0"
  using InitClientResources_run [OF initial_state_inv(1), of server_client alloc_ok] initial_state_inv
  by (simp_all add: server_state_def server_client_def init_ok_def)

lemma example_ids [simp]: "CLIENT_ID 33 = 0" "CLIENT_ID 34 = 0" "CLIENT_ID 0 = 0"
  by (simp_all add: CLIENT_ID_def CLIENT_BITS_def RESOURCE_CLIENT_MASK_def)

lemma pixmap_state_inv [simp]:
  "res_inv pixmap_state" "usable pixmap_state x \<longleftrightarrow> CLIENT_ID x = 0"
  "view pixmap_state = (\<lambda>_. [])(33 := [\<lparr>res_id = 33, res_type = RT_PIXMAP, res_value = 7\<rparr>])"
proof -
  obtain st' where run: "AddResource alloc_ok keep 33 RT_PIXMAP 7 server_state = Some (True, st')" and "res_inv st'"
    and vw: "view st' = (view server_state)(33 := \<lparr>res_id = 33, res_type = RT_PIXMAP, res_value = 7\<rparr> # view server_state 33)"
    and "\<forall>x. usable st' x = usable server_state x"
    using AddResource_ok [of server_state 33 alloc_ok keep RT_PIXMAP 7] by auto
  moreover have "pixmap_state = st'" using run by (simp add: pixmap_state_def add_entry_def)
  moreover have "view server_state = (\<lambda>_. [])" by (simp add: fun_eq_iff)
  ultimately show "res_inv pixmap_state" "usable pixmap_state x \<longleftrightarrow> CLIENT_ID x = 0"
    "view pixmap_state = (\<lambda>_. [])(33 := [\<lparr>res_id = 33, res_type = RT_PIXMAP, res_value = 7\<rparr>])"
    by simp_all
qed

section \<open>The theorems at concrete databases\<close>

lemma AddResource_correct_witness:
  "(\<exists>st'. AddResource alloc_ok keep 33 RT_GC 9 pixmap_state = Some (True, st') \<and>
      map res_value (view st' 33) = [9, 7]) \<and>
   (\<exists>st'. AddResource (\<lambda>n. n \<noteq> 2) keep 33 RT_GC 9 pixmap_state = Some (False, st') \<and> view st' = view pixmap_state)"
  using AddResource_correct [of pixmap_state keep alloc_ok 33 RT_GC 9]
    AddResource_correct [of pixmap_state keep "\<lambda>n. n \<noteq> 2" 33 RT_GC 9] by auto


lemma FreeResourceByType_correct_witness:
  "view (FreeResourceByType keep 33 RT_PIXMAP False pixmap_state) 33 = []"
  using FreeResourceByType_correct [of pixmap_state 33 keep RT_PIXMAP False] by simp

lemma ChangeResourceValue_correct_witness:
  "fst (ChangeResourceValue 33 RT_PIXMAP 8 pixmap_state) \<and>
   map res_value (view (snd (ChangeResourceValue 33 RT_PIXMAP 8 pixmap_state)) 33) = [8]"
  using ChangeResourceValue_correct [of pixmap_state 33 RT_PIXMAP 8] by simp

lemma FreeClientNeverRetainResources_correct_witness:
  "\<exists>st'. FreeClientNeverRetainResources keep (Some server_client) pixmap_state = Some st' \<and> view st' 33 = view pixmap_state 33"
  using FreeClientNeverRetainResources_correct [of pixmap_state server_client keep]
  by (auto simp: server_client_def RT_PIXMAP_def RC_NEVERRETAIN_def RC_CACHED_def RC_DRAWABLE_def)


lemma InitClientResources_correct_witness:
  "usable (snd (InitClientResources alloc_ok server_client initial_state)) 33 \<and>
   \<not> fst (InitClientResources (\<lambda>n. n \<noteq> 1) server_client initial_state)"
  using InitClientResources_correct [OF initial_state_inv(1), of server_client alloc_ok]
    InitClientResources_correct [OF initial_state_inv(1), of server_client "\<lambda>n. n \<noteq> 1"]
  by (simp add: server_client_def init_ok_def)




lemma server_table: "buckets (clientTable server_state ! 0) \<noteq> 0" "buckets (clientTable pixmap_state ! 0) \<noteq> 0"
  using server_state_inv(3) [of 0] pixmap_state_inv(2) [of 0] by (simp_all add: usable_def)

lemma server_range: "range_start 0 True = 32" "last_id 32 = 0x1FFFFF"
  by (simp_all add: range_start_def SERVER_MINID_def last_id_def RESOURCE_ID_MASK_def)

lemma GetXIDRange_correct_witness:
  "\<exists>mn mx. GetXIDRange pixmap_state 0 True = Some (mn, mx) \<and> mn \<le> mx \<and> 33 \<notin> {mn..mx} \<and> {mn..mx} \<subseteq> {32..0x1FFFFF}"
proof -
  have "\<exists>x \<in> {32..0x1FFFFF}. view pixmap_state x = []" by (rule bexI [of _ 34]) simp_all
  then obtain mn mx where "GetXIDRange pixmap_state 0 True = Some (mn, mx)" "mn \<le> mx" "{mn..mx} \<subseteq> {32..0x1FFFFF}"
    "\<forall>x \<in> {mn..mx}. view pixmap_state x = []"
    using GetXIDRange_correct [of pixmap_state 0 True] server_table(2) unfolding server_range by (auto simp del: atLeastAtMost_iff)
  then show ?thesis by fastforce
qed

lemma FakeClientID_correct_witness:
  "\<exists>xid st'. FakeClientID server_state 0 = Some (xid, st') \<and> view server_state xid = [] \<and> fake_ok st' 0"
proof -
  have "fake_ok server_state 0"
    by (simp add: fake_ok_def Let_def)
      (simp add: server_state_def InitClientResources_def initial_state_def server_client_def upd_client_def
        SERVER_MINID_def RESOURCE_ID_MASK_def)
  moreover have "fake_range_free server_state 0"
    unfolding fake_range_free_def server_range by (rule bexI [of _ 34]) simp_all
  ultimately show ?thesis using FakeClientID_correct [of server_state 0] server_table(1) by auto
qed

lemma GetXIDList_correct_witness:
  "GetXIDList server_client 1 pixmap_state = Some [0]"
proof -
  have "objects_ok pixmap_state"
    by (simp add: objects_ok_def RT_PIXMAP_def RC_CACHED_def RC_DRAWABLE_def)
  then have "GetXIDList server_client 1 pixmap_state =
      Some (take 1 (filter (\<lambda>x. view pixmap_state x = []) (ids_from 0 0x1FFFFF)))"
    using GetXIDList_correct [of pixmap_state server_client 1]
    by (simp add: server_client_def range_start_def last_id_def RESOURCE_ID_MASK_def)
  then show ?thesis by (simp add: ids_from_step [of 0 "0x1FFFFF"])
qed

end
