(* ===== verification/Region.thy ===== *)
theory Region
  imports Ssx_Prelude
begin

text \<open>
  The region arithmetic the server keeps for itself (\<^verbatim>\<open>dix/region.c\<close>, \<^verbatim>\<open>include/regionstr.h\<close>): building
  a region from rectangles. A region is a y-x banded array of boxes with a bounding box.

  \<^item> Coordinates are integers: every coordinate the code stores is copied from a box, is the
    minimum or maximum of two of them, or is clipped to \<^verbatim>\<open>MAXSHORT\<close>, so that the 16-bit
    fields never wrap.
  \<^item> The array of a region is a list and \<^verbatim>\<open>numRects\<close> its length; the size it was
    allocated with is kept because it decides when the code allocates.
  \<^item> The n-th allocation of a call succeeds if the oracle says so. A request that
    \<^verbatim>\<open>RegionSizeof\<close> rejects (more than about 2^28 boxes) is one that fails.
    The counter of allocations is passed along.
  \<^item> Union, intersection and subtraction of whole regions are calls to the pixman
    library and not part of this code; \<^verbatim>\<open>RegionOp\<close> is used for \<^verbatim>\<open>RegionUnionO\<close>.
\<close>

section \<open>Boxes and regions\<close>

record Box =
  x1 :: int
  y1 :: int
  x2 :: int
  y2 :: int

abbreviation mkBox :: "int \<Rightarrow> int \<Rightarrow> int \<Rightarrow> int \<Rightarrow> Box" where
  "mkBox a b c d \<equiv> \<lparr>x1 = a, y1 = b, x2 = c, y2 = d\<rparr>"

text \<open>No data (a single box, in the extents), the static empty and broken data, allocated data.\<close>

datatype RegData = NullData | RegionEmptyData | RegionBrokenData | RegionData nat "Box list"

record Region =
  extents :: Box
  rdata :: RegData

definition RegionEmptyBox :: Box where
  "RegionEmptyBox = mkBox 0 0 0 0"

definition EXTENTCHECK :: "Box \<Rightarrow> Box \<Rightarrow> bool" where
  "EXTENTCHECK r s \<longleftrightarrow> \<not> (x2 r \<le> x1 s \<or> x1 r \<ge> x2 s \<or> y2 r \<le> y1 s \<or> y1 r \<ge> y2 s)"

definition INBOX :: "Box \<Rightarrow> int \<Rightarrow> int \<Rightarrow> bool" where
  "INBOX r x y \<longleftrightarrow> x2 r > x \<and> x1 r \<le> x \<and> y2 r > y \<and> y1 r \<le> y"

definition SUBSUMES :: "Box \<Rightarrow> Box \<Rightarrow> bool" where
  "SUBSUMES r s \<longleftrightarrow> x1 r \<le> x1 s \<and> x2 r \<ge> x2 s \<and> y1 r \<le> y1 s \<and> y2 r \<ge> y2 s"

definition RegionNar :: "Region \<Rightarrow> bool" where
  "RegionNar reg \<longleftrightarrow> rdata reg = RegionBrokenData"

definition RegionRects :: "Region \<Rightarrow> Box list" where
  "RegionRects reg = (case rdata reg of
     NullData \<Rightarrow> [extents reg] | RegionEmptyData \<Rightarrow> [] | RegionBrokenData \<Rightarrow> [] | RegionData n rs \<Rightarrow> rs)"

definition RegionNumRects :: "Region \<Rightarrow> nat" where
  "RegionNumRects reg = (case rdata reg of
     NullData \<Rightarrow> 1 | RegionEmptyData \<Rightarrow> 0 | RegionBrokenData \<Rightarrow> 0 | RegionData n rs \<Rightarrow> length rs)"

definition RegionSize :: "Region \<Rightarrow> nat" where
  "RegionSize reg = (case rdata reg of RegionData n rs \<Rightarrow> n | _ \<Rightarrow> 0)"

definition RegionNil :: "Region \<Rightarrow> bool" where
  "RegionNil reg \<longleftrightarrow> rdata reg \<noteq> NullData \<and> RegionNumRects reg = 0"

definition set_rects :: "Region \<Rightarrow> Box list \<Rightarrow> Region" where
  "set_rects reg rs = (case rdata reg of RegionData n _ \<Rightarrow> reg\<lparr>rdata := RegionData n rs\<rparr> | _ \<Rightarrow> reg)"

definition RegionInit :: "alloc \<Rightarrow> nat \<Rightarrow> Box option \<Rightarrow> nat \<Rightarrow> nat \<times> Region" where
  "RegionInit ok k rect size' =
     (case rect of
        Some b \<Rightarrow> (k, \<lparr>extents = b, rdata = NullData\<rparr>)
      | None \<Rightarrow>
          if size' > 1 then
            (Suc k, \<lparr>extents = RegionEmptyBox, rdata = (if ok k then RegionData size' [] else RegionEmptyData)\<rparr>)
          else (k, \<lparr>extents = RegionEmptyBox, rdata = RegionEmptyData\<rparr>))"

definition RegionCreate :: "alloc \<Rightarrow> nat \<Rightarrow> Box option \<Rightarrow> nat \<Rightarrow> nat \<times> Region" where
  "RegionCreate ok k rect size' =
     (if ok k then RegionInit ok (Suc k) rect size'
      else (Suc k, \<lparr>extents = RegionEmptyBox, rdata = RegionBrokenData\<rparr>))"

definition RegionReset :: "Region \<Rightarrow> Box \<Rightarrow> Region" where
  "RegionReset reg b = \<lparr>extents = b, rdata = NullData\<rparr>"

definition RegionEmpty :: "Region \<Rightarrow> Region" where
  "RegionEmpty reg = \<lparr>extents = (extents reg)\<lparr>x2 := x1 (extents reg), y2 := y1 (extents reg)\<rparr>, rdata = RegionEmptyData\<rparr>"

definition RegionNull :: "Region \<Rightarrow> Region" where
  "RegionNull reg = \<lparr>extents = RegionEmptyBox, rdata = RegionEmptyData\<rparr>"

definition RegionBreak :: "Region \<Rightarrow> Region" where
  "RegionBreak reg = \<lparr>extents = RegionEmptyBox, rdata = RegionBrokenData\<rparr>"

text \<open>The debug build's check: the loop over neighbouring boxes, with the box of all seen so far.\<close>

fun RegionIsValid_loop :: "Box \<Rightarrow> Box list \<Rightarrow> Box \<Rightarrow> Box option" where
  "RegionIsValid_loop p [] box = Some box"
| "RegionIsValid_loop p (n # rs) box =
     (if x1 n \<ge> x2 n \<or> y1 n \<ge> y2 n then None
      else if y1 n < y1 p \<or> (y1 n = y1 p \<and> (x1 n < x2 p \<or> y2 n \<noteq> y2 p)) then None
      else RegionIsValid_loop n rs (box\<lparr>x1 := min (x1 box) (x1 n), x2 := max (x2 box) (x2 n)\<rparr>))"

definition RegionIsValid :: "Region \<Rightarrow> bool" where
  "RegionIsValid reg =
     (let e = extents reg; rs = RegionRects reg
      in if x1 e > x2 e \<or> y1 e > y2 e then False
         else if RegionNumRects reg = 0 then
           x1 e = x2 e \<and> y1 e = y2 e \<and> (RegionSize reg \<noteq> 0 \<or> rdata reg = RegionEmptyData)
         else if RegionNumRects reg = 1 then rdata reg = NullData
         else RegionIsValid_loop (hd rs) (tl rs) ((hd rs)\<lparr>y2 := y2 (last rs)\<rparr>) = Some e)"

section \<open>Growing the array\<close>

definition RegionRectAlloc :: "alloc \<Rightarrow> nat \<Rightarrow> Region \<Rightarrow> nat \<Rightarrow> bool \<times> nat \<times> Region" where
  "RegionRectAlloc ok k reg n =
     (if \<not> ok k then (False, Suc k, RegionBreak reg)
      else (True, Suc k, reg\<lparr>rdata :=
        (case rdata reg of
           NullData \<Rightarrow> RegionData (n + 1) [extents reg]
         | RegionData sz rs \<Rightarrow>
             if sz = 0 then RegionData n []
             else RegionData ((if n = 1 then (if length rs > 500 then 250 else length rs) else n) + length rs) rs
         | _ \<Rightarrow> RegionData n [])\<rparr>))"

definition RECTALLOC :: "alloc \<Rightarrow> nat \<Rightarrow> Region \<Rightarrow> nat \<Rightarrow> bool \<times> nat \<times> Region" where
  "RECTALLOC ok k reg n =
     (if rdata reg = NullData \<or> RegionNumRects reg + n > RegionSize reg then RegionRectAlloc ok k reg n
      else (True, k, reg))"

definition NEWRECT :: "alloc \<Rightarrow> nat \<Rightarrow> Region \<Rightarrow> Box \<Rightarrow> bool \<times> nat \<times> Region" where
  "NEWRECT ok k reg b =
     (case (if rdata reg = NullData \<or> RegionNumRects reg = RegionSize reg then RegionRectAlloc ok k reg 1
            else (True, k, reg)) of
        (False, k', reg') \<Rightarrow> (False, k', reg')
      | (True, k', reg') \<Rightarrow> (True, k', set_rects reg' (RegionRects reg' @ [b])))"

definition DOWNSIZE :: "alloc \<Rightarrow> nat \<Rightarrow> Region \<Rightarrow> nat \<times> Region" where
  "DOWNSIZE ok k reg =
     (case rdata reg of
        RegionData sz rs \<Rightarrow>
          if length rs < sz div 2 \<and> sz > 50
          then (Suc k, if ok k then reg\<lparr>rdata := RegionData (length rs) rs\<rparr> else reg)
          else (k, reg)
      | _ \<Rightarrow> (k, reg))"

section \<open>The generic region operator\<close>

text \<open>Indices of the array are integers; the current band reaches to the end of the array.\<close>

definition RegionCoalesce :: "Region \<Rightarrow> nat \<Rightarrow> nat \<Rightarrow> nat \<times> Region" where
  "RegionCoalesce reg prevStart curStart =
     (let rs = RegionRects reg;
          numRects = curStart - prevStart;
          prev = take numRects (drop prevStart rs);
          cur = take numRects (drop curStart rs)
      in if numRects = 0 then (curStart, reg)
         else if y2 (hd prev) \<noteq> y1 (hd cur) then (curStart, reg)
         else if \<not> list_all2 (\<lambda>p c. x1 p = x1 c \<and> x2 p = x2 c) prev cur then (curStart, reg)
         else (prevStart, set_rects reg (take (length rs - numRects)
                (take prevStart rs @ map (\<lambda>p. p\<lparr>y2 := y2 (hd cur)\<rparr>) prev @ drop curStart rs))))"

definition Coalesce :: "Region \<Rightarrow> nat \<Rightarrow> nat \<Rightarrow> nat \<times> Region" where
  "Coalesce reg prevBand curBand =
     (if int curBand - int prevBand = int (RegionNumRects reg) - int curBand
      then RegionCoalesce reg prevBand curBand else (curBand, reg))"

definition RegionAppendNonO ::
    "alloc \<Rightarrow> nat \<Rightarrow> Region \<Rightarrow> Box list \<Rightarrow> int \<Rightarrow> int \<Rightarrow> bool \<times> nat \<times> Region" where
  "RegionAppendNonO ok k reg r yt yb =
     (case RECTALLOC ok k reg (length r) of
        (False, k', reg') \<Rightarrow> (False, k', reg')
      | (True, k', reg') \<Rightarrow>
          (True, k', set_rects reg' (RegionRects reg' @ map (\<lambda>b. mkBox (x1 b) yt (x2 b) yb) r)))"

text \<open>The boxes of the first band, and what follows it.\<close>

definition FindBand :: "Box list \<Rightarrow> Box list \<times> Box list" where
  "FindBand r = (takeWhile (\<lambda>b. y1 b = y1 (hd r)) r, dropWhile (\<lambda>b. y1 b = y1 (hd r)) r)"

definition AppendRegions :: "alloc \<Rightarrow> nat \<Rightarrow> Region \<Rightarrow> Box list \<Rightarrow> bool \<times> nat \<times> Region" where
  "AppendRegions ok k reg r =
     (if r = [] then (True, k, reg)
      else case RECTALLOC ok k reg (length r) of
             (False, k', reg') \<Rightarrow> (False, k', reg')
           | (True, k', reg') \<Rightarrow> (True, k', set_rects reg' (RegionRects reg' @ r)))"

text \<open>
  An overlap function gets the two bands and the top and bottom of the overlap; it
  gives its success, the region and the overlap flag.
\<close>

type_synonym OverlapProc =
  "alloc \<Rightarrow> nat \<Rightarrow> Region \<Rightarrow> Box list \<Rightarrow> Box list \<Rightarrow> int \<Rightarrow> int \<Rightarrow> bool \<Rightarrow> bool \<times> nat \<times> Region \<times> bool"

text \<open>Appending a band of one region and coalescing; the result of the append is not looked at.\<close>

definition append_band ::
    "alloc \<Rightarrow> nat \<Rightarrow> Region \<Rightarrow> nat \<Rightarrow> Box list \<Rightarrow> int \<Rightarrow> int \<Rightarrow> nat \<times> Region \<times> nat" where
  "append_band ok k reg prevBand band yt yb =
     (let curBand = RegionNumRects reg;
          (_, k', reg') = RegionAppendNonO ok k reg band yt yb;
          (prevBand', reg'') = Coalesce reg' prevBand curBand
      in (k', reg'', prevBand'))"

definition overlap_band ::
    "OverlapProc \<Rightarrow> alloc \<Rightarrow> nat \<Rightarrow> Region \<Rightarrow> nat \<Rightarrow> Box list \<Rightarrow> Box list \<Rightarrow> int \<Rightarrow> int \<Rightarrow> bool
      \<Rightarrow> nat \<times> Region \<times> nat \<times> bool" where
  "overlap_band overlapFunc ok k reg prevBand band1 band2 ytop ybot ov =
     (let curBand = RegionNumRects reg;
          (_, k', reg', ov') = overlapFunc ok k reg band1 band2 ytop ybot ov;
          (prevBand', reg'') = Coalesce reg' prevBand curBand
      in (k', reg'', prevBand', ov'))"

text \<open>The part of the loop body for rows where only one region has boxes.\<close>

definition nonoverlap_step ::
    "bool \<Rightarrow> bool \<Rightarrow> alloc \<Rightarrow> nat \<Rightarrow> Region \<Rightarrow> nat \<Rightarrow> int \<Rightarrow> Box list \<Rightarrow> Box list \<Rightarrow> nat \<times> Region \<times> nat \<times> int" where
  "nonoverlap_step appendNon1 appendNon2 ok k reg prevBand ybot r1 r2 =
     (let r1y1 = y1 (hd r1); r2y1 = y1 (hd r2)
      in if r1y1 < r2y1 then
           let yt = max r1y1 ybot; yb = min (y2 (hd r1)) r2y1
           in if appendNon1 \<and> yt \<noteq> yb
              then case append_band ok k reg prevBand (fst (FindBand r1)) yt yb of
                     (k', reg', prevBand') \<Rightarrow> (k', reg', prevBand', r2y1)
              else (k, reg, prevBand, r2y1)
         else if r2y1 < r1y1 then
           let yt = max r2y1 ybot; yb = min (y2 (hd r2)) r1y1
           in if appendNon2 \<and> yt \<noteq> yb
              then case append_band ok k reg prevBand (fst (FindBand r2)) yt yb of
                     (k', reg', prevBand') \<Rightarrow> (k', reg', prevBand', r1y1)
              else (k, reg, prevBand, r1y1)
         else (k, reg, prevBand, r1y1))"

text \<open>The body of the loop: the new allocation counter, region, band start, bottom and flag.\<close>

definition RegionOp_body ::
    "OverlapProc \<Rightarrow> bool \<Rightarrow> bool \<Rightarrow> alloc \<Rightarrow> nat \<Rightarrow> Region \<Rightarrow> nat \<Rightarrow> int \<Rightarrow> bool \<Rightarrow> Box list \<Rightarrow> Box list
      \<Rightarrow> nat \<times> Region \<times> nat \<times> int \<times> bool" where
  "RegionOp_body overlapFunc appendNon1 appendNon2 ok k reg prevBand ybot ov r1 r2 =
     (case nonoverlap_step appendNon1 appendNon2 ok k reg prevBand ybot r1 r2 of
        (k1, reg1, prevBand1, ytop) \<Rightarrow>
          let ybot' = min (y2 (hd r1)) (y2 (hd r2))
          in if ybot' > ytop
             then case overlap_band overlapFunc ok k1 reg1 prevBand1 (fst (FindBand r1)) (fst (FindBand r2)) ytop ybot' ov of
                    (k2, reg2, prevBand2, ov2) \<Rightarrow> (k2, reg2, prevBand2, ybot', ov2)
             else (k1, reg1, prevBand1, ybot', ov))"

function RegionOp_loop ::
    "OverlapProc \<Rightarrow> bool \<Rightarrow> bool \<Rightarrow> alloc \<Rightarrow> nat \<Rightarrow> Region \<Rightarrow> nat \<Rightarrow> int \<Rightarrow> bool \<Rightarrow> Box list \<Rightarrow> Box list
      \<Rightarrow> nat \<times> Region \<times> nat \<times> int \<times> bool \<times> Box list \<times> Box list" where
  "RegionOp_loop overlapFunc appendNon1 appendNon2 ok k reg prevBand ybot ov r1 r2 =
     (if r1 = [] \<or> r2 = [] then (k, reg, prevBand, ybot, ov, r1, r2)
      else
        let b = RegionOp_body overlapFunc appendNon1 appendNon2 ok k reg prevBand ybot ov r1 r2;
            ybot' = min (y2 (hd r1)) (y2 (hd r2))
        in RegionOp_loop overlapFunc appendNon1 appendNon2 ok (fst b) (fst (snd b)) (fst (snd (snd b))) ybot'
             (snd (snd (snd (snd b))))
             (if y2 (hd r1) = ybot' then snd (FindBand r1) else r1)
             (if y2 (hd r2) = ybot' then snd (FindBand r2) else r2))"
  by pat_completeness auto

lemma FindBand_shorter: "r \<noteq> [] \<Longrightarrow> length (snd (FindBand r)) < length r"
  by (cases r) (auto simp: FindBand_def length_dropWhile_le le_imp_less_Suc)

termination RegionOp_loop
proof (relation "measure (\<lambda>(_, _, _, _, _, _, _, _, _, r1, r2). length r1 + length r2)", goal_cases)
  case (2 _ _ _ _ _ _ _ _ _ r1 r2)
  then show ?case using FindBand_shorter [of r1] FindBand_shorter [of r2] by (auto simp: min_def)
qed simp

declare RegionOp_loop.simps [simp del]

text \<open>What is left of one region after the loop.\<close>

definition RegionOp_rest ::
    "alloc \<Rightarrow> nat \<Rightarrow> Region \<Rightarrow> nat \<Rightarrow> int \<Rightarrow> Box list \<Rightarrow> bool \<times> nat \<times> Region" where
  "RegionOp_rest ok k reg prevBand ybot r =
     (case append_band ok k reg prevBand (fst (FindBand r)) (max (y1 (hd r)) ybot) (y2 (hd r)) of
        (k', reg', _) \<Rightarrow> AppendRegions ok k' reg' (snd (FindBand r)))"

definition RegionOp_finish :: "alloc \<Rightarrow> nat \<Rightarrow> Region \<Rightarrow> nat \<times> Region" where
  "RegionOp_finish ok k reg =
     (let rs = RegionRects reg
      in if length rs = 0 then (k, reg\<lparr>rdata := RegionEmptyData\<rparr>)
         else if length rs = 1 then (k, \<lparr>extents = hd rs, rdata = NullData\<rparr>)
         else DOWNSIZE ok k reg)"

text \<open>
  \<open>same1\<close> and \<open>same2\<close> say whether the destination is the first or the second source; its
  array is then set aside, if it has more than one box, before a new one is allocated.
\<close>

definition RegionOp_start :: "alloc \<Rightarrow> nat \<Rightarrow> bool \<Rightarrow> bool \<Rightarrow> Region \<Rightarrow> nat \<Rightarrow> nat \<Rightarrow> bool \<times> nat \<times> Region" where
  "RegionOp_start ok k same1 same2 newReg n1 n2 =
     (let new1 = (if same1 \<and> n1 > 1 \<or> same2 \<and> n2 > 1 then newReg\<lparr>rdata := RegionEmptyData\<rparr> else newReg);
          newSize = 2 * max n1 n2;
          new2 = (case rdata new1 of
                    NullData \<Rightarrow> new1\<lparr>rdata := RegionEmptyData\<rparr>
                  | RegionData sz rs \<Rightarrow> if sz > 0 then new1\<lparr>rdata := RegionData sz []\<rparr> else new1
                  | _ \<Rightarrow> new1)
      in if newSize > RegionSize new2 then RegionRectAlloc ok k new2 newSize else (True, k, new2))"

definition RegionOp ::
    "alloc \<Rightarrow> nat \<Rightarrow> bool \<Rightarrow> bool \<Rightarrow> Region \<Rightarrow> Region \<Rightarrow> Region \<Rightarrow> OverlapProc \<Rightarrow> bool \<Rightarrow> bool \<Rightarrow> bool
      \<Rightarrow> bool \<times> nat \<times> Region \<times> bool" where
  "RegionOp ok k same1 same2 newReg reg1 reg2 overlapFunc appendNon1 appendNon2 ov =
     (if RegionNar reg1 \<or> RegionNar reg2 then (False, k, RegionBreak newReg, ov)
      else
        let r1 = RegionRects reg1; r2 = RegionRects reg2
        in case RegionOp_start ok k same1 same2 newReg (length r1) (length r2) of
             (False, k0, new0) \<Rightarrow> (False, k0, new0, ov)
           | (True, k0, new0) \<Rightarrow>
               (case RegionOp_loop overlapFunc appendNon1 appendNon2 ok k0 new0 0 (min (y1 (hd r1)) (y1 (hd r2))) ov r1 r2 of
                  (k1, new1, prevBand, ybot, ov1, s1, s2) \<Rightarrow>
                    (case (if s1 \<noteq> [] \<and> appendNon1 then RegionOp_rest ok k1 new1 prevBand ybot s1
                           else if s2 \<noteq> [] \<and> appendNon2 then RegionOp_rest ok k1 new1 prevBand ybot s2
                           else (True, k1, new1)) of
                       (False, k2, new2) \<Rightarrow> (False, k2, new2, ov1)
                     | (True, k2, new2) \<Rightarrow>
                         (case RegionOp_finish ok k2 new2 of (k3, new3) \<Rightarrow> (True, k3, new3, ov1)))))"

definition RegionSetExtents :: "Region \<Rightarrow> Region" where
  "RegionSetExtents reg =
     (case rdata reg of
        NullData \<Rightarrow> reg
      | RegionData sz rs \<Rightarrow>
          if sz = 0 then reg\<lparr>extents := (extents reg)\<lparr>x2 := x1 (extents reg), y2 := y1 (extents reg)\<rparr>\<rparr>
          else reg\<lparr>extents := foldl (\<lambda>e b. e\<lparr>x1 := min (x1 b) (x1 e), x2 := max (x2 b) (x2 e)\<rparr>)
                 (mkBox (x1 (hd rs)) (y1 (hd rs)) (x2 (last rs)) (y2 (last rs))) rs\<rparr>
      | _ \<Rightarrow> reg\<lparr>extents := (extents reg)\<lparr>x2 := x1 (extents reg), y2 := y1 (extents reg)\<rparr>\<rparr>)"

section \<open>Union of overlapping bands\<close>

text \<open>
  The current union reaches from \<open>lx\<close> to \<open>rx\<close>. The left-most of the next boxes is merged into
  it, or the union is added to the region and a new one started; when no box is left
  the last union is added.
\<close>

fun union_next :: "Box list \<Rightarrow> Box list \<Rightarrow> (Box \<times> Box list \<times> Box list) option" where
  "union_next [] [] = None"
| "union_next (a # r1) [] = Some (a, r1, [])"
| "union_next [] (b # r2) = Some (b, [], r2)"
| "union_next (a # r1) (b # r2) = (if x1 a < x1 b then Some (a, r1, b # r2) else Some (b, a # r1, r2))"

lemma union_next_shorter: "union_next r1 r2 = Some (r, s1, s2) \<Longrightarrow> length s1 + length s2 < length r1 + length r2"
  by (induction r1 r2 rule: union_next.induct) (auto split: if_splits)

function MERGERECTS ::
    "alloc \<Rightarrow> nat \<Rightarrow> Region \<Rightarrow> int \<Rightarrow> int \<Rightarrow> int \<Rightarrow> int \<Rightarrow> bool \<Rightarrow> Box list \<Rightarrow> Box list \<Rightarrow> bool \<times> nat \<times> Region \<times> bool" where
  "MERGERECTS ok k reg yt yb lx rx ov r1 r2 =
     (case union_next r1 r2 of
        None \<Rightarrow> (case NEWRECT ok k reg (mkBox lx yt rx yb) of (s, k', reg') \<Rightarrow> (s, k', reg', ov))
      | Some (r, s1, s2) \<Rightarrow>
          if x1 r \<le> rx then
            MERGERECTS ok k reg yt yb lx (if rx < x2 r then x2 r else rx) (ov \<or> x1 r < rx) s1 s2
          else
            (case NEWRECT ok k reg (mkBox lx yt rx yb) of
               (False, k', reg') \<Rightarrow> (False, k', reg', ov)
             | (True, k', reg') \<Rightarrow> MERGERECTS ok k' reg' yt yb (x1 r) (x2 r) ov s1 s2))"
  by pat_completeness auto

termination MERGERECTS
  by (relation "measure (\<lambda>(_, _, _, _, _, _, _, _, r1, r2). length r1 + length r2)")
    (auto dest: union_next_shorter)

declare MERGERECTS.simps [simp del]

definition RegionUnionO :: OverlapProc where
  "RegionUnionO ok k reg r1 r2 yt yb ov =
     (case union_next r1 r2 of
        None \<Rightarrow> (True, k, reg, ov)
      | Some (r, s1, s2) \<Rightarrow> MERGERECTS ok k reg yt yb (x1 r) (x2 r) ov s1 s2)"

section \<open>Appending without banding\<close>

definition follows :: "Box \<Rightarrow> Box \<Rightarrow> bool" where
  "follows first last' \<longleftrightarrow> y1 first > y2 last' \<or>
     (y1 first = y1 last' \<and> y2 first = y2 last' \<and> x1 first > x2 last')"

definition RegionAppend :: "alloc \<Rightarrow> nat \<Rightarrow> Region \<Rightarrow> Region \<Rightarrow> bool \<times> nat \<times> Region" where
  "RegionAppend ok k dstrgn rgn =
     (if RegionNar rgn then (False, k, RegionBreak dstrgn)
      else if rdata rgn = NullData \<and> rdata dstrgn = RegionEmptyData
      then (True, k, \<lparr>extents = extents rgn, rdata = NullData\<rparr>)
      else if RegionNumRects rgn = 0 then (True, k, dstrgn)
      else
        let numRects = RegionNumRects rgn; dnumRects = RegionNumRects dstrgn;
            size' = (if dnumRects = 0 \<and> numRects < 200 then 200 else numRects)
        in case RECTALLOC ok k dstrgn size' of
             (False, k', dst) \<Rightarrow> (False, k', dst)
           | (True, k', dst) \<Rightarrow>
               let old = RegionRects rgn; drs = RegionRects dst; e = extents dst; re = extents rgn
               in if dnumRects = 0 then (True, k', set_rects (dst\<lparr>extents := re\<rparr>) (drs @ old))
                  else if x2 e > x1 e then
                    if follows (hd old) (last drs)
                    then (True, k', set_rects (dst\<lparr>extents := mkBox (min (x1 re) (x1 e)) (y1 e) (max (x2 re) (x2 e)) (y2 re)\<rparr>) (drs @ old))
                    else if follows (hd drs) (last old)
                    then (True, k', set_rects (dst\<lparr>extents := mkBox (min (x1 re) (x1 e)) (y1 re) (max (x2 re) (x2 e)) (y2 e)\<rparr>) (old @ drs))
                    else (True, k', set_rects (dst\<lparr>extents := e\<lparr>x2 := x1 e\<rparr>\<rparr>) (drs @ old))
                  else (True, k', set_rects dst (drs @ old)))"

section \<open>Sorting\<close>

definition rect_less :: "Box \<Rightarrow> Box \<Rightarrow> bool" where
  "rect_less a b \<longleftrightarrow> y1 a < y1 b \<or> (y1 a = y1 b \<and> x1 a < x1 b)"

definition ExchangeRects :: "Box list \<Rightarrow> nat \<Rightarrow> nat \<Rightarrow> Box list" where
  "ExchangeRects rects a b = rects[a := rects ! b, b := rects ! a]"

text \<open>
  The two scans of the partition; the element to partition by is in location 0, which
  stops the second scan. The first one stops at the end of the array.
\<close>

function scan_up :: "Box list \<Rightarrow> nat \<Rightarrow> nat" where
  "scan_up rects i =
     (if i + 1 < length rects \<and> rect_less (rects ! (i + 1)) (rects ! 0) then scan_up rects (i + 1) else i + 1)"
  by pat_completeness auto
termination by (relation "measure (\<lambda>(rects, i). length rects - i)") auto

fun scan_down :: "Box list \<Rightarrow> nat \<Rightarrow> nat" where
  "scan_down rects 0 = 0"
| "scan_down rects (Suc j) = (if rect_less (rects ! 0) (rects ! j) then scan_down rects j else j)"

declare scan_up.simps [simp del]

lemma scan_down_less: "0 < j \<Longrightarrow> scan_down rects j < j"
proof (induction rects j rule: scan_down.induct)
  case (2 rects j)
  then show ?case by (cases j) (auto simp: less_Suc_eq)
qed simp

function partition_rects :: "Box list \<Rightarrow> nat \<Rightarrow> nat \<Rightarrow> Box list \<times> nat" where
  "partition_rects rects i j =
     (let i' = scan_up rects i; j' = scan_down rects j
      in if i' < j' then partition_rects (ExchangeRects rects i' j') i' j' else (rects, j'))"
  by pat_completeness auto
termination
proof (relation "measure (\<lambda>(_, _, j). j)", goal_cases)
  case (2 rects i j)
  then show ?case using scan_down_less [of j rects] by (cases j) auto
qed simp

declare partition_rects.simps [simp del]

lemma length_ExchangeRects [simp]: "length (ExchangeRects rects a b) = length rects"
  by (simp add: ExchangeRects_def)

lemma partition_rects_bounds:
  "0 < j \<Longrightarrow> length (fst (partition_rects rects i j)) = length rects \<and> snd (partition_rects rects i j) < j"
proof (induction rects i j rule: partition_rects.induct)
  case (1 rects i j)
  then show ?case
    using scan_down_less [of j rects] by (subst (1 2) partition_rects.simps) (fastforce simp: Let_def)
qed

function QuickSortRects :: "Box list \<Rightarrow> Box list" where
  "QuickSortRects rects =
     (if length rects = 0 then rects
      else if length rects = 2 then
        (if y1 (rects ! 0) > y1 (rects ! 1) \<or> (y1 (rects ! 0) = y1 (rects ! 1) \<and> x1 (rects ! 0) > x1 (rects ! 1))
         then ExchangeRects rects 0 1 else rects)
      else
        let p = partition_rects (ExchangeRects rects 0 (length rects div 2)) 0 (length rects);
            j = snd p;
            rects' = ExchangeRects (fst p) 0 j;
            right' = (if length rects - j - 1 > 1 then QuickSortRects (drop (j + 1) rects') else drop (j + 1) rects');
            left' = (if j > 1 then QuickSortRects (take j rects') else take j rects')
        in left' @ [rects' ! j] @ right')"
  by pat_completeness auto
termination
proof (relation "measure length", goal_cases)
  case (2 rects)
  then show ?case
    using partition_rects_bounds [of "length rects" "ExchangeRects rects 0 (length rects div 2)" 0] by auto
next
  case (3 rects)
  then show ?case
    using partition_rects_bounds [of "length rects" "ExchangeRects rects 0 (length rects div 2)" 0] by auto
qed simp

declare QuickSortRects.simps [simp del]

section \<open>Validating\<close>

record RegionInfo =
  ri_reg :: Region
  prevBand :: nat
  curBand :: nat

datatype placed = Bail nat | NoFit | Placed nat "RegionInfo list" bool

text \<open>The search for a region to append the box to.\<close>

fun place_box :: "alloc \<Rightarrow> nat \<Rightarrow> RegionInfo list \<Rightarrow> Box \<Rightarrow> bool \<Rightarrow> placed" where
  "place_box ok k [] box ov = NoFit"
| "place_box ok k (rit # ris) box ov =
     (let reg = ri_reg rit; rs = RegionRects reg; riBox = last rs
      in if y1 box = y1 riBox \<and> y2 box = y2 riBox then
           if x1 box \<le> x2 riBox then
             Placed k (rit\<lparr>ri_reg := set_rects reg (butlast rs @ [if x2 box > x2 riBox then riBox\<lparr>x2 := x2 box\<rparr> else riBox])\<rparr> # ris)
               (ov \<or> x1 box < x2 riBox)
           else
             (case RECTALLOC ok k reg 1 of
                (False, k', _) \<Rightarrow> Bail k'
              | (True, k', reg') \<Rightarrow> Placed k' (rit\<lparr>ri_reg := set_rects reg' (RegionRects reg' @ [box])\<rparr> # ris) ov)
         else if y1 box \<ge> y2 riBox then
           let e = extents reg;
               reg1 = reg\<lparr>extents := e\<lparr>x2 := max (x2 e) (x2 riBox), x1 := min (x1 e) (x1 box)\<rparr>\<rparr>
           in (case Coalesce reg1 (prevBand rit) (curBand rit) of
                 (prevBand', reg2) \<Rightarrow>
                   (case RECTALLOC ok k reg2 1 of
                      (False, k', _) \<Rightarrow> Bail k'
                    | (True, k', reg3) \<Rightarrow>
                        Placed k' (\<lparr>ri_reg = set_rects reg3 (RegionRects reg3 @ [box]), prevBand = prevBand',
                                    curBand = RegionNumRects reg2\<rparr> # ris) ov))
         else
           (case place_box ok k ris box ov of
              Placed k' ris' ov' \<Rightarrow> Placed k' (rit # ris') ov'
            | other \<Rightarrow> other))"

text \<open>The loop over the sorted boxes; \<open>Inl\<close> is the jump to \<^verbatim>\<open>bail\<close>.\<close>

fun scatter ::
    "alloc \<Rightarrow> nat \<Rightarrow> nat \<Rightarrow> RegionInfo list \<Rightarrow> Box list \<Rightarrow> bool \<Rightarrow> (nat \<times> bool) + (nat \<times> RegionInfo list \<times> bool)" where
  "scatter ok k sizeRI ri [] ov = Inr (k, ri, ov)"
| "scatter ok k sizeRI ri (box # boxes) ov =
     (case place_box ok k ri box ov of
        Bail k' \<Rightarrow> Inl (k', ov)
      | Placed k' ri' ov' \<Rightarrow> scatter ok k' sizeRI ri' boxes ov'
      | NoFit \<Rightarrow>
          let grow = (sizeRI = length ri);
              k1 = (if grow then Suc k else k);
              sizeRI' = (if grow then 2 * sizeRI else sizeRI);
              numRI = Suc (length ri)
          in if grow \<and> \<not> ok k then Inl (k1, ov)
             else (case RegionRectAlloc ok k1 \<lparr>extents = box, rdata = NullData\<rparr> ((length (box # boxes) + numRI) div numRI) of
                     (False, k2, _) \<Rightarrow> Inl (k2, ov)
                   | (True, k2, reg) \<Rightarrow>
                       scatter ok k2 sizeRI' (ri @ [\<lparr>ri_reg = reg, prevBand = 0, curBand = 0\<rparr>]) boxes ov))"

definition finish_info :: "RegionInfo \<Rightarrow> Region" where
  "finish_info rit =
     (let reg = ri_reg rit; riBox = last (RegionRects reg); e = extents reg;
          reg1 = reg\<lparr>extents := e\<lparr>y2 := y2 riBox, x2 := max (x2 e) (x2 riBox)\<rparr>\<rparr>;
          reg2 = snd (Coalesce reg1 (prevBand rit) (curBand rit))
      in if RegionNumRects reg2 = 1 then reg2\<lparr>rdata := NullData\<rparr> else reg2)"

definition widen :: "Box \<Rightarrow> Box \<Rightarrow> Box" where
  "widen e h = mkBox (min (x1 h) (x1 e)) (min (y1 h) (y1 e)) (max (x2 h) (x2 e)) (max (y2 h) (y2 e))"

text \<open>One round of the binary merge: each region with the one half the array away.\<close>

fun merge_pairs :: "alloc \<Rightarrow> nat \<Rightarrow> bool \<Rightarrow> bool \<Rightarrow> Region list \<Rightarrow> Region list \<Rightarrow> nat \<times> bool \<times> bool \<times> Region list" where
  "merge_pairs ok k ov ret (reg # regs) (hreg # hregs) =
     (case RegionOp ok k True False reg reg hreg RegionUnionO True True ov of
        (s, k', reg', ov') \<Rightarrow>
          (case merge_pairs ok k' ov' (ret \<and> s) regs hregs of
             (k'', ov'', ret'', out) \<Rightarrow>
               (k'', ov'', ret'', reg'\<lparr>extents := widen (extents reg') (extents hreg)\<rparr> # out)))"
| "merge_pairs ok k ov ret _ _ = (k, ov, ret, [])"

lemma length_merge_pairs: "length (snd (snd (snd (merge_pairs ok k ov ret xs ys)))) = min (length xs) (length ys)"
  by (induction ok k ov ret xs ys rule: merge_pairs.induct) (auto split: prod.splits)

function merge_all :: "alloc \<Rightarrow> nat \<Rightarrow> bool \<Rightarrow> bool \<Rightarrow> Region list \<Rightarrow> nat \<times> bool \<times> bool \<times> Region list" where
  "merge_all ok k ov ret regs =
     (if length regs > 1 then
        let half = length regs div 2; odd' = length regs mod 2;
            m = merge_pairs ok k ov ret (take half (drop odd' regs)) (drop (odd' + half) regs)
        in merge_all ok (fst m) (fst (snd m)) (fst (snd (snd m))) (take odd' regs @ snd (snd (snd m)))
      else (k, ov, ret, regs))"
  by pat_completeness auto
termination
proof (relation "measure (\<lambda>(_, _, _, _, regs). length regs)", goal_cases)
  case (2 ok k ov ret regs)
  have "length regs mod 2 + length regs div 2 < length regs" "length regs - length regs div 2 < length regs" using 2(1) by presburger+
  then show ?case using 2 by (auto simp: length_merge_pairs min_def)
qed simp

declare merge_all.simps [simp del]

definition RegionValidate :: "alloc \<Rightarrow> nat \<Rightarrow> Region \<Rightarrow> bool \<times> nat \<times> Region \<times> bool" where
  "RegionValidate ok k badreg =
     (if rdata badreg = NullData then (True, k, badreg, False)
      else if RegionNumRects badreg = 0 then (\<not> RegionNar badreg, k, badreg, False)
      else if x1 (extents badreg) < x2 (extents badreg) then
        if RegionNumRects badreg = 1 then (True, k, badreg\<lparr>rdata := NullData\<rparr>, False)
        else (case DOWNSIZE ok k badreg of (k', reg) \<Rightarrow> (True, k', reg, False))
      else
        let rs = QuickSortRects (RegionRects badreg)
        in if \<not> ok k then (False, Suc k, RegionBreak badreg, False)
           else
             (case scatter ok (Suc k) 4
                     [\<lparr>ri_reg = set_rects (badreg\<lparr>extents := hd rs\<rparr>) [hd rs], prevBand = 0, curBand = 0\<rparr>] (tl rs) False of
                Inl (k', ov) \<Rightarrow> (False, k', RegionBreak badreg, ov)
              | Inr (k', ri, ov) \<Rightarrow>
                  (case merge_all ok k' ov True (map finish_info ri) of
                     (k'', ov', ret, regs) \<Rightarrow> (ret, k'', hd regs, ov'))))"

section \<open>Regions from rectangles\<close>

record xRectangle =
  rect_x :: int
  rect_y :: int
  width :: int
  height :: int

abbreviation MAXSHORT :: int where "MAXSHORT \<equiv> 32767"

definition rect_box :: "xRectangle \<Rightarrow> Box" where
  "rect_box r = mkBox (rect_x r) (rect_y r) (min (rect_x r + width r) MAXSHORT) (min (rect_y r + height r) MAXSHORT)"

definition nonempty_box :: "Box \<Rightarrow> bool" where
  "nonempty_box b \<longleftrightarrow> x1 b \<noteq> x2 b \<and> y1 b \<noteq> y2 b"

definition RegionFromRects :: "alloc \<Rightarrow> xRectangle list \<Rightarrow> bool \<Rightarrow> nat \<times> Region" where
  "RegionFromRects ok rects yxbanded =
     (case RegionCreate ok 0 None 0 of
        (k, pRgn) \<Rightarrow>
          if RegionNar pRgn then (k, pRgn)
          else if rects = [] then (k, pRgn)
          else if length rects = 1 then
            let b = rect_box (hd rects)
            in if nonempty_box b then (k, \<lparr>extents = b, rdata = NullData\<rparr>) else (k, pRgn)
          else if \<not> ok k then (Suc k, RegionBreak pRgn)
          else
            let boxes = filter nonempty_box (map rect_box rects)
            in if boxes = [] then (Suc k, pRgn)
               else
                 let reg = pRgn\<lparr>rdata := RegionData (length rects) boxes\<rparr>
                 in if yxbanded then (Suc k, RegionSetExtents reg)
                    else (case RegionValidate ok (Suc k) (reg\<lparr>extents := (extents reg)\<lparr>x1 := 0, x2 := 0\<rparr>\<rparr>) of
                            (_, k', reg', _) \<Rightarrow> (k', reg')))"

end
