(* ===== verification/Region_Op.thy ===== *)
theory Region_Op
  imports Region
begin

text \<open>
  The generic region operator is correct: for an overlap function that combines two bands by
  a set operation, \<^verbatim>\<open>RegionOp\<close> combines two y-x banded regions by it, and the
  result is y-x banded again. The interface of overlap functions is a locale, which
  \<^verbatim>\<open>RegionUnionO\<close> implements.
\<close>

section \<open>Banded lists of boxes\<close>

definition valid_box :: "Box \<Rightarrow> bool" where
  "valid_box b \<longleftrightarrow> x1 b < x2 b \<and> y1 b < y2 b"

definition before :: "Box \<Rightarrow> Box \<Rightarrow> bool" where
  "before a b \<longleftrightarrow> y1 a = y1 b \<and> y2 a = y2 b \<and> x2 a < x1 b \<or> y2 a \<le> y1 b"

definition banded :: "Box list \<Rightarrow> bool" where
  "banded rs \<longleftrightarrow> (\<forall>b \<in> set rs. valid_box b) \<and> sorted_wrt before rs"

definition covers :: "Box list \<Rightarrow> int \<Rightarrow> int \<Rightarrow> bool" where
  "covers rs x y \<longleftrightarrow> (\<exists>b \<in> set rs. INBOX b x y)"

definition in_row :: "Box list \<Rightarrow> int \<Rightarrow> bool" where
  "in_row rs x \<longleftrightarrow> (\<exists>b \<in> set rs. x1 b \<le> x \<and> x < x2 b)"

definition xband :: "Box list \<Rightarrow> bool" where
  "xband rs \<longleftrightarrow> (\<forall>b \<in> set rs. x1 b < x2 b) \<and> sorted_wrt (\<lambda>a b. x2 a < x1 b) rs"

definition rows :: "int \<Rightarrow> int \<Rightarrow> Box list \<Rightarrow> bool" where
  "rows t u rs \<longleftrightarrow> (\<forall>b \<in> set rs. y1 b = t \<and> y2 b = u)"

lemma covers_simps [simp]:
  "covers [] x y = False" "covers (b # rs) x y = (INBOX b x y \<or> covers rs x y)"
  "covers (rs @ ss) x y = (covers rs x y \<or> covers ss x y)"
  by (auto simp: covers_def)

lemma in_row_simps [simp]:
  "in_row [] x = False" "in_row (b # rs) x = (x1 b \<le> x \<and> x < x2 b \<or> in_row rs x)"
  by (auto simp: in_row_def)

lemma banded_simps [simp]:
  "banded []" "banded (b # rs) = (valid_box b \<and> (\<forall>c \<in> set rs. before b c) \<and> banded rs)"
  by (auto simp: banded_def)

lemma banded_append [simp]:
  "banded (rs @ ss) = (banded rs \<and> banded ss \<and> (\<forall>a \<in> set rs. \<forall>b \<in> set ss. before a b))"
  by (auto simp: banded_def sorted_wrt_append)

lemma rows_simps [simp]: "rows t u []" "rows t u (b # rs) = (y1 b = t \<and> y2 b = u \<and> rows t u rs)"
  by (auto simp: rows_def)

lemma covers_rows: "rows t u rs \<Longrightarrow> covers rs x y \<longleftrightarrow> t \<le> y \<and> y < u \<and> in_row rs x"
  by (induction rs) (auto simp: INBOX_def)

lemma banded_rows: "rows t u rs \<Longrightarrow> t < u \<Longrightarrow> banded rs \<longleftrightarrow> xband rs"
  by (induction rs) (auto simp: xband_def rows_def before_def valid_box_def banded_def)

lemma FindBand_banded:
  assumes "banded r" "r \<noteq> []"
  shows "rows (y1 (hd r)) (y2 (hd r)) (fst (FindBand r))" "fst (FindBand r) \<noteq> []" "xband (fst (FindBand r))"
    "banded (snd (FindBand r))" "\<forall>b \<in> set (snd (FindBand r)). y2 (hd r) \<le> y1 b" "y1 (hd r) < y2 (hd r)"
    "r = fst (FindBand r) @ snd (FindBand r)"
proof -
  obtain a rs where r: "r = a # rs" using assms(2) by (cases r) auto
  let ?t = "y1 a" and ?u = "y2 a"
  have a: "?t < ?u" "\<forall>b \<in> set rs. before a b" using assms(1) by (auto simp: r valid_box_def)
  show app: "r = fst (FindBand r) @ snd (FindBand r)" by (simp add: FindBand_def)
  show rows: "rows (y1 (hd r)) (y2 (hd r)) (fst (FindBand r))"
    unfolding rows_def
  proof
    fix b assume "b \<in> set (fst (FindBand r))"
    then have "y1 b = ?t" "b = a \<or> before a b" using a(2) by (auto simp: r FindBand_def dest: set_takeWhileD)
    then show "y1 b = y1 (hd r) \<and> y2 b = y2 (hd r)" using a(1) by (auto simp: r before_def)
  qed
  show ne: "fst (FindBand r) \<noteq> []" by (simp add: r FindBand_def)
  have b: "banded (fst (FindBand r) @ snd (FindBand r))" using assms(1) app by simp
  then show "banded (snd (FindBand r))" by simp
  show "y1 (hd r) < y2 (hd r)" using a by (simp add: r)
  then show "xband (fst (FindBand r))" using b banded_rows [OF rows] by simp
  show "\<forall>b \<in> set (snd (FindBand r)). y2 (hd r) \<le> y1 b"
  proof
    fix b assume b_in: "b \<in> set (snd (FindBand r))"
    then have "snd (FindBand r) \<noteq> []" by auto
    then have rest: "snd (FindBand r) \<noteq> []" "y1 (hd (snd (FindBand r))) \<noteq> ?t"
      using hd_dropWhile [of "\<lambda>b. y1 b = ?t" r] by (simp_all add: FindBand_def r)
    let ?h = "hd (snd (FindBand r))"
    have "?h \<in> set rs" using rest(1) by (auto simp: r FindBand_def intro: set_dropWhileD [OF hd_in_set])
    then have h: "?u \<le> y1 ?h" using a rest(2) by (auto simp: before_def)
    have "b = ?h \<or> before ?h b" and "valid_box ?h"
      using b rest(1) b_in by (cases "snd (FindBand r)"; auto)+
    then show "y2 (hd r) \<le> y1 b" using h by (auto simp: r before_def valid_box_def)
  qed
qed

text \<open>The points of a banded list, row by row.\<close>

lemma covers_FindBand:
  assumes "banded r" "r \<noteq> []"
  shows "covers r x y \<longleftrightarrow> (if y < y2 (hd r) then y1 (hd r) \<le> y \<and> in_row (fst (FindBand r)) x
     else covers (snd (FindBand r)) x y)"
proof -
  have "\<not> covers (snd (FindBand r)) x y" if "y < y2 (hd r)"
    using that FindBand_banded(5) [OF assms] by (auto simp: covers_def INBOX_def)
  then show ?thesis
    using covers_rows [OF FindBand_banded(1) [OF assms], of x y]
    by (subst FindBand_banded(7) [OF assms]) auto
qed

section \<open>Growing a region when memory suffices\<close>

definition wf_reg :: "Region \<Rightarrow> bool" where
  "wf_reg reg \<longleftrightarrow> (case rdata reg of RegionData sz rs \<Rightarrow> length rs \<le> sz | _ \<Rightarrow> True)"

definition data_reg :: "Region \<Rightarrow> bool" where
  "data_reg reg \<longleftrightarrow> (\<exists>sz rs. rdata reg = RegionData sz rs \<and> length rs \<le> sz)"

definition grows :: "Region \<Rightarrow> Region \<Rightarrow> Box list \<Rightarrow> bool" where
  "grows reg reg' bs \<longleftrightarrow> data_reg reg' \<and> RegionRects reg' = RegionRects reg @ bs \<and> extents reg' = extents reg"

lemma RegionNumRects_length: "RegionNumRects reg = length (RegionRects reg)"
  by (simp add: RegionNumRects_def RegionRects_def split: RegData.split)

lemma data_reg_wf [simp]: "data_reg reg \<Longrightarrow> wf_reg reg"
  by (auto simp: data_reg_def wf_reg_def)

lemma RectAlloc_grows:
  assumes "wf_reg reg" "RECTALLOC alloc_ok k reg (length bs) = (s, k', reg')"
  shows "s \<and> (bs \<noteq> [] \<longrightarrow> grows reg (set_rects reg' (RegionRects reg' @ bs)) bs)"
  using assms
  by (auto simp: RECTALLOC_def RegionRectAlloc_def grows_def data_reg_def wf_reg_def set_rects_def RegionRects_def
      RegionNumRects_def RegionSize_def split: RegData.splits if_splits)

lemma RegionAppendNonO_grows:
  assumes "wf_reg reg" "r \<noteq> []"
  shows "\<exists>k' reg'. RegionAppendNonO alloc_ok k reg r t u = (True, k', reg') \<and>
     grows reg reg' (map (\<lambda>b. mkBox (x1 b) t (x2 b) u) r)"
  using RectAlloc_grows [OF assms(1), of k "map (\<lambda>b. mkBox (x1 b) t (x2 b) u) r"] assms(2)
  by (auto simp: RegionAppendNonO_def split: prod.split)

lemma NEWRECT_grows:
  assumes "wf_reg reg"
  shows "\<exists>k' reg'. NEWRECT alloc_ok k reg b = (True, k', reg') \<and> grows reg reg' [b]"
  using assms
  by (auto simp: NEWRECT_def RegionRectAlloc_def grows_def data_reg_def wf_reg_def set_rects_def RegionRects_def
      RegionNumRects_def RegionSize_def split: RegData.splits)

lemma AppendRegions_grows:
  assumes "data_reg reg"
  shows "\<exists>k' reg'. AppendRegions alloc_ok k reg r = (True, k', reg') \<and> grows reg reg' r"
proof (cases "r = []")
  case False
  then show ?thesis
    using RectAlloc_grows [of reg k r] assms by (auto simp: AppendRegions_def split: prod.split)
qed (use assms in \<open>auto simp: AppendRegions_def grows_def\<close>)

lemma grows_trans: "grows reg reg' bs \<Longrightarrow> grows reg' reg'' cs \<Longrightarrow> grows reg reg'' (bs @ cs)"
  by (auto simp: grows_def)

section \<open>Coalescing\<close>

text \<open>
  The output so far: banded, its last band starts at index \<open>p\<close>, everything lies above \<open>lim\<close>.
\<close>

definition out_ok :: "Box list \<Rightarrow> nat \<Rightarrow> int \<Rightarrow> bool" where
  "out_ok rs p lim \<longleftrightarrow> banded rs \<and> p \<le> length rs \<and> (\<exists>t u. rows t u (drop p rs)) \<and>
     (\<forall>a \<in> set (take p rs). \<forall>b \<in> set (drop p rs). y2 a \<le> y1 b) \<and> (\<forall>b \<in> set rs. y2 b \<le> lim)"

lemma out_ok_mono: "out_ok rs p lim \<Longrightarrow> lim \<le> lim' \<Longrightarrow> out_ok rs p lim'"
  by (auto simp: out_ok_def)

lemma out_ok_append:
  assumes "out_ok rs p lim" "lim \<le> t" "rows t u cur" "xband cur" "t < u"
  shows "out_ok (rs @ cur) (length rs) u"
  using assms banded_rows [OF assms(3,5)] unfolding out_ok_def
  by (auto simp: rows_def before_def)

lemma same_places_in_row:
  "list_all2 (\<lambda>p c. x1 p = x1 c \<and> x2 p = x2 c) prev cur \<Longrightarrow> in_row prev x = in_row cur x"
  by (induction rule: list_all2_induct) auto

lemma sorted_wrt_xband_map:
  "xband (map (\<lambda>p. p\<lparr>y2 := u\<rparr>) rs) = xband rs" "in_row (map (\<lambda>p. p\<lparr>y2 := u\<rparr>) rs) x = in_row rs x"
  "rows t v rs \<Longrightarrow> rows t u (map (\<lambda>p. p\<lparr>y2 := u\<rparr>) rs)"
  by (auto simp: xband_def in_row_def rows_def sorted_wrt_map)

text \<open>Merging the last band with a band of the same places just below it.\<close>

lemma merge_bands:
  assumes "out_ok rs p lim" "p < length rs" "rows t' t (drop p rs)" "rows t u cur" "t < u"
    "list_all2 (\<lambda>p c. x1 p = x1 c \<and> x2 p = x2 c) (drop p rs) cur"
  defines "rs' \<equiv> take p rs @ map (\<lambda>p. p\<lparr>y2 := u\<rparr>) (drop p rs)"
  shows "out_ok rs' p u" "covers rs' x y = covers (rs @ cur) x y"
proof -
  have b: "banded (take p rs)" "banded (drop p rs)" using assms(1) banded_append [of "take p rs" "drop p rs"]
    by (auto simp: out_ok_def)
  obtain q where "q \<in> set (drop p rs)" using assms(2) by (cases "drop p rs") auto
  then have t: "t' < t" "t \<le> lim" using assms(1,3) b(2)
    by (auto simp: rows_def banded_def valid_box_def out_ok_def dest: in_set_dropD)
  note r' = sorted_wrt_xband_map(3) [OF assms(3), of u]
  have xb: "xband (drop p rs)" using banded_rows [OF assms(3) t(1)] b(2) by simp
  have t'u: "t' < u" using t(1) assms(5) by simp
  have "banded (map (\<lambda>p. p\<lparr>y2 := u\<rparr>) (drop p rs))"
    using banded_rows [OF r' t'u] xb by (simp add: sorted_wrt_xband_map)
  moreover have above: "\<forall>a \<in> set (take p rs). y2 a \<le> t'"
    using assms(1,2,3) \<open>q \<in> set (drop p rs)\<close> by (auto simp: out_ok_def rows_def)
  ultimately show "out_ok rs' p u"
    using b(1) assms(2) r' t'u by (auto simp: out_ok_def rs'_def before_def rows_def min_def)
  show "covers rs' x y = covers (rs @ cur) x y"
    using covers_rows [OF r', of x y] covers_rows [OF assms(3), of x y] covers_rows [OF assms(4), of x y]
      same_places_in_row [OF assms(6), of x] t(1) assms(5) covers_simps(3) [of "take p rs" "drop p rs" x y]
    by (auto simp: rs'_def sorted_wrt_xband_map)
qed

lemma Coalesce_correct:
  assumes "data_reg reg" "RegionRects reg = rs @ cur" "out_ok rs p lim" "lim \<le> t" "rows t u cur" "xband cur" "t < u"
  obtains p' reg' where "Coalesce reg p (length rs) = (p', reg')" "data_reg reg'" "extents reg' = extents reg"
    "out_ok (RegionRects reg') p' u" "\<And>x y. covers (RegionRects reg') x y = covers (rs @ cur) x y"
proof -
  note app = out_ok_append [OF assms(3-7)]
  let ?n = "length rs - p"
  let ?prev = "take ?n (drop p (rs @ cur))" and ?cur = "take ?n (drop (length rs) (rs @ cur))"
  have p: "p \<le> length rs" using assms(3) by (simp add: out_ok_def)
  show thesis
  proof (cases "length cur = ?n \<and> 0 < ?n \<and> y2 (hd ?prev) = y1 (hd ?cur) \<and>
      list_all2 (\<lambda>p c. x1 p = x1 c \<and> x2 p = x2 c) ?prev ?cur")
    case False
    then have "Coalesce reg p (length rs) = (length rs, reg)"
      using p by (auto simp: Coalesce_def RegionCoalesce_def assms(2) RegionNumRects_length Let_def)
    then show thesis using that [of "length rs" reg] app assms(1,2) by simp
  next
    case True
    have eqs: "?prev = drop p rs" "?cur = cur" using p True by simp_all
    have ne: "drop p rs \<noteq> []" "cur \<noteq> []" using True by auto
    obtain t' where r': "rows t' t (drop p rs)"
    proof -
      obtain a b where ab: "rows a b (drop p rs)" using assms(3) by (auto simp: out_ok_def)
      have "b = t" using ab ne assms(5) True unfolding eqs
        by (cases "drop p rs"; cases cur) auto
      then show thesis using that ab by blast
    qed
    have "p < length rs" using True by simp
    note merge = merge_bands [OF assms(3) this r' assms(5,7) conjunct2 [OF conjunct2 [OF conjunct2 [OF True]], unfolded eqs]]
    have u: "y2 (hd cur) = u" using ne(2) assms(5) by (cases cur) auto
    let ?rs' = "take p rs @ map (\<lambda>p. p\<lparr>y2 := u\<rparr>) (drop p rs)"
    have "Coalesce reg p (length rs) = (p, set_rects reg ?rs')"
      using True p unfolding eqs by (simp add: Coalesce_def RegionCoalesce_def assms(2) RegionNumRects_length Let_def u)
    moreover have "data_reg (set_rects reg ?rs')" "RegionRects (set_rects reg ?rs') = ?rs'"
      "extents (set_rects reg ?rs') = extents reg"
      using assms(1,2) p by (auto simp: data_reg_def set_rects_def RegionRects_def)
    ultimately show thesis using that [of p "set_rects reg ?rs'"] merge by simp
  qed
qed

definition building :: "Region \<Rightarrow> nat \<Rightarrow> int \<Rightarrow> bool" where
  "building reg p lim \<longleftrightarrow> data_reg reg \<and> out_ok (RegionRects reg) p lim"

definition band_box :: "int \<Rightarrow> int \<Rightarrow> Box \<Rightarrow> Box" where
  "band_box t u b = mkBox (x1 b) t (x2 b) u"

lemma band_map:
  "xband (map (band_box t u) r) = xband r" "in_row (map (band_box t u) r) x = in_row r x" "rows t u (map (band_box t u) r)"
  by (auto simp: xband_def in_row_def rows_def sorted_wrt_map band_box_def)

lemma append_band_correct:
  assumes "building reg p lim" "lim \<le> t" "t < u" "xband band" "band \<noteq> []"
  obtains k' reg' p' where "append_band alloc_ok k reg p band t u = (k', reg', p')" "building reg' p' u"
    "extents reg' = extents reg"
    "\<And>x y. covers (RegionRects reg') x y \<longleftrightarrow> covers (RegionRects reg) x y \<or> t \<le> y \<and> y < u \<and> in_row band x"
proof -
  obtain k1 reg1 where a: "RegionAppendNonO alloc_ok k reg band t u = (True, k1, reg1)"
    and g: "grows reg reg1 (map (band_box t u) band)"
    using RegionAppendNonO_grows [of reg band k t u] assms(1,5) by (auto simp: building_def band_box_def [abs_def])
  have d: "data_reg reg1" "RegionRects reg1 = RegionRects reg @ map (band_box t u) band" "extents reg1 = extents reg"
    using g by (auto simp: grows_def)
  have "out_ok (RegionRects reg) p lim" "xband (map (band_box t u) band)" using assms by (auto simp: building_def band_map)
  from Coalesce_correct [OF d(1,2) this(1) assms(2) band_map(3) this(2) assms(3)] obtain p' reg'
    where c: "Coalesce reg1 p (length (RegionRects reg)) = (p', reg')" "data_reg reg'" "extents reg' = extents reg1"
      "out_ok (RegionRects reg') p' u"
      "\<And>x y. covers (RegionRects reg') x y = covers (RegionRects reg @ map (band_box t u) band) x y" by metis
  have "append_band alloc_ok k reg p band t u = (k1, reg', p')"
    using a c(1) by (simp add: append_band_def RegionNumRects_length)
  moreover have "covers (RegionRects reg') x y \<longleftrightarrow> covers (RegionRects reg) x y \<or> t \<le> y \<and> y < u \<and> in_row band x" for x y
    unfolding c(5) using covers_rows [OF band_map(3) [of t u band], of x y] by (simp add: band_map)
  ultimately show thesis using that c(2-4) d(3) by (simp add: building_def)
qed

lemma RegionOp_rest_correct:
  assumes "building reg p ybot" "banded s" "s \<noteq> []" "\<forall>b \<in> set s. ybot < y2 b"
  obtains k' reg' where "RegionOp_rest alloc_ok k reg p ybot s = (True, k', reg')" "data_reg reg'"
    "extents reg' = extents reg" "banded (RegionRects reg')"
    "\<And>x y. covers (RegionRects reg') x y \<longleftrightarrow> covers (RegionRects reg) x y \<or> ybot \<le> y \<and> covers s x y"
proof -
  note b = FindBand_banded [OF assms(2,3)]
  let ?t = "max (y1 (hd s)) ybot" and ?u = "y2 (hd s)"
  have t: "ybot \<le> ?t" "?t < ?u" using b(6) assms(3,4) by auto
  obtain k1 reg1 p1 where a: "append_band alloc_ok k reg p (fst (FindBand s)) ?t ?u = (k1, reg1, p1)"
      "building reg1 p1 ?u" "extents reg1 = extents reg"
    and ac: "\<And>x y. covers (RegionRects reg1) x y \<longleftrightarrow>
      covers (RegionRects reg) x y \<or> ?t \<le> y \<and> y < ?u \<and> in_row (fst (FindBand s)) x"
    by (rule append_band_correct [OF assms(1) t b(3,2), of k]) (rule that; (assumption | blast))
  obtain k2 reg2 where g: "AppendRegions alloc_ok k1 reg1 (snd (FindBand s)) = (True, k2, reg2)" "grows reg1 reg2 (snd (FindBand s))"
    using AppendRegions_grows [of reg1 k1 "snd (FindBand s)"] a(2) by (auto simp: building_def)
  have run: "RegionOp_rest alloc_ok k reg p ybot s = (True, k2, reg2)"
    by (simp add: RegionOp_rest_def a(1) g(1))
  have d: "data_reg reg2" "RegionRects reg2 = RegionRects reg1 @ snd (FindBand s)" "extents reg2 = extents reg"
    using g(2) a(3) by (auto simp: grows_def)
  have "banded (RegionRects reg2)"
    using a(2) b(4,5) unfolding d(2) by (fastforce simp: building_def out_ok_def before_def)
  moreover have "covers (RegionRects reg2) x y \<longleftrightarrow> covers (RegionRects reg) x y \<or> ybot \<le> y \<and> covers s x y" for x y
  proof (cases "y < ?u")
    case True
    then have "\<not> covers (snd (FindBand s)) x y" using b(5) by (auto simp: covers_def INBOX_def)
    then show ?thesis using True ac [of x y] covers_FindBand [OF assms(2,3), of x y] unfolding d(2) by auto
  next
    case False
    then show ?thesis using ac [of x y] covers_FindBand [OF assms(2,3), of x y] t unfolding d(2) by auto
  qed
  ultimately show thesis using that run d by blast
qed

lemma RegionOp_finish_correct:
  assumes "data_reg reg"
  obtains k' reg' where "RegionOp_finish alloc_ok k reg = (k', reg')" "RegionRects reg' = RegionRects reg" "wf_reg reg'"
    "RegionNar reg' = False" "rdata reg' = NullData \<longleftrightarrow> length (RegionRects reg) = 1"
    "length (RegionRects reg) = 1 \<or> extents reg' = extents reg"
proof -
  obtain sz rs where r: "rdata reg = RegionData sz rs" "length rs \<le> sz" using assms by (auto simp: data_reg_def)
  have rs: "RegionRects reg = rs" using r by (simp add: RegionRects_def)
  consider "rs = []" | "length rs = 1" | "length rs > 1" by (cases rs) auto
  then show thesis
  proof cases
    case 1
    show thesis
      by (rule that [of k "reg\<lparr>rdata := RegionEmptyData\<rparr>"])
        (use 1 rs in \<open>simp_all add: RegionOp_finish_def RegionRects_def wf_reg_def RegionNar_def\<close>)
  next
    case 2
    then obtain b where "rs = [b]" by (cases rs) auto
    show thesis
      by (rule that [of k "\<lparr>extents = b, rdata = NullData\<rparr>"])
        (use \<open>rs = [b]\<close> rs in \<open>simp_all add: RegionOp_finish_def RegionRects_def wf_reg_def RegionNar_def\<close>)
  next
    case 3
    then have fin: "RegionOp_finish alloc_ok k reg = DOWNSIZE alloc_ok k reg" using rs by (auto simp: RegionOp_finish_def)
    show thesis
      by (rule that [of "fst (DOWNSIZE alloc_ok k reg)" "snd (DOWNSIZE alloc_ok k reg)"])
        (use 3 r rs in \<open>auto simp: fin DOWNSIZE_def RegionRects_def wf_reg_def RegionNar_def\<close>)
  qed
qed

text \<open>
  What \<^verbatim>\<open>RegionOp\<close> promises of its result, as a relation between its result and the destination.
\<close>

definition op_result :: "Region \<Rightarrow> Region \<Rightarrow> (int \<Rightarrow> int \<Rightarrow> bool) \<Rightarrow> bool" where
  "op_result newReg reg' P \<longleftrightarrow> banded (RegionRects reg') \<and> wf_reg reg' \<and> \<not> RegionNar reg' \<and>
     (rdata reg' = NullData \<longleftrightarrow> length (RegionRects reg') = 1) \<and>
     (length (RegionRects reg') = 1 \<or> extents reg' = extents newReg) \<and>
     (\<forall>x y. covers (RegionRects reg') x y = P x y)"

section \<open>The interface of overlap functions\<close>

text \<open>
  An overlap function appends a band that covers, between the given rows, the columns the set
  operation \<open>S\<close> selects from those of the two bands; if it \<open>flags\<close>, it sets the overlap
  flag when the bands have a column in common.
\<close>

lemma one_sided:
  assumes "building reg p ybot" "banded r" "r \<noteq> []" "ybot < y2 (hd r)" "y1 (hd r) < lim" "ybot \<le> lim"
  defines "t \<equiv> max (y1 (hd r)) ybot" and "u \<equiv> min (y2 (hd r)) lim"
  obtains k' reg' p' where
    "(if wanted \<and> t \<noteq> u then append_band alloc_ok k reg p (fst (FindBand r)) t u else (k, reg, p)) = (k', reg', p')"
    "building reg' p' u" "extents reg' = extents reg"
    "\<And>x y. covers (RegionRects reg') x y \<longleftrightarrow> covers (RegionRects reg) x y \<or> ybot \<le> y \<and> y < u \<and> wanted \<and> covers r x y"
proof -
  note band = FindBand_banded [OF assms(2,3)]
  have tu: "t \<le> u" "ybot \<le> t" "ybot \<le> u" using band(6) assms(4-6) by (auto simp: t_def u_def)
  have cov: "covers r x y \<longleftrightarrow> y1 (hd r) \<le> y \<and> in_row (fst (FindBand r)) x" if "y < u" for x y
    using covers_FindBand [OF assms(2,3)] that by (simp add: u_def)
  show thesis
  proof (cases "wanted \<and> t \<noteq> u")
    case True
    with tu have "t < u" by simp
    from append_band_correct [OF assms(1) tu(2) this band(3,2)] obtain k' reg' p'
      where res: "append_band alloc_ok k reg p (fst (FindBand r)) t u = (k', reg', p')" "building reg' p' u" "extents reg' = extents reg"
      and c: "\<And>x y. covers (RegionRects reg') x y \<longleftrightarrow> covers (RegionRects reg) x y \<or> t \<le> y \<and> y < u \<and> in_row (fst (FindBand r)) x"
      by metis
    have "covers (RegionRects reg') x y \<longleftrightarrow> covers (RegionRects reg) x y \<or> ybot \<le> y \<and> y < u \<and> wanted \<and> covers r x y" for x y
      using c [of x y] cov [of y x] True by (auto simp: t_def)
    then show thesis using that [of k' reg' p'] res True by simp
  next
    case False
    have "building reg p u" using assms(1) tu(3) by (auto simp: building_def intro: out_ok_mono)
    moreover have "\<not> (ybot \<le> y \<and> y < u \<and> wanted \<and> covers r x y)" for x y
      using cov [of y x] False by (auto simp: t_def)
    ultimately show thesis using False by (intro that [of k reg p]) auto
  qed
qed

locale overlap_proc =
  fixes f :: OverlapProc and S :: "bool \<Rightarrow> bool \<Rightarrow> bool" and flags :: bool
  assumes none: "\<not> S False False"
    and run: "wf_reg reg \<Longrightarrow> xband r1 \<Longrightarrow> xband r2 \<Longrightarrow> r1 \<noteq> [] \<Longrightarrow> r2 \<noteq> [] \<Longrightarrow> data_reg reg \<Longrightarrow>
      \<exists>k' reg' bs. f alloc_ok k reg r1 r2 t u ov =
          (True, k', reg', ov \<or> flags \<and> (\<exists>x. in_row r1 x \<and> in_row r2 x)) \<and>
        grows reg reg' bs \<and> rows t u bs \<and> xband bs \<and> (\<forall>x. in_row bs x = S (in_row r1 x) (in_row r2 x))"
begin

lemma overlap_band_correct:
  assumes "building reg p lim" "lim \<le> t" "t < u" "xband r1" "xband r2" "r1 \<noteq> []" "r2 \<noteq> []"
  obtains k' reg' p' where
    "overlap_band f alloc_ok k reg p r1 r2 t u ov = (k', reg', p', ov \<or> flags \<and> (\<exists>x. in_row r1 x \<and> in_row r2 x))"
    "building reg' p' u" "extents reg' = extents reg"
    "\<And>x y. covers (RegionRects reg') x y \<longleftrightarrow> covers (RegionRects reg) x y \<or> t \<le> y \<and> y < u \<and> S (in_row r1 x) (in_row r2 x)"
proof -
  have d0: "data_reg reg" "wf_reg reg" "out_ok (RegionRects reg) p lim" using assms(1) by (auto simp: building_def)
  obtain k1 reg1 bs where a: "f alloc_ok k reg r1 r2 t u ov = (True, k1, reg1, ov \<or> flags \<and> (\<exists>x. in_row r1 x \<and> in_row r2 x))"
    and g: "grows reg reg1 bs" and b: "rows t u bs" "xband bs" "\<And>x. in_row bs x = S (in_row r1 x) (in_row r2 x)"
    using run [OF d0(2) assms(4-7) d0(1)] by meson
  have d: "data_reg reg1" "RegionRects reg1 = RegionRects reg @ bs" "extents reg1 = extents reg"
    using g by (auto simp: grows_def)
  from Coalesce_correct [OF d(1,2) d0(3) assms(2) b(1,2) assms(3)] obtain p' reg'
    where c: "Coalesce reg1 p (length (RegionRects reg)) = (p', reg')" "data_reg reg'" "extents reg' = extents reg1"
      "out_ok (RegionRects reg') p' u"
      "\<And>x y. covers (RegionRects reg') x y = covers (RegionRects reg @ bs) x y" by metis
  have "overlap_band f alloc_ok k reg p r1 r2 t u ov = (k1, reg', p', ov \<or> flags \<and> (\<exists>x. in_row r1 x \<and> in_row r2 x))"
    using a c(1) by (simp add: overlap_band_def RegionNumRects_length)
  moreover have "covers (RegionRects reg') x y \<longleftrightarrow> covers (RegionRects reg) x y \<or> t \<le> y \<and> y < u \<and> S (in_row r1 x) (in_row r2 x)" for x y
    unfolding c(5) using covers_rows [OF b(1), of x y] b(3) by simp
  ultimately show thesis using that c(2-4) d(3) by (simp add: building_def)
qed

definition combined :: "Box list \<Rightarrow> Box list \<Rightarrow> int \<Rightarrow> int \<Rightarrow> bool" where
  "combined r1 r2 x y = S (covers r1 x y) (covers r2 x y)"

text \<open>What is left of the two regions lies below \<open>ybot\<close>, but for at most one band that straddles it.\<close>

definition inputs_ok :: "Box list \<Rightarrow> Box list \<Rightarrow> int \<Rightarrow> bool" where
  "inputs_ok r1 r2 ybot \<longleftrightarrow> banded r1 \<and> banded r2 \<and> (\<forall>b \<in> set r1 \<union> set r2. ybot < y2 b) \<and>
     (r1 \<noteq> [] \<and> r2 \<noteq> [] \<longrightarrow> ybot \<le> y1 (hd r1) \<or> ybot \<le> y1 (hd r2))"

lemma nonoverlap_step_correct:
  assumes "building reg p ybot" "inputs_ok r1 r2 ybot" "r1 \<noteq> []" "r2 \<noteq> []"
  defines "m \<equiv> min (max (y1 (hd r1)) (y1 (hd r2))) (min (y2 (hd r1)) (y2 (hd r2)))"
  obtains k' reg' p' where
    "nonoverlap_step (S True False) (S False True) alloc_ok k reg p ybot r1 r2 = (k', reg', p', max (y1 (hd r1)) (y1 (hd r2)))"
    "building reg' p' m" "extents reg' = extents reg"
    "\<And>x y. covers (RegionRects reg') x y \<longleftrightarrow> covers (RegionRects reg) x y \<or> ybot \<le> y \<and> y < m \<and> combined r1 r2 x y"
proof -
  note b1 = FindBand_banded [of r1] and b2 = FindBand_banded [of r2]
  have i: "banded r1" "banded r2" "ybot < y2 (hd r1)" "ybot < y2 (hd r2)"
    "ybot \<le> y1 (hd r1) \<or> ybot \<le> y1 (hd r2)" "y1 (hd r1) < y2 (hd r1)" "y1 (hd r2) < y2 (hd r2)"
    using assms(2-4) b1(6) b2(6) by (auto simp: inputs_ok_def)
  have c: "covers r1 x y \<Longrightarrow> y1 (hd r1) \<le> y" "covers r2 x y \<Longrightarrow> y1 (hd r2) \<le> y" for x y
    using covers_FindBand [OF i(1) assms(3), of x y] covers_FindBand [OF i(2) assms(4), of x y] i(6,7)
    by (auto split: if_splits)
  consider "y1 (hd r1) < y1 (hd r2)" | "y1 (hd r2) < y1 (hd r1)" | "y1 (hd r1) = y1 (hd r2)" by linarith
  then show thesis
  proof cases
    case 1
    then have m: "m = min (y2 (hd r1)) (y1 (hd r2))" using i by (auto simp: m_def)
    have "ybot \<le> y1 (hd r2)" using 1 i(5) by auto
    from one_sided [OF assms(1) i(1) assms(3) i(3) 1 this, of "S True False" k] obtain k' reg' p'
      where res: "(if S True False \<and> max (y1 (hd r1)) ybot \<noteq> min (y2 (hd r1)) (y1 (hd r2))
          then append_band alloc_ok k reg p (fst (FindBand r1)) (max (y1 (hd r1)) ybot) (min (y2 (hd r1)) (y1 (hd r2)))
          else (k, reg, p)) = (k', reg', p')" "building reg' p' m" "extents reg' = extents reg"
      and cov: "\<And>x y. covers (RegionRects reg') x y \<longleftrightarrow>
          covers (RegionRects reg) x y \<or> ybot \<le> y \<and> y < m \<and> S True False \<and> covers r1 x y" unfolding m by metis
    have "S True False \<and> covers r1 x y \<longleftrightarrow> combined r1 r2 x y" if "y < m" for x y
    proof -
      have "\<not> covers r2 x y" using c(2) [of x y] that unfolding m by auto
      then show ?thesis using none by (cases "covers r1 x y") (simp_all add: combined_def)
    qed
    then have "covers (RegionRects reg') x y \<longleftrightarrow> covers (RegionRects reg) x y \<or> ybot \<le> y \<and> y < m \<and> combined r1 r2 x y" for x y
      using cov [of x y] by blast
    moreover have "nonoverlap_step (S True False) (S False True) alloc_ok k reg p ybot r1 r2 =
        (k', reg', p', max (y1 (hd r1)) (y1 (hd r2)))"
      using res(1) 1 unfolding nonoverlap_step_def Let_def by (auto split: if_splits)
    ultimately show thesis using that res(2,3) by blast
  next
    case 2
    then have m: "m = min (y2 (hd r2)) (y1 (hd r1))" using i by (auto simp: m_def)
    have "ybot \<le> y1 (hd r1)" using 2 i(5) by auto
    from one_sided [OF assms(1) i(2) assms(4) i(4) 2 this, of "S False True" k] obtain k' reg' p'
      where res: "(if S False True \<and> max (y1 (hd r2)) ybot \<noteq> min (y2 (hd r2)) (y1 (hd r1))
          then append_band alloc_ok k reg p (fst (FindBand r2)) (max (y1 (hd r2)) ybot) (min (y2 (hd r2)) (y1 (hd r1)))
          else (k, reg, p)) = (k', reg', p')" "building reg' p' m" "extents reg' = extents reg"
      and cov: "\<And>x y. covers (RegionRects reg') x y \<longleftrightarrow>
          covers (RegionRects reg) x y \<or> ybot \<le> y \<and> y < m \<and> S False True \<and> covers r2 x y" unfolding m by metis
    have "S False True \<and> covers r2 x y \<longleftrightarrow> combined r1 r2 x y" if "y < m" for x y
    proof -
      have "\<not> covers r1 x y" using c(1) [of x y] that unfolding m by auto
      then show ?thesis using none by (cases "covers r2 x y") (simp_all add: combined_def)
    qed
    then have "covers (RegionRects reg') x y \<longleftrightarrow> covers (RegionRects reg) x y \<or> ybot \<le> y \<and> y < m \<and> combined r1 r2 x y" for x y
      using cov [of x y] by blast
    moreover have "nonoverlap_step (S True False) (S False True) alloc_ok k reg p ybot r1 r2 =
        (k', reg', p', max (y1 (hd r1)) (y1 (hd r2)))"
      using res(1) 2 unfolding nonoverlap_step_def Let_def by (auto split: if_splits)
    ultimately show thesis using that res(2,3) by blast
  next
    case 3
    then have m: "m = y1 (hd r1)" using i by (auto simp: m_def)
    have "building reg p m" using assms(1) i(5) 3 unfolding m by (auto simp: building_def intro: out_ok_mono)
    moreover have "\<not> (y < m \<and> combined r1 r2 x y)" for x y
    proof
      assume y: "y < m \<and> combined r1 r2 x y"
      then have "\<not> covers r1 x y" "\<not> covers r2 x y" using c(1) [of x y] c(2) [of x y] 3 by (auto simp: m)
      then show False using y none by (simp add: combined_def)
    qed
    moreover have "nonoverlap_step (S True False) (S False True) alloc_ok k reg p ybot r1 r2 =
        (k, reg, p, max (y1 (hd r1)) (y1 (hd r2)))"
      using 3 by (simp add: nonoverlap_step_def Let_def)
    ultimately show thesis using that by blast
  qed
qed

lemma RegionOp_body_correct:
  assumes "building reg p ybot" "inputs_ok r1 r2 ybot" "r1 \<noteq> []" "r2 \<noteq> []"
  defines "ybot' \<equiv> min (y2 (hd r1)) (y2 (hd r2))"
  obtains k' reg' p' where
    "RegionOp_body f (S True False) (S False True) alloc_ok k reg p ybot ov r1 r2 = (k', reg', p', ybot',
       ov \<or> flags \<and> (\<exists>x y. ybot \<le> y \<and> y < ybot' \<and> covers r1 x y \<and> covers r2 x y))"
    "building reg' p' ybot'" "extents reg' = extents reg"
    "\<And>x y. covers (RegionRects reg') x y \<longleftrightarrow> covers (RegionRects reg) x y \<or> ybot \<le> y \<and> y < ybot' \<and> combined r1 r2 x y"
proof -
  let ?ytop = "max (y1 (hd r1)) (y1 (hd r2))"
  let ?m = "min ?ytop ybot'"
  have i: "banded r1" "banded r2" using assms(2) by (auto simp: inputs_ok_def)
  note b1 = FindBand_banded [OF i(1) assms(3)] and b2 = FindBand_banded [OF i(2) assms(4)]
  have yt: "ybot \<le> ?ytop" using assms(2-4) by (auto simp: inputs_ok_def)
  have c1: "covers r1 x y \<longleftrightarrow> y1 (hd r1) \<le> y \<and> in_row (fst (FindBand r1)) x" if "y < ybot'" for x y
    using covers_FindBand [OF i(1) assms(3)] that by (simp add: ybot'_def)
  have c2: "covers r2 x y \<longleftrightarrow> y1 (hd r2) \<le> y \<and> in_row (fst (FindBand r2)) x" if "y < ybot'" for x y
    using covers_FindBand [OF i(2) assms(4)] that by (simp add: ybot'_def)
  have common: "(\<exists>x y. ybot \<le> y \<and> y < ybot' \<and> covers r1 x y \<and> covers r2 x y) \<longleftrightarrow>
      ?ytop < ybot' \<and> (\<exists>x. in_row (fst (FindBand r1)) x \<and> in_row (fst (FindBand r2)) x)"
  proof
    assume "\<exists>x y. ybot \<le> y \<and> y < ybot' \<and> covers r1 x y \<and> covers r2 x y"
    then show "?ytop < ybot' \<and> (\<exists>x. in_row (fst (FindBand r1)) x \<and> in_row (fst (FindBand r2)) x)"
      using c1 c2 by (meson max_less_iff_conj order_le_less_trans)
  next
    assume "?ytop < ybot' \<and> (\<exists>x. in_row (fst (FindBand r1)) x \<and> in_row (fst (FindBand r2)) x)"
    then obtain x where "?ytop < ybot'" "in_row (fst (FindBand r1)) x" "in_row (fst (FindBand r2)) x" by blast
    then have "ybot \<le> ?ytop \<and> ?ytop < ybot' \<and> covers r1 x ?ytop \<and> covers r2 x ?ytop"
      using c1 [of ?ytop x] c2 [of ?ytop x] yt by simp
    then show "\<exists>x y. ybot \<le> y \<and> y < ybot' \<and> covers r1 x y \<and> covers r2 x y" by blast
  qed
  from nonoverlap_step_correct [OF assms(1-4), of k] obtain k1 reg1 p1 where
    n: "nonoverlap_step (S True False) (S False True) alloc_ok k reg p ybot r1 r2 = (k1, reg1, p1, ?ytop)"
      "building reg1 p1 ?m" "extents reg1 = extents reg"
    and nc: "\<And>x y. covers (RegionRects reg1) x y \<longleftrightarrow> covers (RegionRects reg) x y \<or> ybot \<le> y \<and> y < ?m \<and> combined r1 r2 x y"
    unfolding ybot'_def by metis
  show thesis
  proof (cases "?ytop < ybot'")
    case False
    then have m: "?m = ybot'" by (intro min_absorb2) (simp only: not_less)
    have "RegionOp_body f (S True False) (S False True) alloc_ok k reg p ybot ov r1 r2 = (k1, reg1, p1, ybot',
        ov \<or> flags \<and> (\<exists>x y. ybot \<le> y \<and> y < ybot' \<and> covers r1 x y \<and> covers r2 x y))"
      unfolding RegionOp_body_def n(1) common
      by (simp only: Let_def ybot'_def [symmetric] prod.case False if_False simp_thms)
    then show thesis using that n(2,3) nc unfolding m by blast
  next
    case True
    then have m: "?m = ?ytop" by simp
    obtain k2 reg2 p2 where
      o: "overlap_band f alloc_ok k1 reg1 p1 (fst (FindBand r1)) (fst (FindBand r2)) ?ytop ybot' ov =
          (k2, reg2, p2, ov \<or> flags \<and> (\<exists>x. in_row (fst (FindBand r1)) x \<and> in_row (fst (FindBand r2)) x))"
        "building reg2 p2 ybot'" "extents reg2 = extents reg1"
      and oc: "\<And>x y. covers (RegionRects reg2) x y \<longleftrightarrow> covers (RegionRects reg1) x y \<or>
          ?ytop \<le> y \<and> y < ybot' \<and> S (in_row (fst (FindBand r1)) x) (in_row (fst (FindBand r2)) x)"
      by (rule overlap_band_correct [OF n(2) min.cobounded1 True b1(3) b2(3) b1(2) b2(2), of k1 ov])
        (rule that; (assumption | blast))
    have body: "RegionOp_body f (S True False) (S False True) alloc_ok k reg p ybot ov r1 r2 = (k2, reg2, p2, ybot',
        ov \<or> flags \<and> (\<exists>x y. ybot \<le> y \<and> y < ybot' \<and> covers r1 x y \<and> covers r2 x y))"
      unfolding RegionOp_body_def n(1) common using True o(1) by (simp add: ybot'_def [symmetric])
    have comb: "combined r1 r2 x y = S (in_row (fst (FindBand r1)) x) (in_row (fst (FindBand r2)) x)"
      if "?ytop \<le> y" "y < ybot'" for x y
      using c1 [OF that(2), of x] c2 [OF that(2), of x] that(1) by (simp add: combined_def)
    have "covers (RegionRects reg2) x y \<longleftrightarrow> covers (RegionRects reg) x y \<or> ybot \<le> y \<and> y < ybot' \<and> combined r1 r2 x y" for x y
    proof (cases "y < ?ytop")
      case True
      with \<open>?ytop < ybot'\<close> have "y < ybot'" by linarith
      then show ?thesis using oc [of x y] nc [of x y] True unfolding m by auto
    next
      case False
      then have "?ytop \<le> y" by linarith
      with yt have "ybot \<le> y" by linarith
      then show ?thesis using oc [of x y] nc [of x y] False comb [OF \<open>?ytop \<le> y\<close>, of x] \<open>?ytop \<le> y\<close> unfolding m by blast
    qed
    then show thesis using that body o(2,3) n(3) by simp
  qed
qed

text \<open>Dropping the bands that end at \<open>ybot\<close>.\<close>

lemma advance_correct:
  assumes "banded r" "r \<noteq> []" "lim \<le> y2 (hd r)"
  defines "r' \<equiv> (if y2 (hd r) = lim then snd (FindBand r) else r)"
  shows "banded r'" "\<forall>b \<in> set r'. lim < y2 b" "lim \<le> y \<Longrightarrow> covers r' x y = covers r x y"
    "y2 (hd r) = lim \<Longrightarrow> r' \<noteq> [] \<Longrightarrow> lim \<le> y1 (hd r')"
proof -
  note b = FindBand_banded [OF assms(1,2)]
  show "banded r'" using b(4) assms(1) by (simp add: r'_def)
  have "y2 (hd r) \<le> y2 b" if "b \<in> set r" for b
  proof -
    have "b = hd r \<or> before (hd r) b" "valid_box b" using that assms(1,2) by (cases r; auto simp: banded_def)+
    then show ?thesis by (auto simp: before_def valid_box_def)
  qed
  moreover have "lim < y2 b" if "y2 (hd r) = lim" "b \<in> set (snd (FindBand r))" for b
    using that b(4,5) by (force simp: banded_def valid_box_def)
  ultimately show "\<forall>b \<in> set r'. lim < y2 b"
    using assms(3) by (cases "y2 (hd r) = lim") (auto simp: r'_def intro: less_le_trans [of lim "y2 (hd r)"])
  show "covers r' x y = covers r x y" if "lim \<le> y"
    using covers_FindBand [OF assms(1,2), of x y] that by (auto simp: r'_def)
  show "lim \<le> y1 (hd r')" if "y2 (hd r) = lim" "r' \<noteq> []"
    using b(5) that by (simp add: r'_def)
qed

lemma RegionOp_loop_correct:
  assumes "building reg p ybot" "inputs_ok r1 r2 ybot"
  shows "\<exists>k' reg' p' ybot' s1 s2.
     RegionOp_loop f (S True False) (S False True) alloc_ok k reg p ybot ov r1 r2 = (k', reg', p', ybot',
       ov \<or> flags \<and> (\<exists>x y. ybot \<le> y \<and> covers r1 x y \<and> covers r2 x y), s1, s2) \<and>
     building reg' p' ybot' \<and> extents reg' = extents reg \<and> inputs_ok s1 s2 ybot' \<and> (s1 = [] \<or> s2 = []) \<and>
     (\<forall>x y. (covers (RegionRects reg') x y \<or> ybot' \<le> y \<and> combined s1 s2 x y) \<longleftrightarrow>
        (covers (RegionRects reg) x y \<or> ybot \<le> y \<and> combined r1 r2 x y))"
  using assms
proof (induction "length r1 + length r2" arbitrary: k reg p ybot ov r1 r2 rule: less_induct)
  case less
  show ?case
  proof (cases "r1 = [] \<or> r2 = []")
    case True
    then have none_common: "(\<exists>x y. ybot \<le> y \<and> covers r1 x y \<and> covers r2 x y) = False" by auto
    have "RegionOp_loop f (S True False) (S False True) alloc_ok k reg p ybot ov r1 r2 = (k, reg, p, ybot, ov, r1, r2)"
      by (subst RegionOp_loop.simps) (simp only: True if_True)
    then show ?thesis unfolding none_common using True less.prems by simp
  next
    case False
    then have ne: "r1 \<noteq> []" "r2 \<noteq> []" by auto
    define yb where yb: "yb = min (y2 (hd r1)) (y2 (hd r2))"
    have either: "y2 (hd r1) = yb \<or> y2 (hd r2) = yb" and below: "yb \<le> y2 (hd r1)" "yb \<le> y2 (hd r2)"
      unfolding yb by linarith+
    let ?s1 = "if y2 (hd r1) = yb then snd (FindBand r1) else r1"
    let ?s2 = "if y2 (hd r2) = yb then snd (FindBand r2) else r2"
    have "ybot < y2 (hd r1)" "ybot < y2 (hd r2)" and i: "banded r1" "banded r2"
      using less.prems(2) hd_in_set [OF ne(1)] hd_in_set [OF ne(2)] unfolding inputs_ok_def by blast+
    then have le: "ybot \<le> yb" unfolding yb by linarith
    note a1 = advance_correct [OF i(1) ne(1) below(1)]
      and a2 = advance_correct [OF i(2) ne(2) below(2)]
    let ?ov = "ov \<or> flags \<and> (\<exists>x y. ybot \<le> y \<and> y < yb \<and> covers r1 x y \<and> covers r2 x y)"
    obtain k1 reg1 p1 where
      body: "RegionOp_body f (S True False) (S False True) alloc_ok k reg p ybot ov r1 r2 = (k1, reg1, p1, yb, ?ov)"
        "building reg1 p1 yb" "extents reg1 = extents reg"
      and bc: "\<And>x y. covers (RegionRects reg1) x y \<longleftrightarrow>
          covers (RegionRects reg) x y \<or> ybot \<le> y \<and> y < yb \<and> combined r1 r2 x y"
      by (rule RegionOp_body_correct [OF less.prems ne, of k ov, folded yb]) (rule that; (assumption | blast))
    have inp: "inputs_ok ?s1 ?s2 yb" 
      unfolding inputs_ok_def ball_Un by (intro conjI a1(1,2) a2(1,2)) (use a1(4) a2(4) either in blast)
    have len: "length (if c then snd (FindBand r) else r) \<le> length r" "c \<Longrightarrow> length (if c then snd (FindBand r) else r) < length r"
      if "r \<noteq> []" for c r
      using FindBand_shorter [OF that] by simp_all
    have "length ?s1 + length ?s2 < length r1 + length r2"
      using either
    proof
      assume "y2 (hd r1) = yb"
      then show ?thesis by (rule add_less_le_mono [OF len(2) [OF ne(1)] len(1) [OF ne(2)]])
    next
      assume "y2 (hd r2) = yb"
      then show ?thesis by (rule add_le_less_mono [OF len(1) [OF ne(1)] len(2) [OF ne(2)]])
    qed
    from less.hyps [OF this body(2) inp, of k1 ?ov] obtain k' reg' p' ybot' s1 s2 where
      IH: "RegionOp_loop f (S True False) (S False True) alloc_ok k1 reg1 p1 yb ?ov ?s1 ?s2 = (k', reg', p', ybot',
          ?ov \<or> flags \<and> (\<exists>x y. yb \<le> y \<and> covers ?s1 x y \<and> covers ?s2 x y), s1, s2)"
        "building reg' p' ybot'" "extents reg' = extents reg1" "inputs_ok s1 s2 ybot'" "s1 = [] \<or> s2 = []"
      and IHc: "\<And>x y. (covers (RegionRects reg') x y \<or> ybot' \<le> y \<and> combined s1 s2 x y) \<longleftrightarrow>
          (covers (RegionRects reg1) x y \<or> yb \<le> y \<and> combined ?s1 ?s2 x y)" by blast
    have rest: "yb \<le> y \<and> covers ?s1 x y \<and> covers ?s2 x y \<longleftrightarrow> yb \<le> y \<and> covers r1 x y \<and> covers r2 x y"
      "yb \<le> y \<and> combined ?s1 ?s2 x y \<longleftrightarrow> yb \<le> y \<and> combined r1 r2 x y" for x y
      unfolding combined_def by (rule conj_cong [OF refl]; simp only: a1(3) a2(3))+
    have flag: "(?ov \<or> flags \<and> (\<exists>x y. yb \<le> y \<and> covers ?s1 x y \<and> covers ?s2 x y)) =
        (ov \<or> flags \<and> (\<exists>x y. ybot \<le> y \<and> covers r1 x y \<and> covers r2 x y))"
    proof -
      have "(ybot \<le> y \<and> covers r1 x y \<and> covers r2 x y) \<longleftrightarrow>
          (ybot \<le> y \<and> y < yb \<and> covers r1 x y \<and> covers r2 x y) \<or> (yb \<le> y \<and> covers r1 x y \<and> covers r2 x y)" for x y
        using le by (cases "yb \<le> y") auto
      then have "(\<exists>x y. ybot \<le> y \<and> covers r1 x y \<and> covers r2 x y) \<longleftrightarrow>
          (\<exists>x y. ybot \<le> y \<and> y < yb \<and> covers r1 x y \<and> covers r2 x y) \<or> (\<exists>x y. yb \<le> y \<and> covers r1 x y \<and> covers r2 x y)"
        by (simp only: ex_disj_distrib)
      then show ?thesis unfolding rest(1) by blast
    qed
    have cov: "(covers (RegionRects reg') x y \<or> ybot' \<le> y \<and> combined s1 s2 x y) \<longleftrightarrow>
        (covers (RegionRects reg) x y \<or> ybot \<le> y \<and> combined r1 r2 x y)" for x y
    proof (cases "yb \<le> y")
      case True
      then show ?thesis using IHc [of x y] rest(2) [of y x] bc [of x y] le by simp
    next
      case False
      then show ?thesis using IHc [of x y] bc [of x y] by simp
    qed
    have "RegionOp_loop f (S True False) (S False True) alloc_ok k reg p ybot ov r1 r2 = (k', reg', p', ybot',
        ov \<or> flags \<and> (\<exists>x y. ybot \<le> y \<and> covers r1 x y \<and> covers r2 x y), s1, s2)"
      using ne IH(1) unfolding flag by (subst RegionOp_loop.simps) (simp only: Let_def yb [symmetric] body(1) fst_conv snd_conv, simp)
    then show ?thesis using IH(2-5) body(3) cov by (intro exI [of _ k'] exI [of _ reg'] exI [of _ p']
          exI [of _ ybot'] exI [of _ s1] exI [of _ s2]) simp
  qed
qed

lemma RegionOp_start_correct:
  assumes "0 < n1"
  shows "\<exists>k' reg'. RegionOp_start alloc_ok k same1 same2 newReg n1 n2 = (True, k', reg') \<and>
     data_reg reg' \<and> RegionRects reg' = [] \<and> extents reg' = extents newReg"
  using assms
  by (auto simp: RegionOp_start_def RegionRectAlloc_def RegionSize_def data_reg_def RegionRects_def Let_def max_def
      split: RegData.split)

text \<open>The boxes both regions have left go to the result, if wanted.\<close>

lemma RegionOp_leftover:
  assumes "building reg p ybot" "inputs_ok s1 s2 ybot" "s1 = [] \<or> s2 = []"
  shows "\<exists>k' reg'. (if s1 \<noteq> [] \<and> S True False then RegionOp_rest alloc_ok k reg p ybot s1
       else if s2 \<noteq> [] \<and> S False True then RegionOp_rest alloc_ok k reg p ybot s2 else (True, k, reg)) = (True, k', reg') \<and>
     data_reg reg' \<and> extents reg' = extents reg \<and> banded (RegionRects reg') \<and>
     (\<forall>x y. covers (RegionRects reg') x y \<longleftrightarrow> covers (RegionRects reg) x y \<or> ybot \<le> y \<and> combined s1 s2 x y)"
proof -
  have b: "banded s1" "banded s2" "\<forall>b \<in> set s1. ybot < y2 b" "\<forall>b \<in> set s2. ybot < y2 b"
    using assms(2) by (auto simp: inputs_ok_def)
  have comb: "combined s1 s2 x y = (if s1 \<noteq> [] \<and> S True False then covers s1 x y
      else if s2 \<noteq> [] \<and> S False True then covers s2 x y else False)" for x y
    using assms(3) none unfolding combined_def by (cases "covers s1 x y"; cases "covers s2 x y") auto
  consider "s1 \<noteq> [] \<and> S True False" | "\<not> (s1 \<noteq> [] \<and> S True False)" "s2 \<noteq> [] \<and> S False True"
    | "\<not> (s1 \<noteq> [] \<and> S True False)" "\<not> (s2 \<noteq> [] \<and> S False True)" by blast
  then show ?thesis
  proof cases
    case 1
    obtain k' reg' where "RegionOp_rest alloc_ok k reg p ybot s1 = (True, k', reg')" "data_reg reg'"
        "extents reg' = extents reg" "banded (RegionRects reg')"
        "\<And>x y. covers (RegionRects reg') x y \<longleftrightarrow> covers (RegionRects reg) x y \<or> ybot \<le> y \<and> covers s1 x y"
      by (rule RegionOp_rest_correct [OF assms(1) b(1) conjunct1 [OF 1] b(3), of k]) (rule that; (assumption | blast))
    then show ?thesis unfolding comb using 1 by simp
  next
    case 2
    obtain k' reg' where "RegionOp_rest alloc_ok k reg p ybot s2 = (True, k', reg')" "data_reg reg'"
        "extents reg' = extents reg" "banded (RegionRects reg')"
        "\<And>x y. covers (RegionRects reg') x y \<longleftrightarrow> covers (RegionRects reg) x y \<or> ybot \<le> y \<and> covers s2 x y"
      by (rule RegionOp_rest_correct [OF assms(1) b(2) conjunct1 [OF 2(2)] b(4), of k]) (rule that; (assumption | blast))
    then show ?thesis unfolding comb using 2 by (simp only: if_False if_True simp_thms) blast
  next
    case 3
    then show ?thesis unfolding comb using assms(1) by (simp only: if_False) (auto simp: building_def out_ok_def)
  qed
qed

lemma RegionOp_run:
  assumes nar: "\<not> RegionNar reg1" "\<not> RegionNar reg2" and b: "banded (RegionRects reg1)" "banded (RegionRects reg2)"
    and ne: "RegionRects reg1 \<noteq> []" "RegionRects reg2 \<noteq> []"
  shows "\<exists>k' reg'. RegionOp alloc_ok k same1 same2 newReg reg1 reg2 f (S True False) (S False True) ov = (True, k', reg',
       ov \<or> flags \<and> (\<exists>x y. covers (RegionRects reg1) x y \<and> covers (RegionRects reg2) x y)) \<and>
     op_result newReg reg' (combined (RegionRects reg1) (RegionRects reg2))"
proof -
  let ?r1 = "RegionRects reg1" and ?r2 = "RegionRects reg2"
  define yb where "yb = min (y1 (hd ?r1)) (y1 (hd ?r2))"
  have first: "y1 (hd r) \<le> y1 c" "y1 c < y2 c" if "banded r" "r \<noteq> []" "c \<in> set r" for r c
    using that by (cases r; auto simp: before_def valid_box_def banded_def; fail)+
  have above: "yb \<le> y" if "covers ?r1 x y \<or> covers ?r2 x y" for x y
    using that first(1) [OF b(1) ne(1)] first(1) [OF b(2) ne(2)] by (force simp: yb_def covers_def INBOX_def)
  have inp: "inputs_ok ?r1 ?r2 yb"
    using b first [OF b(1) ne(1)] first [OF b(2) ne(2)] by (force simp: inputs_ok_def yb_def)
  obtain k0 new0 where start: "RegionOp_start alloc_ok k same1 same2 newReg (length ?r1) (length ?r2) = (True, k0, new0)"
    and new0: "data_reg new0" "RegionRects new0 = []" "extents new0 = extents newReg"
    using RegionOp_start_correct [of "length ?r1" k same1 same2 newReg "length ?r2"] ne(1) by auto
  have "building new0 0 yb" using new0 by (simp add: building_def out_ok_def)
  from RegionOp_loop_correct [OF this inp, of k0 ov] obtain k1 new1 p ybot s1 s2 where
    loop: "RegionOp_loop f (S True False) (S False True) alloc_ok k0 new0 0 yb ov ?r1 ?r2 = (k1, new1, p, ybot,
        ov \<or> flags \<and> (\<exists>x y. yb \<le> y \<and> covers ?r1 x y \<and> covers ?r2 x y), s1, s2)"
      "building new1 p ybot" "extents new1 = extents new0" "inputs_ok s1 s2 ybot" "s1 = [] \<or> s2 = []"
    and lc: "\<forall>x y. (covers (RegionRects new1) x y \<or> ybot \<le> y \<and> combined s1 s2 x y) \<longleftrightarrow>
        (covers (RegionRects new0) x y \<or> yb \<le> y \<and> combined ?r1 ?r2 x y)" by blast
  obtain k2 new2 where left: "(if s1 \<noteq> [] \<and> S True False then RegionOp_rest alloc_ok k1 new1 p ybot s1
      else if s2 \<noteq> [] \<and> S False True then RegionOp_rest alloc_ok k1 new1 p ybot s2 else (True, k1, new1)) = (True, k2, new2)"
    and l2: "data_reg new2" "extents new2 = extents new1" "banded (RegionRects new2)"
    and l2c: "\<forall>x y. covers (RegionRects new2) x y \<longleftrightarrow> covers (RegionRects new1) x y \<or> ybot \<le> y \<and> combined s1 s2 x y"
    using RegionOp_leftover [OF loop(2,4,5), of k1] by blast
  obtain k3 new3 where fin: "RegionOp_finish alloc_ok k2 new2 = (k3, new3)" "RegionRects new3 = RegionRects new2" "wf_reg new3"
      "RegionNar new3 = False" "rdata new3 = NullData \<longleftrightarrow> length (RegionRects new2) = 1"
      "length (RegionRects new2) = 1 \<or> extents new3 = extents new2"
    by (rule RegionOp_finish_correct [OF l2(1)])
  have flag: "(\<exists>x y. yb \<le> y \<and> covers ?r1 x y \<and> covers ?r2 x y) = (\<exists>x y. covers ?r1 x y \<and> covers ?r2 x y)"
    using above by blast
  have "combined ?r1 ?r2 x y \<Longrightarrow> yb \<le> y" for x y
    using above [of x y] none unfolding combined_def by (cases "covers ?r1 x y"; cases "covers ?r2 x y") auto
  then have "covers (RegionRects new3) x y = combined ?r1 ?r2 x y" for x y
    using lc l2c unfolding fin(2) new0(2) by auto
  moreover have "RegionOp alloc_ok k same1 same2 newReg reg1 reg2 f (S True False) (S False True) ov =
      (True, k3, new3, ov \<or> flags \<and> (\<exists>x y. covers ?r1 x y \<and> covers ?r2 x y))"
    unfolding RegionOp_def Let_def yb_def [symmetric] using nar by (simp add: start loop(1) left fin(1) flag)
  ultimately show ?thesis
    using fin(2-6) l2(2,3) loop(3) new0(3) by (auto simp: op_result_def)
qed

end

section \<open>Union of bands\<close>

lemma in_row_sorted: "xband (b # rs) \<Longrightarrow> in_row rs x \<Longrightarrow> x2 b < x"
  by (auto simp: xband_def in_row_def)

lemma union_pick:
  assumes "xband (a # r1)" "xband r2" "\<forall>c \<in> set r2. x1 a \<le> x1 c"
  shows "\<forall>c \<in> set r1 \<union> set r2. x1 a \<le> x1 c"
    "(\<exists>x. in_row (a # r1) x \<and> in_row r2 x) \<longleftrightarrow> (\<exists>c \<in> set r1 \<union> set r2. x1 c < x2 a) \<or> (\<exists>x. in_row r1 x \<and> in_row r2 x)"
proof -
  have a: "x1 a < x2 a" "\<forall>c \<in> set r1. x2 a < x1 c" "\<forall>c \<in> set r2. x1 c < x2 c"
    using assms(1,2) by (auto simp: xband_def)
  then show "\<forall>c \<in> set r1 \<union> set r2. x1 a \<le> x1 c" using assms(3) by force
  have "(\<exists>x. x1 a \<le> x \<and> x < x2 a \<and> in_row r2 x) \<longleftrightarrow> (\<exists>c \<in> set r1 \<union> set r2. x1 c < x2 a)"
  proof
    assume "\<exists>c \<in> set r1 \<union> set r2. x1 c < x2 a"
    then obtain c where "c \<in> set r2" "x1 c < x2 a" using a(2) by force
    then show "\<exists>x. x1 a \<le> x \<and> x < x2 a \<and> in_row r2 x"
      using assms(3) a(3) by (intro exI [of _ "x1 c"]) (auto simp: in_row_def)
  qed (force simp: in_row_def)
  then show "(\<exists>x. in_row (a # r1) x \<and> in_row r2 x) \<longleftrightarrow>
      (\<exists>c \<in> set r1 \<union> set r2. x1 c < x2 a) \<or> (\<exists>x. in_row r1 x \<and> in_row r2 x)"
    unfolding in_row_simps(2) by blast
qed

lemma xband_ConsD: "xband (b # rs) \<Longrightarrow> xband rs \<and> x1 b < x2 b \<and> (\<forall>c \<in> set rs. x1 b \<le> x1 c)"
  by (force simp: xband_def)

lemma union_next_props:
  assumes "union_next r1 r2 = Some (r, s1, s2)" "xband r1" "xband r2"
  shows "xband s1" "xband s2" "x1 r < x2 r" "\<forall>b \<in> set s1 \<union> set s2. x1 r \<le> x1 b"
    "in_row r1 x \<or> in_row r2 x \<longleftrightarrow> (x1 r \<le> x \<and> x < x2 r) \<or> in_row s1 x \<or> in_row s2 x"
    "(\<exists>x. in_row r1 x \<and> in_row r2 x) \<longleftrightarrow> (\<exists>b \<in> set s1 \<union> set s2. x1 b < x2 r) \<or> (\<exists>x. in_row s1 x \<and> in_row s2 x)"
    "r \<in> set r1 \<union> set r2"
proof -
  consider "r1 = r # s1" "s2 = r2" "\<forall>c \<in> set r2. x1 r \<le> x1 c" | "r2 = r # s2" "s1 = r1" "\<forall>c \<in> set r1. x1 r \<le> x1 c"
    using assms(1) xband_ConsD [of "hd r1" "tl r1"] xband_ConsD [of "hd r2" "tl r2"] assms(2,3)
    by (cases r1; cases r2) (force split: if_splits)+
  then have "xband s1 \<and> xband s2 \<and> x1 r < x2 r \<and> (\<forall>b \<in> set s1 \<union> set s2. x1 r \<le> x1 b) \<and>
      (in_row r1 x \<or> in_row r2 x \<longleftrightarrow> (x1 r \<le> x \<and> x < x2 r) \<or> in_row s1 x \<or> in_row s2 x) \<and>
      ((\<exists>x. in_row r1 x \<and> in_row r2 x) \<longleftrightarrow> (\<exists>b \<in> set s1 \<union> set s2. x1 b < x2 r) \<or> (\<exists>x. in_row s1 x \<and> in_row s2 x)) \<and>
      r \<in> set r1 \<union> set r2"
  proof cases
    case 1
    then show ?thesis using union_pick [of r s1 r2] assms(2,3) xband_ConsD [of r s1] by auto
  next
    case 2
    have "(\<exists>x. in_row r1 x \<and> in_row r2 x) = (\<exists>x. in_row r2 x \<and> in_row r1 x)" by blast
    then show ?thesis using 2 union_pick [of r s2 r1] assms(2,3) xband_ConsD [of r s2] by auto
  qed
  then show "xband s1" "xband s2" "x1 r < x2 r" "\<forall>b \<in> set s1 \<union> set s2. x1 r \<le> x1 b"
    "in_row r1 x \<or> in_row r2 x \<longleftrightarrow> (x1 r \<le> x \<and> x < x2 r) \<or> in_row s1 x \<or> in_row s2 x"
    "(\<exists>x. in_row r1 x \<and> in_row r2 x) \<longleftrightarrow> (\<exists>b \<in> set s1 \<union> set s2. x1 b < x2 r) \<or> (\<exists>x. in_row s1 x \<and> in_row s2 x)"
    "r \<in> set r1 \<union> set r2" by blast+
qed

text \<open>Whether a box of the rest starts before \<open>r\<close> ends decides whether the next box overlaps.\<close>

lemma union_next_rest: "union_next r1 r2 = Some (r, s1, s2) \<Longrightarrow> set r1 \<union> set r2 = insert r (set s1 \<union> set s2)"
  by (induction r1 r2 rule: union_next.induct) (auto split: if_splits)

lemma MERGERECTS_correct:
  assumes "data_reg reg" "xband r1" "xband r2" "lx < rx" "\<forall>b \<in> set r1 \<union> set r2. lx \<le> x1 b"
  shows "\<exists>k' reg' bs. MERGERECTS alloc_ok k reg t u lx rx ov r1 r2 = (True, k', reg',
       ov \<or> (\<exists>b \<in> set r1 \<union> set r2. x1 b < rx) \<or> (\<exists>x. in_row r1 x \<and> in_row r2 x)) \<and>
     grows reg reg' bs \<and> rows t u bs \<and> xband bs \<and> (\<forall>b \<in> set bs. lx \<le> x1 b) \<and>
     (\<forall>x. in_row bs x \<longleftrightarrow> (lx \<le> x \<and> x < rx) \<or> in_row r1 x \<or> in_row r2 x)"
  using assms
proof (induction "length r1 + length r2" arbitrary: k reg lx rx ov r1 r2 rule: less_induct)
  case less
  obtain k1 reg1 where new: "NEWRECT alloc_ok k reg (mkBox lx t rx u) = (True, k1, reg1)" "grows reg reg1 [mkBox lx t rx u]"
    using NEWRECT_grows [OF data_reg_wf [OF less.prems(1)], of k "mkBox lx t rx u"] by blast
  note unf = MERGERECTS.simps [of alloc_ok k reg t u lx rx ov r1 r2]
  show ?case
  proof (cases "union_next r1 r2")
    case None
    then have e: "r1 = []" "r2 = []" by (cases r1; cases r2; auto split: if_splits)+
    show ?thesis using unf new less.prems(4) unfolding e
      by (intro exI [of _ k1] exI [of _ reg1] exI [of _ "[mkBox lx t rx u]"]) (simp add: xband_def)
  next
    case (Some n)
    then obtain r s1 s2 where n: "union_next r1 r2 = Some (r, s1, s2)" by (metis prod_cases3)
    note u = union_next_props [OF n less.prems(2,3)]
    note sm = union_next_shorter [OF n]
    have all: "set r1 \<union> set r2 = insert r (set s1 \<union> set s2)" by (rule union_next_rest [OF n])
    have lxr: "lx \<le> x1 r" "\<forall>b \<in> set s1 \<union> set s2. lx \<le> x1 b" using less.prems(5) all by auto
    show ?thesis
    proof (cases "x1 r \<le> rx")
      case True
      let ?rx = "if rx < x2 r then x2 r else rx"
      have "lx < ?rx" using less.prems(4) by simp
      from less.hyps [OF sm less.prems(1) u(1,2) this lxr(2), of k "ov \<or> x1 r < rx"] obtain k' reg' bs where
        IH: "MERGERECTS alloc_ok k reg t u lx ?rx (ov \<or> x1 r < rx) s1 s2 = (True, k', reg',
            (ov \<or> x1 r < rx) \<or> (\<exists>b \<in> set s1 \<union> set s2. x1 b < ?rx) \<or> (\<exists>x. in_row s1 x \<and> in_row s2 x))"
          "grows reg reg' bs" "rows t u bs" "xband bs" "\<forall>b \<in> set bs. lx \<le> x1 b"
        and IHr: "\<forall>x. in_row bs x \<longleftrightarrow> (lx \<le> x \<and> x < ?rx) \<or> in_row s1 x \<or> in_row s2 x" by blast
      have flag: "((ov \<or> x1 r < rx) \<or> (\<exists>b \<in> set s1 \<union> set s2. x1 b < ?rx) \<or> (\<exists>x. in_row s1 x \<and> in_row s2 x)) \<longleftrightarrow>
          ov \<or> (\<exists>b \<in> set r1 \<union> set r2. x1 b < rx) \<or> (\<exists>x. in_row r1 x \<and> in_row r2 x)"
        unfolding all u(6) using u(4) True by force
      have "in_row bs x \<longleftrightarrow> (lx \<le> x \<and> x < rx) \<or> in_row r1 x \<or> in_row r2 x" for x
        using IHr [rule_format, of x] u(5) [of x] True lxr(1) u(3) by auto
      then show ?thesis using unf IH True unfolding flag by (intro exI [of _ k'] exI [of _ reg'] exI [of _ bs]) (simp add: n)
    next
      case False
      have d1: "data_reg reg1" using new(2) by (simp add: grows_def)
      from less.hyps [OF sm d1 u(1-4), of k1 ov] obtain k' reg' bs where
        IH: "MERGERECTS alloc_ok k1 reg1 t u (x1 r) (x2 r) ov s1 s2 = (True, k', reg',
            ov \<or> (\<exists>b \<in> set s1 \<union> set s2. x1 b < x2 r) \<or> (\<exists>x. in_row s1 x \<and> in_row s2 x))"
          "grows reg1 reg' bs" "rows t u bs" "xband bs" "\<forall>b \<in> set bs. x1 r \<le> x1 b"
        and IHr: "\<forall>x. in_row bs x \<longleftrightarrow> (x1 r \<le> x \<and> x < x2 r) \<or> in_row s1 x \<or> in_row s2 x" by blast
      have flag: "(ov \<or> (\<exists>b \<in> set s1 \<union> set s2. x1 b < x2 r) \<or> (\<exists>x. in_row s1 x \<and> in_row s2 x)) \<longleftrightarrow>
          ov \<or> (\<exists>b \<in> set r1 \<union> set r2. x1 b < rx) \<or> (\<exists>x. in_row r1 x \<and> in_row r2 x)"
        unfolding all u(6) using u(4) False by force
      let ?bs = "mkBox lx t rx u # bs"
      have "grows reg reg' ?bs" using grows_trans [OF new(2) IH(2)] by simp
      moreover have "xband ?bs" using IH(4,5) False less.prems(4) by (fastforce simp: xband_def)
      moreover have "\<forall>b \<in> set ?bs. lx \<le> x1 b" using IH(5) lxr(1) by fastforce
      moreover have "in_row ?bs x \<longleftrightarrow> (lx \<le> x \<and> x < rx) \<or> in_row r1 x \<or> in_row r2 x" for x
        using IHr [rule_format, of x] u(5) [of x] by simp
      ultimately show ?thesis using unf IH(1,3) False unfolding flag
        by (intro exI [of _ k'] exI [of _ reg'] exI [of _ ?bs]) (simp add: n new(1))
    qed
  qed
qed

lemma RegionUnionO_correct:
  assumes "data_reg reg" "xband r1" "xband r2" "r1 \<noteq> []" "r2 \<noteq> []"
  shows "\<exists>k' reg' bs. RegionUnionO alloc_ok k reg r1 r2 t u ov =
       (True, k', reg', ov \<or> (\<exists>x. in_row r1 x \<and> in_row r2 x)) \<and>
     grows reg reg' bs \<and> rows t u bs \<and> xband bs \<and> (\<forall>x. in_row bs x = (in_row r1 x \<or> in_row r2 x))"
proof -
  have "union_next r1 r2 \<noteq> None" using assms(4,5) by (cases r1; cases r2) auto
  then obtain r s1 s2 where n: "union_next r1 r2 = Some (r, s1, s2)" by (metis option.exhaust prod_cases3)
  note u = union_next_props [OF n assms(2,3)]
  obtain k' reg' bs where m: "MERGERECTS alloc_ok k reg t u (x1 r) (x2 r) ov s1 s2 = (True, k', reg',
        ov \<or> (\<exists>b \<in> set s1 \<union> set s2. x1 b < x2 r) \<or> (\<exists>x. in_row s1 x \<and> in_row s2 x))"
      "grows reg reg' bs" "rows t u bs" "xband bs"
      "\<forall>x. in_row bs x \<longleftrightarrow> (x1 r \<le> x \<and> x < x2 r) \<or> in_row s1 x \<or> in_row s2 x"
    using MERGERECTS_correct [OF assms(1) u(1-4), of k t u ov] by blast
  show ?thesis
    using m by (intro exI [of _ k'] exI [of _ reg'] exI [of _ bs]) (simp add: RegionUnionO_def n u(5,6))
qed

interpretation union_op: overlap_proc RegionUnionO "(\<or>)" True
  by unfold_locales (use RegionUnionO_correct in simp_all)

text \<open>
  The facts of the interface for the union, under names of their own; \<^verbatim>\<open>RegionValidate\<close> builds on them.
\<close>

lemmas RegionOp_union_run = union_op.RegionOp_run

lemma union_combined: "union_op.combined r1 r2 x y \<longleftrightarrow> covers r1 x y \<or> covers r2 x y"
  by (simp add: union_op.combined_def)

text \<open>C7. Combining two y-x banded regions by \<^verbatim>\<open>RegionOp\<close> with \<^verbatim>\<open>RegionUnionO\<close> succeeds when memory suffices. The
  result is y-x banded and covers exactly the points of the two; it is in the compact form if it is one
  box; and the overlap flag is set exactly when the two have a point in common.\<close>

theorem RegionOp_union_correct:
  assumes "\<not> RegionNar reg1" "\<not> RegionNar reg2" "banded (RegionRects reg1)" "banded (RegionRects reg2)"
    "RegionRects reg1 \<noteq> []" "RegionRects reg2 \<noteq> []"
  shows "\<exists>k' reg'. RegionOp alloc_ok k same1 same2 newReg reg1 reg2 RegionUnionO True True ov = (True, k', reg',
       ov \<or> (\<exists>x y. covers (RegionRects reg1) x y \<and> covers (RegionRects reg2) x y)) \<and>
     banded (RegionRects reg') \<and> (rdata reg' = NullData \<longleftrightarrow> length (RegionRects reg') = 1) \<and>
     (\<forall>x y. covers (RegionRects reg') x y \<longleftrightarrow> covers (RegionRects reg1) x y \<or> covers (RegionRects reg2) x y)"
  using RegionOp_union_run [OF assms, of k same1 same2 newReg ov] by (auto simp: op_result_def union_combined)

lemma RegionOp_union_correct_witness:
  "\<exists>k' reg'. RegionOp alloc_ok 0 False False \<lparr>extents = mkBox 0 0 0 0, rdata = RegionEmptyData\<rparr>
       \<lparr>extents = mkBox 0 0 2 3, rdata = NullData\<rparr> \<lparr>extents = mkBox 1 1 4 2, rdata = NullData\<rparr>
       RegionUnionO True True False = (True, k', reg', True) \<and> covers (RegionRects reg') 3 1 \<and> \<not> covers (RegionRects reg') 3 2"
proof -
  let ?a = "\<lparr>extents = mkBox 0 0 2 3, rdata = NullData\<rparr>" and ?b = "\<lparr>extents = mkBox 1 1 4 2, rdata = NullData\<rparr>"
  have "covers (RegionRects ?a) 1 1 \<and> covers (RegionRects ?b) 1 1" by (simp add: RegionRects_def INBOX_def)
  then have ov: "(\<exists>x y. covers (RegionRects ?a) x y \<and> covers (RegionRects ?b) x y) = True" by blast
  show ?thesis
    using RegionOp_union_correct [of ?a ?b 0 False False "\<lparr>extents = mkBox 0 0 0 0, rdata = RegionEmptyData\<rparr>" False]
    unfolding ov by (auto simp: RegionNar_def RegionRects_def INBOX_def valid_box_def)
qed


end
