(* ===== verification/Region_Sort.thy ===== *)
theory Region_Sort
  imports Region "HOL-Library.Multiset"
begin

text \<open>
  \<^verbatim>\<open>QuickSortRects\<close> sorts: the partition loop of the two scans keeps its invariant, and
  the result is a permutation of the boxes in order of their top and left sides.
\<close>

lemma rect_less_order:
  "\<not> rect_less a a" "rect_less a b \<Longrightarrow> \<not> rect_less b a"
  "\<not> rect_less b a \<Longrightarrow> \<not> rect_less c b \<Longrightarrow> \<not> rect_less c a"
  by (auto simp: rect_less_def)

text \<open>The order a sorted array has; it is transitive and total.\<close>

definition rect_le :: "Box \<Rightarrow> Box \<Rightarrow> bool" where
  "rect_le a b \<longleftrightarrow> \<not> rect_less b a"

lemma rect_le_trans: "rect_le a b \<Longrightarrow> rect_le b c \<Longrightarrow> rect_le a c"
  by (auto simp: rect_le_def dest: rect_less_order(3))

lemma sorted_pivot:
  "sorted_wrt rect_le xs \<Longrightarrow> sorted_wrt rect_le ys \<Longrightarrow> \<forall>x \<in> set xs. rect_le x p \<Longrightarrow> \<forall>y \<in> set ys. rect_le p y \<Longrightarrow>
     sorted_wrt rect_le (xs @ [p] @ ys)"
  by (auto simp: sorted_wrt_append intro: rect_le_trans)

lemma rect_less_le: "rect_less a b \<Longrightarrow> rect_le a b"
  by (simp add: rect_le_def rect_less_order(2))

lemma mset_ExchangeRects:
  "a < length rs \<Longrightarrow> b < length rs \<Longrightarrow> mset (ExchangeRects rs a b) = mset rs"
  by (simp add: ExchangeRects_def mset_swap)

lemma nth_ExchangeRects:
  "a < length rs \<Longrightarrow> b < length rs \<Longrightarrow> k < length rs \<Longrightarrow>
     ExchangeRects rs a b ! k = (if k = b then rs ! a else if k = a then rs ! b else rs ! k)"
  by (auto simp: ExchangeRects_def nth_list_update)

lemma scan_up_spec:
  assumes "i < length rs"
  shows "i < scan_up rs i \<and> scan_up rs i \<le> length rs \<and> (\<forall>k. i < k \<and> k < scan_up rs i \<longrightarrow> rect_le (rs ! k) (rs ! 0)) \<and>
     (scan_up rs i < length rs \<longrightarrow> rect_le (rs ! 0) (rs ! scan_up rs i))"
  using assms
proof (induction rs i rule: scan_up.induct)
  case (1 rs i)
  note unf = scan_up.simps [of rs i]
  show ?case
  proof (cases "i + 1 < length rs \<and> rect_less (rs ! (i + 1)) (rs ! 0)")
    case True
    then have IH: "i + 1 < scan_up rs (i + 1)" "scan_up rs (i + 1) \<le> length rs"
      "\<forall>k. i + 1 < k \<and> k < scan_up rs (i + 1) \<longrightarrow> rect_le (rs ! k) (rs ! 0)"
      "scan_up rs (i + 1) < length rs \<longrightarrow> rect_le (rs ! 0) (rs ! scan_up rs (i + 1))"
      using 1 by auto
    have "rect_le (rs ! k) (rs ! 0)" if "i < k" "k < scan_up rs (i + 1)" for k
      using that IH(3) True rect_less_le by (cases "k = i + 1") auto
    then show ?thesis using unf True IH by auto
  next
    case False
    then show ?thesis using unf 1(2) by (auto simp: rect_le_def)
  qed
qed

lemma scan_down_spec:
  "0 < j \<Longrightarrow> scan_down rs j < j \<and> (\<forall>k. scan_down rs j < k \<and> k < j \<longrightarrow> rect_le (rs ! 0) (rs ! k)) \<and>
     rect_le (rs ! scan_down rs j) (rs ! 0)"
proof (induction rs j rule: scan_down.induct)
  case (2 rs j)
  show ?case
  proof (cases "rect_less (rs ! 0) (rs ! j)")
    case True
    then have "0 < j" using rect_less_order(1) by (cases j) auto
    then show ?thesis using 2 True rect_less_le by (auto simp: less_Suc_eq)
  next
    case False
    then show ?thesis by (auto simp: rect_le_def)
  qed
qed simp

text \<open>The boxes up to \<open>i\<close> are not above the pivot, those from \<open>j\<close> on not below it.\<close>

definition split_at :: "Box list \<Rightarrow> nat \<Rightarrow> nat \<Rightarrow> bool" where
  "split_at rs i j \<longleftrightarrow> (\<forall>k. 0 < k \<and> k \<le> i \<longrightarrow> rect_le (rs ! k) (rs ! 0)) \<and>
     (\<forall>k. j \<le> k \<and> k < length rs \<longrightarrow> rect_le (rs ! 0) (rs ! k))"

lemma partition_rects_spec:
  assumes "i < j" "j \<le> length rs" "split_at rs i j"
  shows "mset (fst (partition_rects rs i j)) = mset rs \<and> fst (partition_rects rs i j) ! 0 = rs ! 0 \<and>
     split_at (fst (partition_rects rs i j)) (snd (partition_rects rs i j)) (snd (partition_rects rs i j) + 1)"
  using assms
proof (induction rs i j rule: partition_rects.induct)
  case (1 rs i j)
  let ?i = "scan_up rs i" and ?j = "scan_down rs j"
  have up: "i < ?i" "?i \<le> length rs" "\<And>k. i < k \<Longrightarrow> k < ?i \<Longrightarrow> rect_le (rs ! k) (rs ! 0)"
    "?i < length rs \<Longrightarrow> rect_le (rs ! 0) (rs ! ?i)"
    using scan_up_spec [of i rs] 1(2,3) by auto
  have down: "?j < j" "\<And>k. ?j < k \<Longrightarrow> k < j \<Longrightarrow> rect_le (rs ! 0) (rs ! k)" "rect_le (rs ! ?j) (rs ! 0)"
    using scan_down_spec [of j rs] 1(2) by auto
  note s = 1(4) [unfolded split_at_def]
  have low: "rect_le (rs ! k) (rs ! 0)" if "0 < k" "k < ?i" for k
    using that s up(3) by (cases "k \<le> i") auto
  have high: "rect_le (rs ! 0) (rs ! k)" if "?j < k" "k < length rs" for k
    using that s down(2) by (cases "j \<le> k") auto
  note unf = partition_rects.simps [of rs i j, unfolded Let_def]
  show ?case
  proof (cases "?i < ?j")
    case True
    let ?rs = "ExchangeRects rs ?i ?j"
    have b: "?i < length rs" "?j < length rs" "0 < ?i" using True up(1) down(1) 1(3) by auto
    note nth = nth_ExchangeRects [OF b(1,2)]
    have "0 < length rs" using b(1) by linarith
    then have z: "?rs ! 0 = rs ! 0" using nth [of 0] True b(3) by simp
    have "rect_le (?rs ! k) (rs ! 0)" if "0 < k" "k \<le> ?i" for k
      using that low [of k] nth [of k] b True down(3) by (cases "k = ?i") auto
    moreover have "rect_le (rs ! 0) (?rs ! k)" if "?j \<le> k" "k < length rs" for k
      using that high [of k] nth [of k] True up(4) b by (cases "k = ?j") auto
    ultimately have "split_at ?rs ?i ?j" by (simp add: split_at_def z)
    then show ?thesis
      using 1(1) [OF refl refl True] True b unf by (simp add: mset_ExchangeRects z)
  next
    case False
    have "split_at rs ?j (?j + 1)"
      unfolding split_at_def
    proof (intro conjI allI impI)
      fix k assume "0 < k \<and> k \<le> ?j"
      then show "rect_le (rs ! k) (rs ! 0)" using low [of k] down(3) False by (cases "k = ?j") auto
    next
      fix k assume "?j + 1 \<le> k \<and> k < length rs"
      then show "rect_le (rs ! 0) (rs ! k)" using high [of k] by simp
    qed
    then show ?thesis using unf False by simp
  qed
qed

lemma QuickSortRects_run:
  "mset (QuickSortRects rs) = mset rs \<and> sorted_wrt rect_le (QuickSortRects rs)"
proof (induction rs rule: QuickSortRects.induct)
  case (1 rs)
  note unf = QuickSortRects.simps [of rs]
  consider "rs = []" | a b where "rs = [a, b]" | "length rs \<noteq> 0" "length rs \<noteq> 2"
    by (cases rs; cases "tl rs"; cases "tl (tl rs)") auto
  then show ?case
  proof cases
    case 1
    then show ?thesis using unf by simp
  next
    case 2
    then show ?thesis using unf by (auto simp: ExchangeRects_def rect_le_def rect_less_def)
  next
    case 3
    let ?n = "length rs"
    let ?start = "ExchangeRects rs 0 (?n div 2)"
    let ?p = "partition_rects ?start 0 ?n"
    let ?j = "snd ?p" and ?rs = "ExchangeRects (fst ?p) 0 (snd ?p)"
    have bnd: "length (fst ?p) = ?n" "?j < ?n"
      using partition_rects_bounds [of ?n ?start 0] 3(1) by auto
    have part: "mset (fst ?p) = mset ?start" "split_at (fst ?p) ?j (?j + 1)"
    proof -
      have "split_at ?start 0 ?n" by (auto simp: split_at_def)
      then show "mset (fst ?p) = mset ?start" "split_at (fst ?p) ?j (?j + 1)"
        using partition_rects_spec [of 0 ?n ?start] 3(1) by simp_all
    qed
    have nth: "k < ?n \<Longrightarrow> ?rs ! k = (if k = ?j then fst ?p ! 0 else if k = 0 then fst ?p ! ?j else fst ?p ! k)" for k
      using nth_ExchangeRects [of 0 "fst ?p" ?j k] bnd 3(1) by simp
    have ms: "mset ?rs = mset rs"
      using mset_ExchangeRects [of 0 "fst ?p" ?j] mset_ExchangeRects [of 0 rs "?n div 2"] bnd part(1) 3(1) by simp
    have len: "length ?rs = ?n" using bnd by simp
    let ?l = "take ?j ?rs" and ?r = "drop (?j + 1) ?rs"
    have split: "?rs = ?l @ [?rs ! ?j] @ ?r" using bnd len by (simp add: Cons_nth_drop_Suc)
    let ?L = "if ?j > 1 then QuickSortRects ?l else ?l"
    let ?R = "if ?n - ?j - 1 > 1 then QuickSortRects ?r else ?r"
    have short: "length xs \<le> 1 \<Longrightarrow> sorted_wrt rect_le xs" for xs :: "Box list" by (cases xs) auto
    have L: "mset ?L = mset ?l \<and> sorted_wrt rect_le ?L"
      using 1(2) [OF 3 refl refl refl] short [of ?l] len bnd by (auto simp: min_def)
    have R: "mset ?R = mset ?r \<and> sorted_wrt rect_le ?R"
      using 1(1) [OF 3 refl refl refl] short [of ?r] len by auto
    have run: "QuickSortRects rs = ?L @ [?rs ! ?j] @ ?R" using unf 3 by (simp only: Let_def if_False)
    have piv: "?rs ! ?j = fst ?p ! 0" using nth [OF bnd(2)] by simp
    have lows: "rect_le x (?rs ! ?j)" if "x \<in> set ?l" for x
    proof -
      obtain k where "k < length ?l" "x = ?l ! k" using \<open>x \<in> set ?l\<close> by (metis in_set_conv_nth)
      then have k: "k < ?j" "x = ?rs ! k" by simp_all
      show ?thesis
        using part(2) k bnd(2) nth [of k] 3(1) unfolding piv split_at_def by (cases "k = 0") auto
    qed
    have highs: "rect_le (?rs ! ?j) x" if "x \<in> set ?r" for x
    proof -
      obtain k where "k < length ?r" "x = ?r ! k" using \<open>x \<in> set ?r\<close> by (metis in_set_conv_nth)
      then have k: "?j + 1 \<le> ?j + 1 + k" "?j + 1 + k < ?n" "x = ?rs ! (?j + 1 + k)" using len by auto
      then show ?thesis using part(2) nth [of "?j + 1 + k"] bnd(1) unfolding piv split_at_def by auto
    qed
    have sets: "set ?L = set ?l" "set ?R = set ?r" using L R by (metis set_mset_mset)+
    have "sorted_wrt rect_le (?L @ [?rs ! ?j] @ ?R)"
      by (rule sorted_pivot) (use L R lows highs in \<open>simp_all only: sets, blast+\<close>)
    moreover have "mset (?L @ [?rs ! ?j] @ ?R) = mset rs"
    proof -
      have "mset (?L @ [?rs ! ?j] @ ?R) = mset (?l @ [?rs ! ?j] @ ?r)" using L R by (simp only: mset_append)
      also have "\<dots> = mset ?rs" by (rule arg_cong [OF split [symmetric]])
      also have "\<dots> = mset rs" by (rule ms)
      finally show ?thesis .
    qed
    ultimately show ?thesis unfolding run by blast
  qed
qed

text \<open>C29. \<^verbatim>\<open>QuickSortRects\<close> ends for every array and sorts it: the result holds the same boxes, as often as
  before, ordered by their top and then by their left side.\<close>

theorem QuickSortRects_correct:
  "mset (QuickSortRects rs) = mset rs \<and> sorted_wrt (\<lambda>a b. y1 a < y1 b \<or> (y1 a = y1 b \<and> x1 a \<le> x1 b)) (QuickSortRects rs)"
proof -
  have "rect_le = (\<lambda>a b. y1 a < y1 b \<or> (y1 a = y1 b \<and> x1 a \<le> x1 b))"
    by (auto simp: rect_le_def rect_less_def fun_eq_iff)
  then show ?thesis using QuickSortRects_run [of rs] by simp
qed

end
