(* ===== verification/Region_Validate.thy ===== *)
theory Region_Validate
  imports Region_Op Region_Sort
begin

text \<open>
  \<^verbatim>\<open>RegionValidate\<close> and \<^verbatim>\<open>RegionFromRects\<close>: any collection of boxes becomes a y-x banded region
  that covers the same points, with the smallest extents, and the overlap flag says
  whether a point was covered twice. The proof follows the three steps of the code.
\<close>

section \<open>Tight extents\<close>

definition tight :: "Box \<Rightarrow> (int \<Rightarrow> int \<Rightarrow> bool) \<Rightarrow> bool" where
  "tight e P \<longleftrightarrow> (\<forall>x y. P x y \<longrightarrow> INBOX e x y) \<and> (\<exists>y. P (x1 e) y) \<and> (\<exists>y. P (x2 e - 1) y) \<and>
     (\<exists>x. P x (y1 e)) \<and> (\<exists>x. P x (y2 e - 1))"

lemma tight_le:
  assumes "tight e P" "tight e' P" shows "x1 e' \<le> x1 e \<and> x2 e \<le> x2 e' \<and> y1 e' \<le> y1 e \<and> y2 e \<le> y2 e'"
proof -
  obtain a b c d where "P (x1 e) a" "P (x2 e - 1) b" "P c (y1 e)" "P d (y2 e - 1)"
    using assms(1) unfolding tight_def by blast
  then have "INBOX e' (x1 e) a" "INBOX e' (x2 e - 1) b" "INBOX e' c (y1 e)" "INBOX e' d (y2 e - 1)"
    using assms(2) unfolding tight_def by blast+
  then show ?thesis by (simp add: INBOX_def)
qed

lemma tight_unique: "tight e P \<Longrightarrow> tight e' P \<Longrightarrow> e = e'"
  using tight_le [of e P e'] tight_le [of e' P e] by (intro Box.equality) auto

lemma tight_box: "valid_box b \<Longrightarrow> tight b (INBOX b)"
  by (auto simp: tight_def valid_box_def INBOX_def)

lemma tight_single: "banded [b] \<Longrightarrow> tight b (covers [b])"
  using tight_box [of b] by (simp add: tight_def)

lemma tight_widen:
  assumes "tight e P" "tight h Q" shows "tight (widen e h) (\<lambda>x y. P x y \<or> Q x y)"
proof -
  have "INBOX (widen e h) x y" if "INBOX e x y \<or> INBOX h x y" for x y
    using that by (auto simp: INBOX_def widen_def)
  then show ?thesis
    using assms unfolding tight_def by (auto simp: widen_def min_def max_def)
qed

section \<open>How often a point is covered\<close>

definition depth :: "Box list list \<Rightarrow> int \<Rightarrow> int \<Rightarrow> nat" where
  "depth rss x y = length (filter (\<lambda>rs. covers rs x y) rss)"

lemma depth_simps [simp]:
  "depth [] x y = 0" "depth (rs # rss) x y = (if covers rs x y then 1 else 0) + depth rss x y"
  "depth (rss @ tss) x y = depth rss x y + depth tss x y"
  by (simp_all add: depth_def)

lemma depth_pos: "0 < depth rss x y \<longleftrightarrow> (\<exists>rs \<in> set rss. covers rs x y)"
  by (induction rss) auto

definition boxes_depth :: "Box list \<Rightarrow> int \<Rightarrow> int \<Rightarrow> nat" where
  "boxes_depth bs x y = length (filter (\<lambda>b. INBOX b x y) bs)"

lemma boxes_depth_simps [simp]:
  "boxes_depth [] x y = 0" "boxes_depth (b # bs) x y = (if INBOX b x y then 1 else 0) + boxes_depth bs x y"
  "boxes_depth (bs @ cs) x y = boxes_depth bs x y + boxes_depth cs x y"
  by (simp_all add: boxes_depth_def)

lemma boxes_depth_pos: "0 < boxes_depth bs x y \<longleftrightarrow> covers bs x y"
  by (induction bs) auto

lemma boxes_depth_mset: "mset bs = mset cs \<Longrightarrow> boxes_depth bs = boxes_depth cs"
  by (metis (no_types, lifting) boxes_depth_def ext mset_filter size_mset)

section \<open>Scattering the sorted boxes\<close>

definition info_rects :: "RegionInfo \<Rightarrow> Box list" where
  "info_rects rit = RegionRects (ri_reg rit)"

text \<open>The extents while the region grows: exact to the left and above, and to the right of closed bands.\<close>

definition growing_extents :: "Box \<Rightarrow> Box list \<Rightarrow> Box list \<Rightarrow> bool" where
  "growing_extents e old cur \<longleftrightarrow>
     (\<forall>x y. covers (old @ cur) x y \<longrightarrow> x1 e \<le> x \<and> y1 e \<le> y) \<and> (\<exists>y. covers (old @ cur) (x1 e) y) \<and>
     (\<exists>x. covers (old @ cur) x (y1 e)) \<and> (\<forall>x y. covers old x y \<longrightarrow> x < x2 e) \<and> (\<exists>y. covers (old @ cur) (x2 e - 1) y)"

definition info_parts :: "RegionInfo \<Rightarrow> Box list \<Rightarrow> Box list \<Rightarrow> int \<Rightarrow> int \<Rightarrow> bool" where
  "info_parts rit old cur t u \<longleftrightarrow> data_reg (ri_reg rit) \<and> info_rects rit = old @ cur \<and> curBand rit = length old \<and>
     out_ok old (prevBand rit) t \<and> rows t u cur \<and> xband cur \<and> cur \<noteq> [] \<and> t < u \<and>
     growing_extents (extents (ri_reg rit)) old cur"

lemma rows_append: "rows t u (rs @ ss) \<longleftrightarrow> rows t u rs \<and> rows t u ss"
  by (auto simp: rows_def)

lemma xband_snoc: "xband (rs @ [b]) \<longleftrightarrow> xband rs \<and> x1 b < x2 b \<and> (\<forall>a \<in> set rs. x2 a < x1 b)"
  by (auto simp: xband_def sorted_wrt_append)

lemma in_row_append [simp]: "in_row (rs @ ss) x \<longleftrightarrow> in_row rs x \<or> in_row ss x"
  by (auto simp: in_row_def)

lemma info_parts_last: "info_parts rit old cur t u \<Longrightarrow> last (info_rects rit) = last cur \<and> last cur \<in> set cur \<and>
    y1 (last cur) = t \<and> y2 (last cur) = u"
  by (auto simp: info_parts_def rows_def)

lemma info_covers_above:
  "info_parts rit old cur t u \<Longrightarrow> covers (info_rects rit) x y \<Longrightarrow> y < u"
  using covers_rows [of t u cur x y] by (auto simp: info_parts_def out_ok_def covers_def INBOX_def)

lemma info_covers_band:
  "info_parts rit old cur t u \<Longrightarrow> t \<le> y \<Longrightarrow> y < u \<Longrightarrow> covers (info_rects rit) x y = in_row cur x"
  using covers_rows [of t u cur x y] by (auto simp: info_parts_def out_ok_def covers_def INBOX_def)

text \<open>In the last band every box but the last ends before the last one starts.\<close>

lemma xband_last: "xband cur \<Longrightarrow> cur \<noteq> [] \<Longrightarrow> \<forall>b \<in> set cur. x2 b \<le> x2 (last cur) \<and> (b = last cur \<or> x2 b < x1 (last cur))"
proof (induction cur)
  case (Cons a cur)
  show ?case
  proof (cases "cur = []")
    case False
    then have "x2 a < x1 (last cur)" "x1 (last cur) < x2 (last cur)" using Cons.prems(1) by (auto simp: xband_def)
    then have "x2 a < x1 (last cur) \<and> x2 a \<le> x2 (last cur)" by linarith
    moreover have "\<forall>b \<in> set cur. x2 b \<le> x2 (last cur) \<and> (b = last cur \<or> x2 b < x1 (last cur))"
      using Cons.IH Cons.prems(1) False by (simp add: xband_def)
    ultimately show ?thesis using False by simp
  qed simp
qed simp


definition info_ok :: "RegionInfo \<Rightarrow> bool" where
  "info_ok rit \<longleftrightarrow> (\<exists>old cur t u. info_parts rit old cur t u)"

text \<open>What a region becomes when a box is put into it; the next box is compared with its last one.\<close>

definition extended :: "RegionInfo \<Rightarrow> Box \<Rightarrow> RegionInfo \<Rightarrow> bool" where
  "extended rit box rit' \<longleftrightarrow> info_ok rit' \<and>
     (\<forall>x y. covers (info_rects rit') x y \<longleftrightarrow> covers (info_rects rit) x y \<or> INBOX box x y) \<and>
     (\<forall>b. rect_le (last (info_rects rit)) b \<longrightarrow> rect_le box b \<longrightarrow> rect_le (last (info_rects rit')) b)"

lemma rect_le_iff: "rect_le a b \<longleftrightarrow> y1 a < y1 b \<or> y1 a = y1 b \<and> x1 a \<le> x1 b"
  by (auto simp: rect_le_def rect_less_def)

lemma set_rects_data [simp]:
  "data_reg reg \<Longrightarrow> RegionRects (set_rects reg rs) = rs" "extents (set_rects reg rs) = extents reg"
  "data_reg reg \<Longrightarrow> length rs \<le> length (RegionRects reg) \<Longrightarrow> data_reg (set_rects reg rs)"
  by (auto simp: data_reg_def set_rects_def RegionRects_def split: RegData.split)

lemma growing_extents_wider:
  assumes "growing_extents e old cur" "\<And>x y. covers (old @ cur') x y \<longleftrightarrow> covers (old @ cur) x y \<or> P x y"
    "\<And>x y. P x y \<Longrightarrow> x1 e \<le> x \<and> y1 e \<le> y"
  shows "growing_extents e old cur'"
  using assms(1,3) unfolding growing_extents_def assms(2) by blast

text \<open>A box in the last band: it is merged with the last box or appended.\<close>

lemma place_in_band:
  assumes parts: "info_parts rit old (cur @ [l]) t u" and box: "valid_box box" "y1 box = t" "y2 box = u" "x1 l \<le> x1 box"
    and new: "data_reg reg'" "RegionRects reg' = old @ cur'" "extents reg' = extents (ri_reg rit)"
    and cur': "xband cur'" "rows t u cur'" "cur' \<noteq> []" "\<And>x. in_row cur' x \<longleftrightarrow> in_row (cur @ [l]) x \<or> x1 box \<le> x \<and> x < x2 box"
      "last cur' = box \<or> x1 (last cur') = x1 l"
  shows "extended rit box (rit\<lparr>ri_reg := reg'\<rparr>)"
proof -
  note p = parts [unfolded info_parts_def]
  have row: "covers cur' x y \<longleftrightarrow> covers (cur @ [l]) x y \<or> INBOX box x y" for x y
    using covers_rows [OF cur'(2), of x y] covers_rows [of t u "cur @ [l]" x y] p cur'(4) [of x] box
    by (auto simp: INBOX_def)
  have cov: "covers (old @ cur') x y \<longleftrightarrow> covers (old @ cur @ [l]) x y \<or> INBOX box x y" for x y
    using row [of x y] by auto
  have "x1 l < x2 l" "y1 l = t" "t < u" "y2 l = u" using p by (auto simp: xband_def rows_append)
  then have "covers (old @ cur @ [l]) (x1 l) t" by (simp add: INBOX_def)
  then have e: "x1 (extents reg') \<le> x1 l" "y1 (extents reg') \<le> t" using p new(3) by (auto simp: growing_extents_def)
  have "growing_extents (extents reg') old cur'"
  proof (rule growing_extents_wider [OF _ cov])
    show "growing_extents (extents reg') old (cur @ [l])" using p new(3) by simp
  qed (use e box in \<open>auto simp: INBOX_def\<close>)
  then have "info_parts (rit\<lparr>ri_reg := reg'\<rparr>) old cur' t u"
    using p new cur' by (simp add: info_parts_def info_rects_def)
  moreover have "last (info_rects rit) = l" "last (old @ cur') = last cur'" "y1 (last cur') = t"
    using p cur'(2,3) by (auto simp: rows_def)
  ultimately show ?thesis
    unfolding extended_def using cov p new cur'(5) box \<open>y1 l = t\<close>
    by (auto simp: info_ok_def info_rects_def rect_le_iff)
qed


lemma place_touching:
  assumes parts: "info_parts rit old (cur @ [l]) t u" and box: "valid_box box" "y1 box = t" "y2 box = u"
    "x1 l \<le> x1 box" "x1 box \<le> x2 l"
  defines "m \<equiv> (if x2 box > x2 l then l\<lparr>x2 := x2 box\<rparr> else l)"
  shows "extended rit box (rit\<lparr>ri_reg := set_rects (ri_reg rit) (old @ cur @ [m])\<rparr>)"
    "x1 box < x2 l \<longleftrightarrow> (\<exists>x y. covers (info_rects rit) x y \<and> INBOX box x y)"
proof -
  note p = parts [unfolded info_parts_def]
  have l: "x1 l < x2 l" "y1 l = t" "t < u" "y2 l = u" "rows t u cur" "xband cur" "\<forall>a \<in> set cur. x2 a < x1 l"
    using p by (auto simp: xband_snoc rows_append)
  have m: "x1 m = x1 l" "x2 m = max (x2 l) (x2 box)" "y1 m = t" "y2 m = u" using l by (auto simp: m_def)
  show "extended rit box (rit\<lparr>ri_reg := set_rects (ri_reg rit) (old @ cur @ [m])\<rparr>)"
  proof (rule place_in_band [OF parts box(1-4)])
    show "RegionRects (set_rects (ri_reg rit) (old @ cur @ [m])) = old @ cur @ [m]"
      "data_reg (set_rects (ri_reg rit) (old @ cur @ [m]))"
      using p by (simp_all add: info_rects_def)
    show "in_row (cur @ [m]) x \<longleftrightarrow> in_row (cur @ [l]) x \<or> x1 box \<le> x \<and> x < x2 box" for x
      using box m l(1) by (auto simp: max_def)
  qed (use l m in \<open>simp_all add: xband_snoc rows_append\<close>)
  have row: "covers (info_rects rit) x y \<and> INBOX box x y \<longleftrightarrow> in_row (cur @ [l]) x \<and> INBOX box x y" for x y
    using info_covers_band [OF parts, of y x] box by (auto simp: INBOX_def)
  have left: "\<not> in_row cur x" if "x1 l \<le> x" for x
    using l(7) that by (force simp: in_row_def)
  have meet: "covers (info_rects rit) x y \<and> INBOX box x y \<longleftrightarrow> x < x2 l \<and> INBOX box x y" for x y
    using row [of x y] left [of x] box by (auto simp: INBOX_def)
  have "INBOX box (x1 box) t" using box l by (simp add: INBOX_def valid_box_def)
  then show "x1 box < x2 l \<longleftrightarrow> (\<exists>x y. covers (info_rects rit) x y \<and> INBOX box x y)"
    unfolding meet by (force simp: INBOX_def)
qed

text \<open>A box to the right of the last one in its band.\<close>

lemma place_right:
  assumes parts: "info_parts rit old (cur @ [l]) t u" and box: "valid_box box" "y1 box = t" "y2 box = u" "x2 l < x1 box"
  shows "grows (ri_reg rit) reg' [box] \<Longrightarrow> extended rit box (rit\<lparr>ri_reg := reg'\<rparr>)"
    "\<not> (\<exists>x y. covers (info_rects rit) x y \<and> INBOX box x y)"
proof -
  note p = parts [unfolded info_parts_def]
  have l: "x1 l < x2 l" "y1 l = t" "t < u" "y2 l = u" "rows t u cur" "xband cur" "\<forall>a \<in> set cur. x2 a < x1 l"
    using p by (auto simp: xband_snoc rows_append)
  have far: "\<forall>a \<in> set (cur @ [l]). x2 a < x1 box" using l(1,7) box(4) by fastforce
  have le: "x1 l \<le> x1 box" using l(1) box(4) by simp
  show "extended rit box (rit\<lparr>ri_reg := reg'\<rparr>)" if grown: "grows (ri_reg rit) reg' [box]"
  proof (rule place_in_band [OF parts box(1-3) le])
    show "RegionRects reg' = old @ (cur @ [l] @ [box])" "data_reg reg'" "extents reg' = extents (ri_reg rit)"
      using grown p by (simp_all add: grows_def info_rects_def)
    show "xband (cur @ [l] @ [box])"
      using p far box(1) xband_snoc [of "cur @ [l]" box] by (simp add: valid_box_def)
  qed (use l box in \<open>auto simp: rows_append\<close>)
  have "\<not> in_row (cur @ [l]) x" if "x1 box \<le> x" for x
    using far that by (force simp: in_row_def)
  then show "\<not> (\<exists>x y. covers (info_rects rit) x y \<and> INBOX box x y)"
    using info_covers_band [OF parts] box by (auto simp: INBOX_def)
qed


text \<open>A box below the last band: the band is closed, perhaps merged into the one above, and a new one begins.\<close>

definition close_extents :: "RegionInfo \<Rightarrow> Box \<Rightarrow> Region" where
  "close_extents rit box = (let reg = ri_reg rit; e = extents reg
     in reg\<lparr>extents := e\<lparr>x2 := max (x2 e) (x2 (last (RegionRects reg))), x1 := min (x1 e) (x1 box)\<rparr>\<rparr>)"

lemma xband_bound: "xband (cur @ [l]) \<Longrightarrow> in_row (cur @ [l]) x \<Longrightarrow> x < x2 l"
  by (fastforce simp: xband_snoc in_row_def)

lemma close_extents_rects:
  "info_parts rit old cur t u \<Longrightarrow> data_reg (close_extents rit box) \<and> RegionRects (close_extents rit box) = old @ cur"
  by (auto simp: info_parts_def close_extents_def Let_def data_reg_def RegionRects_def info_rects_def split: RegData.split)

lemma close_band:
  assumes parts: "info_parts rit old cur t u"
  obtains p' reg2 where "Coalesce (close_extents rit box) (prevBand rit) (curBand rit) = (p', reg2)" "data_reg reg2"
    "extents reg2 = extents (close_extents rit box)" "out_ok (RegionRects reg2) p' u"
    "\<And>x y. covers (RegionRects reg2) x y = covers (old @ cur) x y"
  by (rule Coalesce_correct [of "close_extents rit box" old cur "prevBand rit" t t u])
    (use parts close_extents_rects [OF parts, of box] in \<open>auto simp: info_parts_def\<close>)

lemma place_below:
  assumes parts: "info_parts rit old (cur @ [l]) t u" and box: "valid_box box" "u \<le> y1 box"
    and coal: "Coalesce (close_extents rit box) (prevBand rit) (curBand rit) = (p', reg2)"
    and grown: "grows reg2 reg3 [box]"
  shows "extended rit box \<lparr>ri_reg = reg3, prevBand = p', curBand = RegionNumRects reg2\<rparr>"
proof -
  note p = parts [unfolded info_parts_def]
  let ?reg = "close_extents rit box" and ?e = "extents (ri_reg rit)"
  have r: "data_reg reg2" "extents reg2 = extents ?reg" "out_ok (RegionRects reg2) p' u"
    "\<And>x y. covers (RegionRects reg2) x y = covers (old @ (cur @ [l])) x y"
    by (rule close_band [OF parts, of box], use coal in \<open>simp\<close>)+
  have l: "x1 l < x2 l" "y1 l = t" "y2 l = u" "t < u" "xband (cur @ [l])" "rows t u (cur @ [l])"
    using p by (auto simp: xband_snoc rows_append)
  have ext: "x1 (extents reg3) = min (x1 ?e) (x1 box)" "x2 (extents reg3) = max (x2 ?e) (x2 l)" "y1 (extents reg3) = y1 ?e"
    using r(2) grown p by (simp_all add: grows_def close_extents_def Let_def info_rects_def)
  have gr: "growing_extents ?e old (cur @ [l])" using p by simp
  have lc: "covers (old @ cur @ [l]) (x2 l - 1) t" using l by (simp add: INBOX_def)
  have "y1 ?e \<le> t" using gr lc unfolding growing_extents_def by fastforce
  have cov: "covers (RegionRects reg2 @ [box]) x y \<longleftrightarrow> covers (info_rects rit) x y \<or> INBOX box x y" for x y
    using r(4) p by simp
  have info: "info_rects rit = old @ cur @ [l]" using p by simp
  have old: "covers (info_rects rit) x y \<Longrightarrow> x1 ?e \<le> x \<and> y1 ?e \<le> y" for x y
    using gr unfolding info growing_extents_def by blast
  have right: "x < x2 (extents reg3)" if "covers (RegionRects reg2) x y" for x y
  proof (cases "covers old x y")
    case True
    then have "x < x2 ?e" using gr by (auto simp: growing_extents_def)
    then show ?thesis by (simp add: ext)
  next
    case False
    then have "covers (cur @ [l]) x y" using that r(4) [of x y] by auto
    then have "in_row (cur @ [l]) x" using covers_rows [OF l(6)] by blast
    then show ?thesis using xband_bound [OF l(5)] by (fastforce simp: ext)
  qed
  have bx: "INBOX box (x1 box) (y1 box)" using box by (simp add: INBOX_def valid_box_def)
  have e1: "\<exists>y. covers (info_rects rit) (x1 ?e) y" "\<exists>x. covers (info_rects rit) x (y1 ?e)"
    "\<exists>y. covers (info_rects rit) (x2 ?e - 1) y" using gr unfolding info growing_extents_def by blast+
  have "growing_extents (extents reg3) (RegionRects reg2) [box]"
    unfolding growing_extents_def cov
  proof (intro conjI allI impI)
    show "\<exists>y. covers (info_rects rit) (x1 (extents reg3)) y \<or> INBOX box (x1 (extents reg3)) y"
      using e1(1) bx unfolding ext(1) min_def by auto
    show "\<exists>x. covers (info_rects rit) x (y1 (extents reg3)) \<or> INBOX box x (y1 (extents reg3))"
      using e1(2) ext(3) by auto
    show "\<exists>y. covers (info_rects rit) (x2 (extents reg3) - 1) y \<or> INBOX box (x2 (extents reg3) - 1) y"
      using e1(3) lc unfolding ext(2) max_def info by auto
  next
    fix x y assume "covers (info_rects rit) x y \<or> INBOX box x y"
    then show "x1 (extents reg3) \<le> x" "y1 (extents reg3) \<le> y"
      using old [of x y] \<open>y1 ?e \<le> t\<close> box l unfolding ext by (auto simp: INBOX_def)
  next
    fix x y assume "covers (RegionRects reg2) x y" then show "x < x2 (extents reg3)" by (rule right)
  qed
  then have "info_parts \<lparr>ri_reg = reg3, prevBand = p', curBand = RegionNumRects reg2\<rparr> (RegionRects reg2) [box] (y1 box) (y2 box)"
    using grown r box out_ok_mono [of "RegionRects reg2" p' u "y1 box"]
    by (auto simp: info_parts_def info_rects_def grows_def RegionNumRects_length xband_def valid_box_def)
  then show "extended rit box \<lparr>ri_reg = reg3, prevBand = p', curBand = RegionNumRects reg2\<rparr>"
    unfolding extended_def info_ok_def using cov grown by (auto simp: info_rects_def grows_def)
qed


section \<open>Placing one box\<close>

lemma rev_info: "info_ok rit \<Longrightarrow> \<exists>old cur l t u. info_parts rit old (cur @ [l]) t u"
  unfolding info_ok_def by (metis append_butlast_last_id info_parts_def)

lemma RECTALLOC_one:
  assumes "data_reg reg"
  obtains k' reg' where "RECTALLOC alloc_ok k reg 1 = (True, k', reg')" "grows reg (set_rects reg' (RegionRects reg' @ [box])) [box]"
  using RectAlloc_grows [of reg k "[box]"] assms by (cases "RECTALLOC alloc_ok k reg 1") auto

text \<open>One region either takes the box or the search goes on to the next one.\<close>

lemma place_one:
  assumes "info_ok rit" "rect_le (last (info_rects rit)) box" "valid_box box"
  shows "(\<forall>k ris ov. place_box alloc_ok k (rit # ris) box ov =
        (case place_box alloc_ok k ris box ov of Placed k' ris' ov' \<Rightarrow> Placed k' (rit # ris') ov' | other \<Rightarrow> other)) \<or>
     (\<forall>k ris ov. \<exists>k' rit'. extended rit box rit' \<and> place_box alloc_ok k (rit # ris) box ov =
        Placed k' (rit' # ris) (ov \<or> (\<exists>x y. covers (info_rects rit) x y \<and> INBOX box x y)))"
proof -
  obtain old cur l t u where parts: "info_parts rit old (cur @ [l]) t u" using rev_info assms(1) by blast
  then have l: "RegionRects (ri_reg rit) = old @ cur @ [l]" "y1 l = t" "y2 l = u" "data_reg (ri_reg rit)" "t < u"
    by (auto simp: info_parts_def info_rects_def rows_append)
  consider (touch) "y1 box = t" "y2 box = u" "x1 box \<le> x2 l" | (right) "y1 box = t" "y2 box = u" "x2 l < x1 box"
    | (below) "u \<le> y1 box" | (other) "\<not> (y1 box = t \<and> y2 box = u)" "y1 box < u" by linarith
  then show ?thesis
  proof cases
    case touch
    have "x1 l \<le> x1 box" using assms(2) l touch by (simp add: rect_le_iff info_rects_def)
    note place_touching [OF parts assms(3) touch(1,2) this touch(3)]
    then show ?thesis using l touch by (auto simp: butlast_append)
  next
    case right
    note none = place_right(2) [OF parts assms(3) right]
    have "\<exists>k' rit'. extended rit box rit' \<and> place_box alloc_ok k (rit # ris) box ov = Placed k' (rit' # ris) ov" for k ris ov
    proof -
      obtain k' reg' where "RECTALLOC alloc_ok k (ri_reg rit) 1 = (True, k', reg')"
        and g: "grows (ri_reg rit) (set_rects reg' (RegionRects reg' @ [box])) [box]"
        by (rule RECTALLOC_one [OF l(4)])
      then have "place_box alloc_ok k (rit # ris) box ov =
          Placed k' (rit\<lparr>ri_reg := set_rects reg' (RegionRects reg' @ [box])\<rparr> # ris) ov"
        using l right by simp
      then show ?thesis using place_right(1) [OF parts assms(3) right g] by blast
    qed
    then show ?thesis using none by (intro disjI2) (simp only: simp_thms)
  next
    case below
    have none: "\<not> (\<exists>x y. covers (info_rects rit) x y \<and> INBOX box x y)"
      using info_covers_above [OF parts] below by (fastforce simp: INBOX_def)
    have "\<exists>k' rit'. extended rit box rit' \<and> place_box alloc_ok k (rit # ris) box ov = Placed k' (rit' # ris) ov" for k ris ov
    proof -
      obtain p' reg2 where c: "Coalesce (close_extents rit box) (prevBand rit) (curBand rit) = (p', reg2)" "data_reg reg2"
        by (rule close_band [OF parts])
      obtain k' reg' where a: "RECTALLOC alloc_ok k reg2 1 = (True, k', reg')"
        and g: "grows reg2 (set_rects reg' (RegionRects reg' @ [box])) [box]"
        by (rule RECTALLOC_one [OF c(2)])
      have "place_box alloc_ok k (rit # ris) box ov =
          Placed k' (\<lparr>ri_reg = set_rects reg' (RegionRects reg' @ [box]), prevBand = p', curBand = RegionNumRects reg2\<rparr> # ris) ov"
        using l below a c(1) assms(3) by (simp add: close_extents_def Let_def valid_box_def)
      then show ?thesis using place_below(1) [OF parts assms(3) below c(1) g] by blast
    qed
    then show ?thesis using none by (intro disjI2) (simp only: simp_thms)
  next
    case other
    then show ?thesis using l by (intro disjI1) (auto simp: Let_def)
  qed
qed


section \<open>Scattering the boxes over regions\<close>

abbreviation regions_depth :: "RegionInfo list \<Rightarrow> int \<Rightarrow> int \<Rightarrow> nat" where
  "regions_depth ris \<equiv> depth (map info_rects ris)"

definition crowded :: "(int \<Rightarrow> int \<Rightarrow> nat) \<Rightarrow> bool" where
  "crowded D \<longleftrightarrow> (\<exists>x y. 2 \<le> D x y)"

text \<open>All regions can take the boxes still to come.\<close>

definition ready :: "RegionInfo list \<Rightarrow> Box list \<Rightarrow> bool" where
  "ready ris boxes \<longleftrightarrow> (\<forall>rit \<in> set ris. info_ok rit \<and> (\<forall>b \<in> set boxes. rect_le (last (info_rects rit)) b))"

lemma place_box_correct:
  assumes "ready ris (box # boxes)" "valid_box box" "\<forall>b \<in> set boxes. rect_le box b"
  shows "place_box alloc_ok k ris box ov = NoFit \<or>
    (\<exists>k' ris' c. place_box alloc_ok k ris box ov = Placed k' ris' (ov \<or> (\<exists>x y. c x y \<and> INBOX box x y)) \<and>
       ready ris' boxes \<and> ris' \<noteq> [] \<and>
       (\<forall>x y. c x y \<longrightarrow> 0 < regions_depth ris x y) \<and>
       (\<forall>x y. regions_depth ris' x y = regions_depth ris x y + (if INBOX box x y \<and> \<not> c x y then 1 else 0)))"
  using assms(1)
proof (induction ris)
  case (Cons rit ris)
  have tail: "ready ris (box # boxes)" and r: "info_ok rit" "rect_le (last (info_rects rit)) box"
    "\<forall>b \<in> set boxes. rect_le (last (info_rects rit)) b"
    using Cons.prems by (auto simp: ready_def)
  from place_one [OF r(1,2) assms(2)]
  show ?case
  proof (elim disjE)
    assume skip: "\<forall>k ris ov. place_box alloc_ok k (rit # ris) box ov =
        (case place_box alloc_ok k ris box ov of Placed k' ris' ov' \<Rightarrow> Placed k' (rit # ris') ov' | other \<Rightarrow> other)"
    from Cons.IH [OF tail] show ?thesis
    proof (elim disjE exE conjE)
      fix k' ris' c
      assume p: "place_box alloc_ok k ris box ov = Placed k' ris' (ov \<or> (\<exists>x y. c x y \<and> INBOX box x y))"
        "ready ris' boxes" "\<forall>x y. c x y \<longrightarrow> 0 < regions_depth ris x y"
        "\<forall>x y. regions_depth ris' x y = regions_depth ris x y + (if INBOX box x y \<and> \<not> c x y then 1 else 0)"
      have "place_box alloc_ok k (rit # ris) box ov = Placed k' (rit # ris') (ov \<or> (\<exists>x y. c x y \<and> INBOX box x y))"
        unfolding skip [rule_format] p(1) by simp
      moreover have "ready (rit # ris') boxes" using p(2) r by (simp add: ready_def)
      ultimately show ?thesis
        using p(3,4) by (intro disjI2 exI [of _ k'] exI [of _ "rit # ris'"] exI [of _ c]) auto
    qed (simp only: skip [rule_format] placed.case simp_thms)
  next
    assume "\<forall>k ris ov. \<exists>k' rit'. extended rit box rit' \<and> place_box alloc_ok k (rit # ris) box ov =
        Placed k' (rit' # ris) (ov \<or> (\<exists>x y. covers (info_rects rit) x y \<and> INBOX box x y))"
    then obtain k' rit' where e: "extended rit box rit'" and p: "place_box alloc_ok k (rit # ris) box ov =
        Placed k' (rit' # ris) (ov \<or> (\<exists>x y. covers (info_rects rit) x y \<and> INBOX box x y))" by blast
    have "ready (rit' # ris) boxes" using tail e r assms(3) by (auto simp: ready_def extended_def)
    then show ?thesis
      using e unfolding p by (intro disjI2 exI [of _ k'] exI [of _ "rit' # ris"] exI [of _ "covers (info_rects rit)"])
        (auto simp: extended_def)
  qed
qed simp

text \<open>The flag and the covers say together whether a point is covered twice.\<close>

definition balanced :: "bool \<Rightarrow> (int \<Rightarrow> int \<Rightarrow> nat) \<Rightarrow> (int \<Rightarrow> int \<Rightarrow> nat) \<Rightarrow> bool" where
  "balanced ov D B \<longleftrightarrow> (ov \<or> crowded D \<longleftrightarrow> crowded B) \<and> (\<forall>x y. 0 < D x y \<longleftrightarrow> 0 < B x y)"

lemma balanced_place:
  assumes "balanced ov D B" "\<forall>x y. c x y \<longrightarrow> 0 < D x y" "\<forall>x y. D' x y = D x y + (if P x y \<and> \<not> c x y then 1 else 0)"
    "\<forall>x y. B' x y = B x y + (if P x y then 1 else 0)"
  shows "balanced (ov \<or> (\<exists>x y. c x y \<and> P x y)) D' B'"
proof -
  have B: "2 \<le> B' x y \<longleftrightarrow> 2 \<le> B x y \<or> 0 < B x y \<and> P x y" for x y using assms(4) by auto
  have D: "2 \<le> D' x y \<longleftrightarrow> 2 \<le> D x y \<or> 0 < D x y \<and> P x y \<and> \<not> c x y" for x y using assms(3) by auto
  have pos: "0 < D x y \<longleftrightarrow> 0 < B x y" for x y using assms(1) by (simp add: balanced_def)
  have "0 < D' x y \<longleftrightarrow> 0 < B' x y" for x y using pos [of x y] assms(2) [rule_format, of x y] assms(3,4) by auto
  moreover have "ov \<or> (\<exists>x y. c x y \<and> P x y) \<or> crowded D' \<longleftrightarrow> crowded B'"
    using assms(1,2) pos unfolding balanced_def crowded_def B D by blast
  ultimately show ?thesis by (simp add: balanced_def)
qed


lemma first_info:
  assumes "data_reg reg" "RegionRects reg = [box]" "extents reg = box" "valid_box box"
  shows "info_ok \<lparr>ri_reg = reg, prevBand = 0, curBand = 0\<rparr>"
proof -
  have "\<exists>y. INBOX box (x1 box) y" "\<exists>x. INBOX box x (y1 box)" "\<exists>y. INBOX box (x2 box - 1) y"
    using tight_box [OF assms(4)] by (simp_all add: tight_def)
  then have "info_parts \<lparr>ri_reg = reg, prevBand = 0, curBand = 0\<rparr> [] [box] (y1 box) (y2 box)"
    using assms by (auto simp: info_parts_def info_rects_def out_ok_def xband_def growing_extents_def valid_box_def INBOX_def)
  then show ?thesis by (auto simp: info_ok_def)
qed

lemma scatter_correct:
  assumes "ready ris boxes" "\<forall>b \<in> set boxes. valid_box b" "sorted_wrt rect_le boxes" "ris \<noteq> []"
    "balanced ov (regions_depth ris) (boxes_depth seen)"
  shows "\<exists>k' ris' ov'. scatter alloc_ok k n ris boxes ov = Inr (k', ris', ov') \<and> ris' \<noteq> [] \<and> ready ris' [] \<and>
     balanced ov' (regions_depth ris') (boxes_depth (seen @ boxes))"
  using assms
proof (induction boxes arbitrary: ris ov k n seen)
  case (Cons box boxes)
  have box: "valid_box box" "\<forall>b \<in> set boxes. rect_le box b" using Cons.prems by auto
  have next': ?case
    if "scatter alloc_ok k n ris (box # boxes) ov = scatter alloc_ok k' n' ris' boxes (ov \<or> (\<exists>x y. c x y \<and> INBOX box x y))"
      "ready ris' boxes" "ris' \<noteq> []" "\<forall>x y. c x y \<longrightarrow> 0 < regions_depth ris x y"
      "\<forall>x y. regions_depth ris' x y = regions_depth ris x y + (if INBOX box x y \<and> \<not> c x y then 1 else 0)" for k' n' ris' c
  proof -
    have "balanced (ov \<or> (\<exists>x y. c x y \<and> INBOX box x y)) (regions_depth ris') (boxes_depth (seen @ [box]))"
      by (rule balanced_place [OF Cons.prems(5) that(4,5)]) simp
    from Cons.IH [OF that(2) _ _ that(3) this] Cons.prems(2,3) show ?thesis unfolding that(1) by simp
  qed
  from place_box_correct [OF Cons.prems(1) box, of k ov] show ?case
  proof (elim disjE exE conjE)
    fix k' ris' c
    assume p: "place_box alloc_ok k ris box ov = Placed k' ris' (ov \<or> (\<exists>x y. c x y \<and> INBOX box x y))"
    have run: "scatter alloc_ok k n ris (box # boxes) ov =
        scatter alloc_ok k' n ris' boxes (ov \<or> (\<exists>x y. c x y \<and> INBOX box x y))"
      by (simp only: scatter.simps p placed.case)
    show "ready ris' boxes \<Longrightarrow> ris' \<noteq> [] \<Longrightarrow> \<forall>x y. c x y \<longrightarrow> 0 < regions_depth ris x y \<Longrightarrow>
      \<forall>x y. regions_depth ris' x y = regions_depth ris x y + (if INBOX box x y \<and> \<not> c x y then 1 else 0) \<Longrightarrow> ?case"
      by (rule next' [of k' n ris' c, OF run])
  next
    assume p: "place_box alloc_ok k ris box ov = NoFit"
    let ?grow = "n = length ris" and ?num = "Suc (length ris)"
    let ?k1 = "if ?grow then Suc k else k" and ?n' = "if ?grow then 2 * n else n" and ?m = "(length (box # boxes) + ?num) div ?num"
    let ?reg = "\<lparr>extents = box, rdata = RegionData (?m + 1) [box]\<rparr>"
    let ?new = "\<lparr>ri_reg = ?reg, prevBand = 0, curBand = 0\<rparr>"
    have run: "scatter alloc_ok k n ris (box # boxes) ov = scatter alloc_ok (Suc ?k1) ?n' (ris @ [?new]) boxes ov"
      by (simp only: scatter.simps p placed.case Let_def RegionRectAlloc_def simp_thms if_False if_True) simp
    have new: "info_ok ?new" "info_rects ?new = [box]"
      using box by (auto intro!: first_info simp: data_reg_def RegionRects_def info_rects_def)
    show ?case
      by (rule next' [of "Suc ?k1" ?n' "ris @ [?new]" "\<lambda>_ _. False"])
        (use run new Cons.prems(1) box in \<open>auto simp: ready_def\<close>)
  qed
qed (auto simp: ready_def)


section \<open>Closing the regions\<close>

definition region_ok :: "Region \<Rightarrow> bool" where
  "region_ok reg \<longleftrightarrow> \<not> RegionNar reg \<and> wf_reg reg \<and> banded (RegionRects reg) \<and> RegionRects reg \<noteq> [] \<and>
     (rdata reg = NullData \<longleftrightarrow> length (RegionRects reg) = 1) \<and> tight (extents reg) (covers (RegionRects reg))"

text \<open>The compact form of a region of one box has exact extents.\<close>

lemma compact_region:
  assumes "data_reg reg" "banded (RegionRects reg)" "RegionRects reg \<noteq> []" "tight (extents reg) (covers (RegionRects reg))"
  defines "reg' \<equiv> (if RegionNumRects reg = 1 then reg\<lparr>rdata := NullData\<rparr> else reg)"
  shows "region_ok reg'" "covers (RegionRects reg') = covers (RegionRects reg)"
proof -
  have *: "RegionRects reg' = RegionRects reg"
  proof (cases "RegionNumRects reg = 1")
    case True
    then obtain b where b: "RegionRects reg = [b]" by (auto simp: RegionNumRects_length length_Suc_conv)
    then have "tight b (covers (RegionRects reg))" using tight_single [of b] assms(2) by simp
    then have "extents reg = b" using tight_unique assms(4) by blast
    then show ?thesis using True b by (simp add: reg'_def RegionRects_def)
  qed (simp add: reg'_def)
  then show "covers (RegionRects reg') = covers (RegionRects reg)" by simp
  have "\<not> RegionNar reg'" "wf_reg reg'" "rdata reg' = NullData \<longleftrightarrow> RegionNumRects reg = 1" "extents reg' = extents reg"
    using assms(1) by (auto simp: reg'_def RegionNar_def wf_reg_def data_reg_def)
  then show "region_ok reg'" using * assms(2-4) by (simp add: region_ok_def RegionNumRects_length)
qed

lemma finish_info_correct:
  assumes "info_ok rit"
  shows "region_ok (finish_info rit)" "covers (RegionRects (finish_info rit)) = covers (info_rects rit)"
proof -
  obtain old cur l t u where parts: "info_parts rit old (cur @ [l]) t u" using rev_info assms by blast
  note p = parts [unfolded info_parts_def]
  let ?e = "extents (ri_reg rit)" and ?h = "(extents (ri_reg rit))\<lparr>y2 := u, x2 := max (x2 (extents (ri_reg rit))) (x2 l)\<rparr>"
  let ?reg = "(ri_reg rit)\<lparr>extents := ?h\<rparr>"
  have l: "x1 l < x2 l" "y1 l = t" "y2 l = u" "t < u" "xband (cur @ [l])" "rows t u (cur @ [l])"
    using p by (auto simp: xband_snoc rows_append)
  have reg: "data_reg ?reg" "RegionRects ?reg = old @ cur @ [l]"
    using p by (auto simp: data_reg_def RegionRects_def info_rects_def)
  obtain q r where c: "Coalesce ?reg (prevBand rit) (length old) = (q, r)" and
    r: "data_reg r" "extents r = extents ?reg" "out_ok (RegionRects r) q u"
      "\<And>x y. covers (RegionRects r) x y = covers (old @ (cur @ [l])) x y"
    by (rule Coalesce_correct [of ?reg old "cur @ [l]" "prevBand rit" t t u]) (use reg p in auto)
  have info: "info_rects rit = old @ cur @ [l]" using p by simp
  have cov: "covers (RegionRects r) = covers (info_rects rit)" using r(4) info by (simp add: fun_eq_iff)
  have fin: "finish_info rit = (if RegionNumRects r = 1 then r\<lparr>rdata := NullData\<rparr> else r)"
    using c p l(3) by (simp add: finish_info_def Let_def info_rects_def)
  have gr: "growing_extents ?e old (cur @ [l])" using p by simp
  have bottom: "covers (info_rects rit) (x2 l - 1) (u - 1)" "covers (info_rects rit) (x2 l - 1) t"
    unfolding info using l by (simp_all add: INBOX_def)
  have right: "x < max (x2 ?e) (x2 l)" if "covers (info_rects rit) x y" for x y
  proof (cases "covers old x y")
    case True
    then have "x < x2 ?e" using gr by (auto simp: growing_extents_def)
    then show ?thesis by simp
  next
    case False
    then have "covers (cur @ [l]) x y" using that unfolding info by auto
    then have "in_row (cur @ [l]) x" using covers_rows [OF l(6)] by blast
    then show ?thesis using xband_bound [OF l(5)] by fastforce
  qed
  have e1: "\<exists>y. covers (info_rects rit) (x1 ?e) y" "\<exists>x. covers (info_rects rit) x (y1 ?e)"
    "\<exists>y. covers (info_rects rit) (x2 ?e - 1) y" "covers (info_rects rit) x y \<Longrightarrow> x1 ?e \<le> x \<and> y1 ?e \<le> y" for x y
    using gr unfolding info growing_extents_def by blast+
  have "tight ?h (covers (info_rects rit))"
    unfolding tight_def
  proof (intro conjI allI impI)
    show "INBOX ?h x y" if "covers (info_rects rit) x y" for x y
      using e1(4) [OF that] right [OF that] info_covers_above [OF parts that] by (simp add: INBOX_def)
    show "\<exists>y. covers (info_rects rit) (x2 ?h - 1) y" using e1(3) bottom by (auto simp: max_def)
  qed (use e1 bottom in auto)
  moreover have "RegionRects r \<noteq> []" using bottom(1) unfolding cov [symmetric] by auto
  ultimately show "region_ok (finish_info rit)" "covers (RegionRects (finish_info rit)) = covers (info_rects rit)"
    unfolding fin using compact_region [of r] r(1-3) cov by (simp_all add: out_ok_def)
qed


section \<open>Merging the regions\<close>

lemma region_ok_simps:
  assumes "region_ok reg"
  shows "\<not> RegionNar reg" "banded (RegionRects reg)" "RegionRects reg \<noteq> []" "tight (extents reg) (covers (RegionRects reg))"
  using assms by (simp_all add: region_ok_def)

lemma merge_two:
  assumes "region_ok reg" "region_ok hreg"
  obtains k' reg' where "RegionOp alloc_ok k True False reg reg hreg RegionUnionO True True ov =
      (True, k', reg', ov \<or> (\<exists>x y. covers (RegionRects reg) x y \<and> covers (RegionRects hreg) x y))"
    "region_ok (reg'\<lparr>extents := widen (extents reg') (extents hreg)\<rparr>)"
    "covers (RegionRects (reg'\<lparr>extents := widen (extents reg') (extents hreg)\<rparr>)) =
      (\<lambda>x y. covers (RegionRects reg) x y \<or> covers (RegionRects hreg) x y)"
proof -
  let ?P = "\<lambda>x y. covers (RegionRects reg) x y \<or> covers (RegionRects hreg) x y"
  obtain k' reg' where run: "RegionOp alloc_ok k True False reg reg hreg RegionUnionO True True ov =
      (True, k', reg', ov \<or> (\<exists>x y. covers (RegionRects reg) x y \<and> covers (RegionRects hreg) x y))"
    and res: "op_result reg reg' (union_op.combined (RegionRects reg) (RegionRects hreg))"
    using RegionOp_union_run [of reg hreg k True False reg ov] region_ok_simps [OF assms(1)] region_ok_simps [OF assms(2)]
    by auto
  note r = res [unfolded op_result_def]
  have cov: "covers (RegionRects reg') = ?P" using r by (simp add: fun_eq_iff union_combined)
  have wide: "tight (widen e (extents hreg)) ?P" if "tight e ?P \<or> e = extents reg" for e
    using that tight_widen [of e ?P "extents hreg" "covers (RegionRects hreg)"] region_ok_simps(4) [OF assms(2)]
      tight_widen [OF region_ok_simps(4) [OF assms(1)] region_ok_simps(4) [OF assms(2)]] by (auto simp: disj_assoc)
  let ?new = "reg'\<lparr>extents := widen (extents reg') (extents hreg)\<rparr>"
  have ne: "RegionRects reg' \<noteq> []"
  proof
    assume "RegionRects reg' = []"
    then have "\<not> covers (RegionRects reg) x y" for x y using cov by (auto dest!: fun_cong)
    then show False using region_ok_simps(4) [OF assms(1)] by (simp add: tight_def)
  qed
  have "extents reg' = extents reg \<or> tight (extents reg') ?P"
  proof (cases "rdata reg' = NullData")
    case True
    then have "RegionRects reg' = [extents reg']" by (simp add: RegionRects_def)
    then have "tight (extents reg') (covers (RegionRects reg'))"
      using tight_single [of "extents reg'"] r by (simp only:)
    then show ?thesis using cov by simp
  qed (use r in simp)
  then have t: "tight (extents ?new) ?P" using wide by auto
  have same: "RegionRects ?new = RegionRects reg'"
  proof (cases "rdata reg' = NullData")
    case True
    then have b: "RegionRects reg' = [extents reg']" by (simp add: RegionRects_def)
    then have "tight (extents reg') (covers (RegionRects reg'))"
      using tight_single [of "extents reg'"] r by (simp only:)
    then have "extents ?new = extents reg'" using t cov tight_unique by metis
    then show ?thesis using True by (simp add: RegionRects_def)
  qed (auto simp: RegionRects_def split: RegData.split)
  have "region_ok ?new" "covers (RegionRects ?new) = ?P"
    using r ne t same cov by (simp_all add: region_ok_def RegionNar_def wf_reg_def)
  with run show ?thesis by (rule that)
qed

definition reg_covers :: "Region list \<Rightarrow> int \<Rightarrow> int \<Rightarrow> nat" where
  "reg_covers regs = depth (map RegionRects regs)"

lemma reg_covers_simps [simp]:
  "reg_covers [] x y = 0" "reg_covers (r # rs) x y = (if covers (RegionRects r) x y then 1 else 0) + reg_covers rs x y"
  "reg_covers (rs @ ss) x y = reg_covers rs x y + reg_covers ss x y"
  by (simp_all add: reg_covers_def)

lemma balanced_merge:
  assumes "balanced ov D B"
    "\<forall>x y. D x y = E x y + (if P x y then 1 else 0) + (if Q x y then 1 else 0)"
    "\<forall>x y. D' x y = E x y + (if P x y \<or> Q x y then 1 else 0)"
  shows "balanced (ov \<or> (\<exists>x y. P x y \<and> Q x y)) D' B"
proof -
  have "(2 \<le> D x y \<longleftrightarrow> 2 \<le> D' x y \<or> P x y \<and> Q x y) \<and> (0 < D' x y \<longleftrightarrow> 0 < D x y)" for x y
    using assms(2,3) by (auto split: if_splits)
  then show ?thesis using assms(1) unfolding balanced_def crowded_def by blast
qed

text \<open>One round over pairs, beside regions \<open>E\<close> that are left alone.\<close>

lemma merge_pairs_correct:
  assumes "length regs = length hregs" "\<forall>r \<in> set regs \<union> set hregs. region_ok r"
    "balanced ov (\<lambda>x y. reg_covers regs x y + reg_covers hregs x y + E x y) B"
  shows "\<exists>k' ov' out. merge_pairs alloc_ok k ov ret regs hregs = (k', ov', ret, out) \<and> length out = length regs \<and>
     (\<forall>r \<in> set out. region_ok r) \<and> balanced ov' (\<lambda>x y. reg_covers out x y + E x y) B"
  using assms
proof (induction regs hregs arbitrary: k ov ret E rule: list_induct2')
  case (4 reg regs hreg hregs)
  have ok: "region_ok reg" "region_ok hreg" using 4 by auto
  obtain k' reg' where run: "RegionOp alloc_ok k True False reg reg hreg RegionUnionO True True ov =
      (True, k', reg', ov \<or> (\<exists>x y. covers (RegionRects reg) x y \<and> covers (RegionRects hreg) x y))"
    and new: "region_ok (reg'\<lparr>extents := widen (extents reg') (extents hreg)\<rparr>)"
      "covers (RegionRects (reg'\<lparr>extents := widen (extents reg') (extents hreg)\<rparr>)) =
        (\<lambda>x y. covers (RegionRects reg) x y \<or> covers (RegionRects hreg) x y)"
    by (rule merge_two [OF ok])
  let ?new = "reg'\<lparr>extents := widen (extents reg') (extents hreg)\<rparr>"
  let ?E = "\<lambda>x y. (if covers (RegionRects ?new) x y then 1 else 0) + E x y"
  have "balanced (ov \<or> (\<exists>x y. covers (RegionRects reg) x y \<and> covers (RegionRects hreg) x y))
      (\<lambda>x y. reg_covers regs x y + reg_covers hregs x y + ?E x y) B"
    by (rule balanced_merge [OF 4(4), where E = "\<lambda>x y. reg_covers regs x y + reg_covers hregs x y + E x y"])
      (simp_all add: new(2))
  then have "\<exists>k'' ov'' out. merge_pairs alloc_ok k' (ov \<or> (\<exists>x y. covers (RegionRects reg) x y \<and> covers (RegionRects hreg) x y))
        ret regs hregs = (k'', ov'', ret, out) \<and> length out = length regs \<and> (\<forall>r \<in> set out. region_ok r) \<and>
      balanced ov'' (\<lambda>x y. reg_covers out x y + ?E x y) B"
    by (rule 4(1) [rotated -1]) (use 4(2,3) in simp_all)
  then obtain k'' ov'' out where rest:
    "merge_pairs alloc_ok k' (ov \<or> (\<exists>x y. covers (RegionRects reg) x y \<and> covers (RegionRects hreg) x y)) ret regs hregs =
       (k'', ov'', ret, out)" "length out = length regs" "\<forall>r \<in> set out. region_ok r"
    "balanced ov'' (\<lambda>x y. reg_covers out x y + ?E x y) B" by blast
  have "merge_pairs alloc_ok k ov ret (reg # regs) (hreg # hregs) = (k'', ov'', ret, ?new # out)"
    by (simp add: run rest(1))
  moreover have "balanced ov'' (\<lambda>x y. reg_covers (?new # out) x y + E x y) B"
    using rest(4) by (simp only: reg_covers_simps ac_simps)
  moreover have "length (?new # out) = length (reg # regs)" "\<forall>r \<in> set (?new # out). region_ok r"
    using rest(2,3) new(1) by simp_all
  ultimately show ?case by blast
qed simp_all


lemma merge_all_correct:
  assumes "regs \<noteq> []" "\<forall>r \<in> set regs. region_ok r" "balanced ov (reg_covers regs) B"
  shows "\<exists>k' reg. merge_all alloc_ok k ov True regs = (k', crowded B, True, [reg]) \<and> region_ok reg \<and>
     (\<forall>x y. covers (RegionRects reg) x y \<longleftrightarrow> 0 < B x y)"
  using assms
proof (induction "length regs" arbitrary: regs k ov rule: less_induct)
  case less
  show ?case
  proof (cases "length regs > 1")
    case False
    then obtain r where r: "regs = [r]" using less(2) by (cases regs) auto
    then have "\<not> crowded (reg_covers regs)" by (auto simp: crowded_def)
    then have "ov = crowded B" using less(4) r by (simp add: balanced_def)
    moreover have "covers (RegionRects r) x y \<longleftrightarrow> 0 < B x y" for x y
    proof -
      have "0 < reg_covers [r] x y \<longleftrightarrow> 0 < B x y" using less(4) r unfolding balanced_def by blast
      then show ?thesis by (simp split: if_splits)
    qed
    ultimately show ?thesis using r less(3) by (subst merge_all.simps) simp
  next
    case True
    let ?odd = "length regs mod 2" and ?half = "length regs div 2"
    let ?l = "take ?half (drop ?odd regs)" and ?h = "drop (?odd + ?half) regs" and ?o = "take ?odd regs"
    have split: "regs = ?o @ ?l @ ?h"
      by (metis append_take_drop_id drop_drop add.commute)
    have len: "length ?l = ?half" "length ?h = ?half" "length ?o = ?odd" by (simp; presburger)+
    have "reg_covers regs x y = reg_covers ?l x y + reg_covers ?h x y + reg_covers ?o x y" for x y
      using arg_cong [OF split, of "\<lambda>rs. reg_covers rs x y"] by simp
    then have cov: "reg_covers regs = (\<lambda>x y. reg_covers ?l x y + reg_covers ?h x y + reg_covers ?o x y)" by blast
    have bal: "balanced ov (\<lambda>x y. reg_covers ?l x y + reg_covers ?h x y + reg_covers ?o x y) B"
      using less(4) unfolding cov .
    have ok: "\<forall>r \<in> set ?l \<union> set ?h. region_ok r" "\<forall>r \<in> set ?o. region_ok r"
      using less(3) by (auto dest: in_set_takeD in_set_dropD)
    obtain k' ov' out where m: "merge_pairs alloc_ok k ov True ?l ?h = (k', ov', True, out)"
      and out: "length out = length ?l" "\<forall>r \<in> set out. region_ok r" "balanced ov' (\<lambda>x y. reg_covers out x y + reg_covers ?o x y) B"
      using merge_pairs_correct [OF _ ok(1) bal, of k True] len by auto
    have "length (?o @ out) < length regs" using out(1) len True by simp
    moreover have "?o @ out \<noteq> []" using out(1) len True by auto
    moreover have "balanced ov' (reg_covers (?o @ out)) B" using out(3) by (simp add: add.commute fun_eq_iff balanced_def crowded_def)
    ultimately obtain k'' reg where "merge_all alloc_ok k' ov' True (?o @ out) = (k'', crowded B, True, [reg])"
      "region_ok reg" "\<forall>x y. covers (RegionRects reg) x y \<longleftrightarrow> 0 < B x y"
      using less(1) [of "?o @ out" ov' k'] ok(2) out(2) by auto
    then show ?thesis using True m by (subst merge_all.simps) (simp add: Let_def)
  qed
qed

section \<open>The debug check\<close>

text \<open>The extents that the check computes are the tight ones, and it passes banded arrays.\<close>

lemma fold_min:
  "fold (\<lambda>b m. min m (f b)) rs (m :: int) \<in> insert m (f ` set rs) \<and>
   (\<forall>x \<in> insert m (f ` set rs). fold (\<lambda>b m. min m (f b)) rs m \<le> x)"
proof (induction rs arbitrary: m)
  case (Cons c rs)
  from Cons.IH [of "min m (f c)"] show ?case by (auto simp: min_def split: if_splits)
qed simp

lemma fold_max:
  "fold (\<lambda>b m. max m (f b)) rs (m :: int) \<in> insert m (f ` set rs) \<and>
   (\<forall>x \<in> insert m (f ` set rs). x \<le> fold (\<lambda>b m. max m (f b)) rs m)"
proof (induction rs arbitrary: m)
  case (Cons c rs)
  from Cons.IH [of "max m (f c)"] show ?case by (auto simp: max_def split: if_splits)
qed simp

lemma RegionIsValid_loop_run:
  "banded (p # rs) \<Longrightarrow> RegionIsValid_loop p rs e =
     Some (e\<lparr>x1 := fold (\<lambda>b m. min m (x1 b)) rs (x1 e), x2 := fold (\<lambda>b m. max m (x2 b)) rs (x2 e)\<rparr>)"
proof (induction rs arbitrary: p e)
  case (Cons n rs)
  let ?e = "e\<lparr>x1 := min (x1 e) (x1 n), x2 := max (x2 e) (x2 n)\<rparr>"
  have n: "valid_box n" "valid_box p" "before p n" "banded (n # rs)" using Cons.prems by simp_all
  have "RegionIsValid_loop p (n # rs) e = RegionIsValid_loop n rs ?e"
    using n(1-3) by (simp add: before_def valid_box_def) linarith
  then show ?case using Cons.IH [OF n(4), of ?e] by simp
qed simp

lemma banded_rows_bounds: "banded (p # rs) \<Longrightarrow> b \<in> set (p # rs) \<Longrightarrow> y1 p \<le> y1 b \<and> y2 b \<le> y2 (last (p # rs))"
proof (induction rs arbitrary: p b)
  case (Cons n rs)
  have n: "valid_box n" "valid_box p" "before p n" "banded (n # rs)" using Cons.prems(1) by simp_all
  have ord: "y1 p \<le> y1 n" "y2 p \<le> y2 n" using n(1-3) by (auto simp: before_def valid_box_def)
  have "y2 n \<le> y2 (last (n # rs))" using Cons.IH [OF n(4), of n] by simp
  then show ?case using Cons.IH [OF n(4), of b] Cons.prems(2) ord by auto
qed auto

lemma region_ok_RegionIsValid:
  assumes "region_ok reg" shows "RegionIsValid reg"
proof -
  let ?rs = "RegionRects reg" and ?e = "extents reg"
  note r = assms [unfolded region_ok_def]
  obtain p rs where ps: "?rs = p # rs" using r by (cases ?rs) auto
  have p: "valid_box p" "banded (p # rs)" using r ps by auto
  have t: "tight ?e (covers ?rs)" using r by blast
  then have box: "x1 ?e < x2 ?e" "y1 ?e < y2 ?e" by (auto simp: tight_def INBOX_def)
  define e where "e = p\<lparr>y2 := y2 (last ?rs), x1 := fold (\<lambda>b m. min m (x1 b)) rs (x1 p), x2 := fold (\<lambda>b m. max m (x2 b)) rs (x2 p)\<rparr>"
  have e: "RegionIsValid_loop p rs (p\<lparr>y2 := y2 (last ?rs)\<rparr>) = Some e" "y1 e = y1 p" "y2 e = y2 (last ?rs)"
    using RegionIsValid_loop_run [OF p(2), of "p\<lparr>y2 := y2 (last ?rs)\<rparr>"] by (simp_all add: e_def)
  have e': "x1 e \<in> x1 ` set ?rs" "x2 e \<in> x2 ` set ?rs"
    using fold_min [where f = x1 and rs = rs and m = "x1 p"] fold_max [where f = x2 and rs = rs and m = "x2 p"] ps
    by (simp_all add: e_def)
  have bounds: "x1 e \<le> x1 b \<and> x2 b \<le> x2 e \<and> y1 e \<le> y1 b \<and> y2 b \<le> y2 e" if "b \<in> set ?rs" for b
    using that banded_rows_bounds [OF p(2), of b] fold_min [where f = x1 and rs = rs and m = "x1 p"]
      fold_max [where f = x2 and rs = rs and m = "x2 p"] ps by (auto simp: e_def)
  have inside: "INBOX b (x1 b) (y1 b)" "INBOX b (x2 b - 1) (y2 b - 1)" if "b \<in> set ?rs" for b
    using that r by (auto simp: banded_def INBOX_def valid_box_def)
  have "tight e (covers ?rs)"
    unfolding tight_def
  proof (intro conjI)
    show "\<forall>x y. covers ?rs x y \<longrightarrow> INBOX e x y"
      using bounds by (fastforce simp: covers_def INBOX_def)
    show "\<exists>y. covers ?rs (x1 e) y" "\<exists>y. covers ?rs (x2 e - 1) y"
      using e' inside unfolding covers_def by (metis imageE)+
    have "p \<in> set ?rs" "last ?rs \<in> set ?rs" using ps by simp_all
    then show "\<exists>x. covers ?rs x (y1 e)" "\<exists>x. covers ?rs x (y2 e - 1)"
      unfolding e(2,3) covers_def using inside by blast+
  qed
  then have "e = ?e" using t tight_unique by blast
  then show ?thesis
    using e(1) ps box r by (auto simp: RegionIsValid_def Let_def RegionNumRects_length)
qed

section \<open>The properties\<close>

lemma RegionValidate_run:
  assumes "rdata reg = RegionData n rs" "rs \<noteq> []" "length rs \<le> n" "\<forall>b \<in> set rs. valid_box b"
    "x2 (extents reg) \<le> x1 (extents reg)"
  shows "\<exists>k' reg'. RegionValidate alloc_ok k reg = (True, k', reg', crowded (boxes_depth rs)) \<and>
     region_ok reg' \<and> covers (RegionRects reg') = covers rs"
proof -
  let ?s = "QuickSortRects rs"
  have sorted: "mset ?s = mset rs" "sorted_wrt rect_le ?s" using QuickSortRects_run by blast+
  then have len: "length ?s = length rs" and set: "set ?s = set rs"
    by (metis size_mset, metis set_mset_mset)
  then obtain b bs where s: "?s = b # bs" using assms(2) by (cases ?s) auto
  have valid: "valid_box b" "\<forall>c \<in> set bs. valid_box c" using set s assms(4) by auto
  let ?reg = "set_rects (reg\<lparr>extents := b\<rparr>) [b]"
  let ?first = "\<lparr>ri_reg = ?reg, prevBand = 0, curBand = 0\<rparr>"
  have reg: "data_reg ?reg" "RegionRects ?reg = [b]" "extents ?reg = b"
    using assms(1-3) by (cases rs; auto simp: set_rects_def data_reg_def RegionRects_def)+
  have info: "info_rects ?first = [b]" using reg by (simp add: info_rects_def)
  have "ready [?first] bs"
    using first_info [OF reg valid(1)] sorted(2) info s by (simp add: ready_def)
  moreover have "balanced False (regions_depth [?first]) (boxes_depth [b])"
    by (auto simp: balanced_def crowded_def info)
  ultimately obtain k1 ris ov where sc: "scatter alloc_ok (Suc k) 4 [?first] bs False = Inr (k1, ris, ov)"
    and ris: "ris \<noteq> []" "ready ris []" "balanced ov (regions_depth ris) (boxes_depth ?s)"
    using scatter_correct [of "[?first]" bs False "[b]" "Suc k" 4] valid(2) sorted(2) s by auto
  have fin: "region_ok (finish_info r)" "covers (RegionRects (finish_info r)) = covers (info_rects r)" if "r \<in> set ris" for r
    using finish_info_correct [of r] ris(2) that by (simp_all add: ready_def)
  have "reg_covers (map finish_info rs') x y = regions_depth rs' x y" if "set rs' \<subseteq> set ris" for rs' x y
    using that by (induction rs') (auto simp: fin(2))
  then have "balanced ov (reg_covers (map finish_info ris)) (boxes_depth rs)"
    using ris(3) boxes_depth_mset [OF sorted(1)] by (simp add: fun_eq_iff balanced_def crowded_def)
  then obtain k2 reg' where m: "merge_all alloc_ok k1 ov True (map finish_info ris) = (k2, crowded (boxes_depth rs), True, [reg'])"
    and reg': "region_ok reg'" "\<forall>x y. covers (RegionRects reg') x y \<longleftrightarrow> 0 < boxes_depth rs x y"
    using merge_all_correct [of "map finish_info ris" ov "boxes_depth rs" k1] ris(1) fin(1) by auto
  have "RegionNumRects reg \<noteq> 0" "RegionRects reg = rs" "rdata reg \<noteq> NullData"
    using assms(1,2) by (simp_all add: RegionNumRects_def RegionRects_def)
  then have "RegionValidate alloc_ok k reg = (True, k2, reg', crowded (boxes_depth rs))"
    using assms(5) sc m s by (simp add: RegionValidate_def Let_def)
  then show ?thesis using reg' by (auto simp: boxes_depth_pos)
qed


text \<open>C1. \<^verbatim>\<open>RegionValidate\<close> turns any array of proper boxes, in any order and with any overlaps, into a region
  that passes the debug check of the code and covers the same points, and it reports whether some point was
  covered by more than one of the boxes. The boxes are marked as unchecked by empty extents.\<close>

theorem RegionValidate_correct:
  assumes "rdata reg = RegionData n rs" "rs \<noteq> []" "length rs \<le> n" "\<forall>b \<in> set rs. x1 b < x2 b \<and> y1 b < y2 b"
    "x2 (extents reg) \<le> x1 (extents reg)"
  shows "\<exists>k' reg' overlap. RegionValidate alloc_ok k reg = (True, k', reg', overlap) \<and>
     banded (RegionRects reg') \<and> RegionIsValid reg' \<and> covers (RegionRects reg') = covers rs \<and>
     (overlap \<longleftrightarrow> (\<exists>x y. 2 \<le> length (filter (\<lambda>b. INBOX b x y) rs)))"
proof -
  have "crowded (boxes_depth rs) \<longleftrightarrow> (\<exists>x y. 2 \<le> length (filter (\<lambda>b. INBOX b x y) rs))"
    by (simp add: crowded_def boxes_depth_def)
  then show ?thesis
    using RegionValidate_run [OF assms(1-3) _ assms(5), of k] assms(4) region_ok_RegionIsValid region_ok_simps(2)
    by (force simp: valid_box_def)
qed

lemma RegionValidate_correct_witness:
  "\<exists>k' reg'. RegionValidate alloc_ok 0
       \<lparr>extents = mkBox 0 0 0 0, rdata = RegionData 3 [mkBox 2 2 5 5, mkBox 0 0 3 3, mkBox 0 4 1 9]\<rparr> = (True, k', reg', True) \<and>
     RegionIsValid reg' \<and> covers (RegionRects reg') = covers [mkBox 2 2 5 5, mkBox 0 0 3 3, mkBox 0 4 1 9]"
proof -
  let ?rs = "[mkBox 2 2 5 5, mkBox 0 0 3 3, mkBox 0 4 1 9]"
  have "2 \<le> length (filter (\<lambda>b. INBOX b 2 2) ?rs)" by (simp add: INBOX_def)
  then have ov: "(\<exists>x y. 2 \<le> length (filter (\<lambda>b. INBOX b x y) ?rs)) = True" by blast
  let ?reg = "\<lparr>extents = mkBox 0 0 0 0, rdata = RegionData 3 ?rs\<rparr>"
  have "\<exists>k' reg' overlap. RegionValidate alloc_ok 0 ?reg = (True, k', reg', overlap) \<and>
     banded (RegionRects reg') \<and> RegionIsValid reg' \<and> covers (RegionRects reg') = covers ?rs \<and>
     (overlap \<longleftrightarrow> (\<exists>x y. 2 \<le> length (filter (\<lambda>b. INBOX b x y) ?rs)))"
    by (rule RegionValidate_correct [where n = 3]) simp_all
  then show ?thesis unfolding ov by blast
qed

lemma empty_region:
  "banded (RegionRects \<lparr>extents = RegionEmptyBox, rdata = RegionEmptyData\<rparr>)"
  "RegionIsValid \<lparr>extents = RegionEmptyBox, rdata = RegionEmptyData\<rparr>"
  by (simp_all add: RegionRects_def RegionIsValid_def RegionNumRects_def RegionEmptyBox_def)

text \<open>C14. \<^verbatim>\<open>RegionFromRects\<close> builds from any rectangles of a client (16-bit positions, unsigned sizes) a valid
  region of exactly their points: each rectangle is clipped at the largest coordinate, and
  those that are empty or become empty leave nothing.\<close>

theorem RegionFromRects_correct:
  assumes "\<forall>r \<in> set rects. rect_x r \<le> 32767 \<and> rect_y r \<le> 32767 \<and> 0 \<le> width r \<and> 0 \<le> height r"
    "RegionFromRects alloc_ok rects False = (k, reg)"
  shows "banded (RegionRects reg) \<and> RegionIsValid reg \<and>
     (\<forall>x y. covers (RegionRects reg) x y \<longleftrightarrow>
        (\<exists>r \<in> set rects. rect_x r \<le> x \<and> x < rect_x r + width r \<and> x < 32767 \<and>
           rect_y r \<le> y \<and> y < rect_y r + height r \<and> y < 32767))"
proof -
  let ?boxes = "filter nonempty_box (map rect_box rects)"
  have valid: "nonempty_box (rect_box r) \<longleftrightarrow> valid_box (rect_box r)" if "r \<in> set rects" for r
    using assms(1) that by (auto simp: nonempty_box_def valid_box_def rect_box_def min_def split: if_splits)
  have inb: "INBOX (rect_box r) x y \<longleftrightarrow> rect_x r \<le> x \<and> x < rect_x r + width r \<and> x < 32767 \<and>
      rect_y r \<le> y \<and> y < rect_y r + height r \<and> y < 32767" for r x y
    by (auto simp: INBOX_def rect_box_def)
  have empty: "INBOX b x y \<Longrightarrow> valid_box b" for b x y by (auto simp: INBOX_def valid_box_def)
  have cov: "covers ?boxes x y \<longleftrightarrow> (\<exists>r \<in> set rects. INBOX (rect_box r) x y)" for x y
    unfolding covers_def using valid empty by simp blast
  have none: "region_ok reg' \<or> reg' = \<lparr>extents = RegionEmptyBox, rdata = RegionEmptyData\<rparr> \<Longrightarrow>
      banded (RegionRects reg') \<and> RegionIsValid reg'" for reg'
    using region_ok_RegionIsValid [of reg'] region_ok_simps(2) [of reg'] empty_region by blast
  have create: "RegionCreate alloc_ok 0 None 0 = (1, \<lparr>extents = RegionEmptyBox, rdata = RegionEmptyData\<rparr>)"
    by (simp add: RegionCreate_def RegionInit_def)
  have "(region_ok reg \<or> reg = \<lparr>extents = RegionEmptyBox, rdata = RegionEmptyData\<rparr>) \<and> covers (RegionRects reg) = covers ?boxes"
  proof (cases "length rects \<le> 1 \<or> ?boxes = []")
    case True
    then consider "?boxes = []" | r where "rects = [r]" "nonempty_box (rect_box r)"
      by (cases rects) (auto split: if_splits)
    then show ?thesis
    proof cases
      case 1
      then have "reg = \<lparr>extents = RegionEmptyBox, rdata = RegionEmptyData\<rparr>"
        using assms(2) by (cases rects; cases "tl rects") (auto simp: RegionFromRects_def create RegionNar_def Let_def split: if_splits)
      then show ?thesis unfolding 1 by (simp add: RegionRects_def)
    next
      case 2
      then have reg: "reg = \<lparr>extents = rect_box r, rdata = NullData\<rparr>"
        using assms(2) by (simp add: RegionFromRects_def create RegionNar_def)
      have "banded [rect_box r]" using valid [of r] 2 by simp
      then have "region_ok reg"
        using tight_single unfolding reg by (simp add: region_ok_def RegionRects_def RegionNar_def wf_reg_def)
      then show ?thesis using 2 reg by (simp add: RegionRects_def)
    qed
  next
    case False
    let ?reg = "\<lparr>extents = RegionEmptyBox\<lparr>x1 := 0, x2 := 0\<rparr>, rdata = RegionData (length rects) ?boxes\<rparr>"
    have "\<forall>b \<in> set ?boxes. valid_box b" "length ?boxes \<le> length rects"
      using valid length_filter_le [of nonempty_box "map rect_box rects"] by auto
    then obtain k' reg' ov where "RegionValidate alloc_ok 2 ?reg = (True, k', reg', ov)" "region_ok reg'"
      "covers (RegionRects reg') = covers ?boxes"
      using RegionValidate_run [of ?reg "length rects" ?boxes 2] False by auto
    then show ?thesis
      using assms(2) False by (cases rects) (auto simp: RegionFromRects_def create RegionNar_def Let_def numeral_2_eq_2)
  qed
  then show ?thesis using none cov inb by auto
qed

lemma RegionFromRects_correct_witness:
  "\<exists>k reg. RegionFromRects alloc_ok
       [\<lparr>rect_x = 32760, rect_y = 0, width = 100, height = 2\<rparr>, \<lparr>rect_x = -5, rect_y = 1, width = 10, height = 4\<rparr>,
        \<lparr>rect_x = 0, rect_y = 0, width = 0, height = 9\<rparr>] False = (k, reg) \<and>
     RegionIsValid reg \<and> covers (RegionRects reg) 32766 1 \<and> \<not> covers (RegionRects reg) 32767 1 \<and> \<not> covers (RegionRects reg) 5 1"
proof -
  let ?rects = "[\<lparr>rect_x = 32760, rect_y = 0, width = 100, height = 2\<rparr>, \<lparr>rect_x = -5, rect_y = 1, width = 10, height = 4\<rparr>,
        \<lparr>rect_x = 0, rect_y = 0, width = 0, height = 9\<rparr>]"
  obtain k reg where run: "RegionFromRects alloc_ok ?rects False = (k, reg)" by (cases "RegionFromRects alloc_ok ?rects False")
  show ?thesis using RegionFromRects_correct [OF _ run] run by auto
qed

end
