(* ===== verification/Hash_Table.thy ===== *)
theory Hash_Table
  imports Keyed_Store "HOL-Library.Multiset"
begin

text \<open>
  The hash table of the extensions (\<^verbatim>\<open>Xext/hashtable.c\<close>): chains in an array of buckets that is
  doubled when the chains get long, with the hash and the comparison given by the client.

  \<^item> A bucket is a list, newest first (\<^verbatim>\<open>xorg_list_add\<close> adds at the head).
  \<^item> \<^verbatim>\<open>ht_add\<close> returns a pointer to zeroed data that the caller then fills; the model takes
    what the caller writes there as an argument.
  \<^item> The client data \<^verbatim>\<open>cdata\<close> is part of the hash and comparison functions.
\<close>

section \<open>State and operations\<close>

abbreviation INITHASHSIZE :: nat where "INITHASHSIZE \<equiv> 6"
abbreviation MAXHASHSIZE :: nat where "MAXHASHSIZE \<equiv> 11"

record ('k, 'v) BucketRec =
  bkey :: 'k
  bdata :: 'v

record ('k, 'v) HashTable =
  keySize :: nat
  dataSize :: nat
  elements :: nat
  bucketBits :: nat
  buckets :: "('k, 'v) BucketRec list list"

type_synonym 'k HashFunc = "'k \<Rightarrow> nat \<Rightarrow> nat"
type_synonym 'k HashCompareFunc = "'k \<Rightarrow> 'k \<Rightarrow> int"

definition ht_create :: "alloc \<Rightarrow> nat \<Rightarrow> nat \<Rightarrow> ('k, 'v) HashTable option" where
  "ht_create ok keySize' dataSize' =
     (if \<not> ok 0 then None
      else if \<not> ok 1 then None
      else Some \<lparr>keySize = keySize', dataSize = dataSize', elements = 0, bucketBits = INITHASHSIZE,
                 buckets = replicate (2 ^ INITHASHSIZE) []\<rparr>)"

text \<open>Memory blocks, to say what is freed.\<close>

datatype 'k block = ElemBlock 'k | KeyBlock 'k | DataBlock 'k | BucketArray

definition ht_destroy :: "('k, 'v) HashTable \<Rightarrow> 'k block list" where
  "ht_destroy ht = map (ElemBlock \<circ> bkey) (concat (buckets ht)) @ [BucketArray]"

text \<open>Moving every element, chain by chain from the head, to the head of its new bucket.\<close>

fun move_all :: "'k HashFunc \<Rightarrow> nat \<Rightarrow> ('k, 'v) BucketRec list \<Rightarrow> ('k, 'v) BucketRec list list \<Rightarrow> ('k, 'v) BucketRec list list" where
  "move_all hash newBits [] new = new"
| "move_all hash newBits (it # its) new =
     (let i = hash (bkey it) newBits in move_all hash newBits its (new[i := it # new ! i]))"

definition double_size :: "'k HashFunc \<Rightarrow> bool \<Rightarrow> ('k, 'v) HashTable \<Rightarrow> bool \<times> ('k, 'v) HashTable" where
  "double_size hash mem ht =
     (if mem then
        let newBucketBits = bucketBits ht + 1;
            newBuckets = move_all hash newBucketBits (concat (buckets ht)) (replicate (2 ^ newBucketBits) [])
        in (True, ht\<lparr>buckets := newBuckets, bucketBits := newBucketBits\<rparr>)
      else (False, ht))"

text \<open>\<open>None\<close> is the NULL of an allocation that failed; the allocations are numbered in order.\<close>

definition ht_add :: "'k HashFunc \<Rightarrow> alloc \<Rightarrow> 'k \<Rightarrow> 'v \<Rightarrow> ('k, 'v) HashTable \<Rightarrow> unit option \<times> ('k, 'v) HashTable" where
  "ht_add hash ok key value ht =
     (let index = hash key (bucketBits ht)
      in if \<not> ok 0 then (None, ht)
         else if \<not> ok 1 then (None, ht)
         else if dataSize ht \<noteq> 0 \<and> \<not> ok 2 then (None, ht)
         else
           let ht1 = ht\<lparr>buckets := (buckets ht)[index := \<lparr>bkey = key, bdata = value\<rparr> # buckets ht ! index],
                        elements := elements ht + 1\<rparr>
           in if elements ht1 > 4 * 2 ^ bucketBits ht1 \<and> bucketBits ht1 < MAXHASHSIZE
              then (case double_size hash (ok 3) ht1 of
                      (True, ht2) \<Rightarrow> (Some (), ht2)
                    | (False, ht2) \<Rightarrow>
                        (None, ht2\<lparr>elements := elements ht2 - 1, buckets := (buckets ht2)[index := tl (buckets ht2 ! index)]\<rparr>))
              else (Some (), ht1))"

text \<open>The first element of a chain with the key is unlinked.\<close>

fun unlink_first :: "'k HashCompareFunc \<Rightarrow> 'k \<Rightarrow> ('k, 'v) BucketRec list \<Rightarrow> (('k, 'v) BucketRec \<times> ('k, 'v) BucketRec list) option" where
  "unlink_first compare key [] = None"
| "unlink_first compare key (it # its) =
     (if compare key (bkey it) = 0 then Some (it, its)
      else map_option (\<lambda>(e, rest). (e, it # rest)) (unlink_first compare key its))"

definition ht_remove ::
    "'k HashFunc \<Rightarrow> 'k HashCompareFunc \<Rightarrow> 'k \<Rightarrow> ('k, 'v) HashTable \<Rightarrow> 'k block list \<times> ('k, 'v) HashTable" where
  "ht_remove hash compare key ht =
     (let index = hash key (bucketBits ht)
      in case unlink_first compare key (buckets ht ! index) of
           None \<Rightarrow> ([], ht)
         | Some (it, rest) \<Rightarrow>
             ([KeyBlock (bkey it), DataBlock (bkey it), ElemBlock (bkey it)],
              ht\<lparr>buckets := (buckets ht)[index := rest], elements := elements ht - 1\<rparr>))"

definition ht_find :: "'k HashFunc \<Rightarrow> 'k HashCompareFunc \<Rightarrow> ('k, 'v) HashTable \<Rightarrow> 'k \<Rightarrow> 'v option" where
  "ht_find hash compare ht key =
     map_option bdata (List.find (\<lambda>it. compare key (bkey it) = 0) (buckets ht ! hash key (bucketBits ht)))"

section \<open>Hash and comparison functions\<close>

fun one_at_a_time_loop :: "byte list \<Rightarrow> CARD32 \<Rightarrow> CARD32" where
  "one_at_a_time_loop [] h = h"
| "one_at_a_time_loop (b # bs) h =
     (let h1 = h + scast b; h2 = h1 + push_bit 10 h1; h3 = h2 XOR drop_bit 6 h2
      in one_at_a_time_loop bs h3)"

definition one_at_a_time_hash :: "byte list \<Rightarrow> CARD32" where
  "one_at_a_time_hash key =
     (let h = one_at_a_time_loop key 0; h1 = h + push_bit 3 h; h2 = h1 XOR drop_bit 11 h1
      in h2 + push_bit 15 h2)"

text \<open>The mask is the complement of \<^verbatim>\<open>~0\<close> shifted left.\<close>

definition ht_generic_hash :: "nat \<Rightarrow> byte list HashFunc" where
  "ht_generic_hash keySize' key numBits =
     unat (one_at_a_time_hash (take keySize' key) AND NOT (push_bit numBits (NOT 0)))"

fun memcmp :: "byte list \<Rightarrow> byte list \<Rightarrow> nat \<Rightarrow> int" where
  "memcmp (a # l) (b # r) (Suc n) = (if a = b then memcmp l r n else uint a - uint b)"
| "memcmp _ _ _ = 0"

definition ht_generic_compare :: "nat \<Rightarrow> byte list HashCompareFunc" where
  "ht_generic_compare keySize' l r = memcmp l r keySize'"

definition ht_resourceid_compare :: "XID HashCompareFunc" where
  "ht_resourceid_compare a b = (if a < b then -1 else if a > b then 1 else 0)"


section \<open>Facts about the functions\<close>

lemma ht_generic_hash_less: "n \<le> MAXHASHSIZE \<Longrightarrow> ht_generic_hash ks key n < 2 ^ n"
proof -
  assume n: "n \<le> MAXHASHSIZE"
  have "NOT (push_bit n (NOT 0)) = (mask n :: CARD32)"
    by (rule bit_word_eqI) (auto simp: bit_simps)
  then have "ht_generic_hash ks key n = unat (take_bit n (one_at_a_time_hash (take ks key)))"
    by (simp add: ht_generic_hash_def take_bit_eq_mask)
  also have "\<dots> < 2 ^ n" using n by (simp add: unsigned_take_bit_eq)
  finally show ?thesis .
qed

lemma memcmp_eq_0: "length l = n \<Longrightarrow> length r = n \<Longrightarrow> memcmp l r n = 0 \<longleftrightarrow> l = r"
  by (induction l r n rule: memcmp.induct) (auto simp: word_uint_eq_iff)

section \<open>The table as a map\<close>

text \<open>Every function pair of a client has to hash into the table and to tell keys apart.\<close>

locale hash_functions =
  fixes hash :: "'k HashFunc" and compare :: "'k HashCompareFunc" and key_ok :: "'k \<Rightarrow> bool"
  assumes hash_less: "n \<le> MAXHASHSIZE \<Longrightarrow> hash k n < 2 ^ n"
    and compare_eq: "key_ok a \<Longrightarrow> key_ok b \<Longrightarrow> compare a b = 0 \<longleftrightarrow> a = b"

definition all_elems :: "('k, 'v) HashTable \<Rightarrow> ('k, 'v) BucketRec list" where
  "all_elems ht = concat (buckets ht)"

definition ht_inv :: "'k HashFunc \<Rightarrow> ('k \<Rightarrow> bool) \<Rightarrow> ('k, 'v) HashTable \<Rightarrow> bool" where
  "ht_inv hash key_ok ht \<longleftrightarrow> length (buckets ht) = 2 ^ bucketBits ht \<and> bucketBits ht \<le> MAXHASHSIZE \<and>
     elements ht = length (all_elems ht) \<and> distinct (map bkey (all_elems ht)) \<and>
     (\<forall>it \<in> set (all_elems ht). key_ok (bkey it)) \<and>
     (\<forall>i < length (buckets ht). \<forall>it \<in> set (buckets ht ! i). hash (bkey it) (bucketBits ht) = i)"

lemma mset_concat_update:
  "i < length xss \<Longrightarrow> mset (concat (xss[i := ys])) + mset (xss ! i) = mset (concat xss) + mset ys"
  using concat_update [of i xss ys] concat_split [of i xss] by (simp add: ac_simps)

lemma move_all_nth:
  "\<forall>it \<in> set its. hash (bkey it) n < length new \<Longrightarrow> i < length new \<Longrightarrow>
     move_all hash n its new ! i = rev (filter (\<lambda>it. hash (bkey it) n = i) its) @ new ! i"
  by (induction hash n its new rule: move_all.induct) (auto simp: Let_def nth_list_update)

lemma length_move_all [simp]: "length (move_all hash n its new) = length new"
  by (induction hash n its new rule: move_all.induct) (auto simp: Let_def)

lemma mset_move_all:
  "\<forall>it \<in> set its. hash (bkey it) n < length new \<Longrightarrow>
     mset (concat (move_all hash n its new)) = mset its + mset (concat new)"
proof (induction hash n its new rule: move_all.induct)
  case (2 hash n it its new)
  let ?i = "hash (bkey it) n"
  have "mset (concat (new[?i := it # new ! ?i])) + mset (new ! ?i) = mset (concat new) + mset (it # new ! ?i)"
    using 2(2) by (intro mset_concat_update) simp
  then have "mset (concat (new[?i := it # new ! ?i])) = add_mset it (mset (concat new))" by simp
  then show ?case using 2 by (simp add: Let_def)
qed simp

lemma elem_bucket: "i < length (buckets ht) \<Longrightarrow> it \<in> set (buckets ht ! i) \<Longrightarrow> it \<in> set (all_elems ht)"
  by (auto simp: all_elems_def)

lemma elem_in_bucket:
  assumes "it \<in> set (all_elems ht)"
  obtains j where "j < length (buckets ht)" "it \<in> set (buckets ht ! j)"
proof -
  obtain c where "c \<in> set (buckets ht)" "it \<in> set c" using assms by (auto simp: all_elems_def)
  then show thesis using that by (auto simp: in_set_conv_nth [of c])
qed

lemma distinct_keys_same:
  "distinct (map bkey its) \<Longrightarrow> a \<in> set its \<Longrightarrow> b \<in> set its \<Longrightarrow> bkey a = bkey b \<Longrightarrow> a = b"
  by (auto simp: distinct_map inj_on_def)

lemma mset_keys_distinct: "mset xs = mset ys \<Longrightarrow> distinct (map bkey xs) = distinct (map bkey ys)"
  by (metis mset_eq_imp_distinct_iff mset_map)

context hash_functions
begin

abbreviation "tab_inv \<equiv> ht_inv hash key_ok"

lemma find_iff:
  assumes "tab_inv ht" "key_ok k"
  shows "ht_find hash compare ht k = Some v \<longleftrightarrow> \<lparr>bkey = k, bdata = v\<rparr> \<in> set (all_elems ht)"
proof -
  note i = assms(1) [unfolded ht_inv_def]
  let ?h = "hash k (bucketBits ht)"
  have h: "?h < length (buckets ht)" using i hash_less by simp
  have cmp: "compare k (bkey it) = 0 \<longleftrightarrow> bkey it = k" if "it \<in> set (buckets ht ! ?h)" for it
    using compare_eq [OF assms(2)] i elem_bucket [OF h that] by auto
  have same: "List.find (\<lambda>it. compare k (bkey it) = 0) (buckets ht ! ?h) = List.find (\<lambda>it. bkey it = k) (buckets ht ! ?h)"
    by (rule find_cong) (auto simp: cmp)
  have here: "it \<in> set (buckets ht ! ?h)" if m: "it \<in> set (all_elems ht)" and eq: "bkey it = k" for it
  proof -
    obtain j where "j < length (buckets ht)" "it \<in> set (buckets ht ! j)"
      by (rule elem_in_bucket [OF m])
    moreover from this have "hash (bkey it) (bucketBits ht) = j" using i by blast
    ultimately show ?thesis using eq by simp
  qed
  show ?thesis
  proof
    assume "ht_find hash compare ht k = Some v"
    then obtain it where "List.find (\<lambda>it. bkey it = k) (buckets ht ! ?h) = Some it" "bdata it = v"
      by (auto simp: ht_find_def same)
    then have "it \<in> set (all_elems ht)" "it = \<lparr>bkey = k, bdata = v\<rparr>"
      using elem_bucket [OF h] by (auto simp: find_Some_iff intro!: BucketRec.equality)
    then show "\<lparr>bkey = k, bdata = v\<rparr> \<in> set (all_elems ht)" by simp
  next
    assume m: "\<lparr>bkey = k, bdata = v\<rparr> \<in> set (all_elems ht)"
    then have "\<exists>it \<in> set (buckets ht ! ?h). bkey it = k" using here by force
    then obtain it where it: "List.find (\<lambda>it. bkey it = k) (buckets ht ! ?h) = Some it"
      by (cases "List.find (\<lambda>it. bkey it = k) (buckets ht ! ?h)") (auto simp: find_None_iff)
    then have "it \<in> set (all_elems ht)" "bkey it = k" using elem_bucket [OF h] by (auto simp: find_Some_iff)
    then have "it = \<lparr>bkey = k, bdata = v\<rparr>" using distinct_keys_same [of "all_elems ht" it] m i by simp
    then show "ht_find hash compare ht k = Some v" using it by (simp add: ht_find_def same)
  qed
qed

lemma find_none: "tab_inv ht \<Longrightarrow> key_ok k \<Longrightarrow> ht_find hash compare ht k = None \<longleftrightarrow> k \<notin> bkey ` set (all_elems ht)"
proof -
  assume a: "tab_inv ht" "key_ok k"
  have "ht_find hash compare ht k \<noteq> None \<longleftrightarrow> (\<exists>v. \<lparr>bkey = k, bdata = v\<rparr> \<in> set (all_elems ht))"
    using find_iff [OF a] by auto
  also have "\<dots> \<longleftrightarrow> k \<in> bkey ` set (all_elems ht)"
  proof
    assume "k \<in> bkey ` set (all_elems ht)"
    then obtain it where "it \<in> set (all_elems ht)" "bkey it = k" by blast
    moreover have "\<lparr>bkey = bkey it, bdata = bdata it\<rparr> = it" by simp
    ultimately have "\<lparr>bkey = k, bdata = bdata it\<rparr> \<in> set (all_elems ht)" by metis
    then show "\<exists>v. \<lparr>bkey = k, bdata = v\<rparr> \<in> set (all_elems ht)" by blast
  qed force
  finally show ?thesis by blast
qed

lemma double_size_correct:
  fixes ht :: "('k, 'v) HashTable"
  assumes "tab_inv ht" "bucketBits ht < MAXHASHSIZE"
  obtains ht' where "double_size hash True ht = (True, ht')" "tab_inv ht'" "set (all_elems ht') = set (all_elems ht)"
    "dataSize ht' = dataSize ht"
proof -
  note i = assms(1) [unfolded ht_inv_def]
  let ?n = "bucketBits ht + 1" and ?its = "concat (buckets ht)"
  let ?new = "move_all hash ?n ?its (replicate (2 ^ ?n) [])"
  let ?ht = "ht\<lparr>buckets := ?new, bucketBits := ?n\<rparr>"
  have less: "\<forall>it \<in> set ?its. hash (bkey it) ?n < length (replicate (2 ^ ?n) ([] :: ('k, 'v) BucketRec list))"
    using hash_less [of ?n] assms(2) by simp
  have ms: "mset (all_elems ?ht) = mset (all_elems ht)"
    using mset_move_all [where hash = hash and n = ?n, OF less] by (simp add: all_elems_def)
  have "\<forall>j < length ?new. \<forall>it \<in> set (?new ! j). hash (bkey it) ?n = j"
    using move_all_nth [where hash = hash and n = ?n, OF less] by simp
  then have "tab_inv ?ht"
    using i assms(2) ms mset_keys_distinct [OF ms] mset_eq_setD [OF ms] mset_eq_length [OF ms] by (simp add: ht_inv_def)
  then show thesis using that [of ?ht] mset_eq_setD [OF ms] by (simp add: double_size_def Let_def)
qed


lemma add_correct:
  fixes ht :: "('k, 'v) HashTable"
  assumes i: "tab_inv ht" and k: "key_ok k" "ht_find hash compare ht k = None"
  obtains ht' where "ht_add hash alloc_ok k v ht = (Some (), ht')" "tab_inv ht'"
    "set (all_elems ht') = insert \<lparr>bkey = k, bdata = v\<rparr> (set (all_elems ht))"
proof -
  note inv = i [unfolded ht_inv_def]
  let ?h = "hash k (bucketBits ht)" and ?it = "\<lparr>bkey = k, bdata = v\<rparr>"
  let ?ht = "ht\<lparr>buckets := (buckets ht)[?h := ?it # buckets ht ! ?h], elements := elements ht + 1\<rparr>"
  have h: "?h < length (buckets ht)" using inv hash_less by simp
  have ms: "mset (all_elems ?ht) = add_mset ?it (mset (all_elems ht))"
    using mset_concat_update [OF h, of "?it # buckets ht ! ?h"] by (simp add: all_elems_def)
  have new: "k \<notin> bkey ` set (all_elems ht)" using find_none [OF i k(1)] k(2) by simp
  have set: "set (all_elems ?ht) = insert ?it (set (all_elems ht))" using ms by (metis set_mset_add_mset_insert set_mset_mset)
  have ms': "mset (all_elems ?ht) = mset (?it # all_elems ht)" using ms by simp
  have "distinct (map bkey (?it # all_elems ht))" using inv new by simp
  then have "distinct (map bkey (all_elems ?ht))" using mset_keys_distinct [OF ms'] by blast
  moreover have "elements ?ht = length (all_elems ?ht)" using mset_eq_length [OF ms'] inv by simp
  moreover have "\<forall>it \<in> set (all_elems ?ht). key_ok (bkey it)" unfolding set using inv k by simp
  moreover have "\<forall>i < length (buckets ?ht). \<forall>it \<in> set (buckets ?ht ! i). hash (bkey it) (bucketBits ?ht) = i"
    using inv h by (auto simp: nth_list_update split: if_splits)
  ultimately have ht: "tab_inv ?ht" using inv by (simp add: ht_inv_def)
  show thesis
  proof (cases "elements ?ht > 4 * 2 ^ bucketBits ?ht \<and> bucketBits ?ht < MAXHASHSIZE")
    case True
    obtain ht' where d: "double_size hash True ?ht = (True, ht')" "tab_inv ht'" "set (all_elems ht') = set (all_elems ?ht)"
      by (rule double_size_correct [OF ht]) (use True in \<open>blast+\<close>)
    then have "ht_add hash alloc_ok k v ht = (Some (), ht')" using True by (simp add: ht_add_def Let_def)
    then show thesis using that d set by simp
  next
    case False
    then have "ht_add hash alloc_ok k v ht = (Some (), ?ht)" by (auto simp: ht_add_def Let_def)
    then show thesis using that ht set by simp
  qed
qed

lemma unlink_first_Some:
  "unlink_first compare k its = Some (it, rest) \<Longrightarrow> key_ok k \<Longrightarrow> \<forall>x \<in> set its. key_ok (bkey x) \<Longrightarrow>
     bkey it = k \<and> mset its = add_mset it (mset rest)"
  by (induction its arbitrary: rest) (auto simp: compare_eq split: if_splits)

lemma unlink_first_None:
  "unlink_first compare k its = None \<Longrightarrow> key_ok k \<Longrightarrow> \<forall>x \<in> set its. key_ok (bkey x) \<Longrightarrow> k \<notin> bkey ` set its"
  by (induction its) (auto simp: compare_eq split: if_splits)

lemma remove_correct:
  fixes ht :: "('k, 'v) HashTable"
  assumes i: "tab_inv ht" and k: "key_ok k"
  shows "tab_inv (snd (ht_remove hash compare k ht)) \<and>
     set (all_elems (snd (ht_remove hash compare k ht))) = {it \<in> set (all_elems ht). bkey it \<noteq> k}"
proof -
  note inv = i [unfolded ht_inv_def]
  let ?h = "hash k (bucketBits ht)"
  have h: "?h < length (buckets ht)" using inv hash_less by simp
  have ok: "\<forall>x \<in> set (buckets ht ! ?h). key_ok (bkey x)" using inv elem_bucket [OF h] by blast
  show ?thesis
  proof (cases "unlink_first compare k (buckets ht ! ?h)")
    case None
    have "it \<notin> set (buckets ht ! ?h)" if "bkey it = k" for it
      using unlink_first_None [OF None k ok] that by blast
    then have "bkey it \<noteq> k" if m: "it \<in> set (all_elems ht)" for it
    proof -
      obtain j where j: "j < length (buckets ht)" "it \<in> set (buckets ht ! j)" by (rule elem_in_bucket [OF m])
      then have "hash (bkey it) (bucketBits ht) = j" using inv by blast
      then show ?thesis using \<open>\<And>it. bkey it = k \<Longrightarrow> it \<notin> set (buckets ht ! ?h)\<close> j(2) by blast
    qed
    then show ?thesis using i None by (auto simp: ht_remove_def)
  next
    case (Some p)
    then obtain it rest where u: "unlink_first compare k (buckets ht ! ?h) = Some (it, rest)" by (cases p) simp
    let ?ht = "ht\<lparr>buckets := (buckets ht)[?h := rest], elements := elements ht - 1\<rparr>"
    note f = unlink_first_Some [OF u k ok]
    have "mset (all_elems ?ht) + add_mset it (mset rest) = mset (all_elems ht) + mset rest"
      using mset_concat_update [OF h, of rest] f by (simp add: all_elems_def)
    then have ms: "mset (all_elems ht) = mset (it # all_elems ?ht)" by simp
    have dist: "distinct (map bkey (it # all_elems ?ht))"
      using mset_keys_distinct [OF ms] inv by simp
    have set: "set (all_elems ht) = insert it (set (all_elems ?ht))" using mset_eq_setD [OF ms] by simp
    have "set rest \<subseteq> set (buckets ht ! ?h)" using f by (metis set_mset_add_mset_insert set_mset_mset subset_insertI)
    then have "tab_inv ?ht"
      using inv dist set mset_eq_length [OF ms] h unfolding ht_inv_def by (auto simp: nth_list_update)
    moreover have "set (all_elems ?ht) = {x \<in> set (all_elems ht). bkey x \<noteq> k}"
      using set dist f by (fastforce simp: image_iff)
    ultimately show ?thesis using u by (simp add: ht_remove_def Let_def)
  qed
qed

end

text \<open>Such functions make the table a finite map.\<close>

sublocale hash_functions \<subseteq> ht: map_store "ht_inv hash key_ok" key_ok "ht_find hash compare"
    "\<lambda>k v s. snd (ht_add hash alloc_ok k v s)" "\<lambda>k s. snd (ht_remove hash compare k s)"
proof unfold_locales
  fix s :: "('k, 'v) HashTable" and k v
  assume a: "ht_inv hash key_ok s" "key_ok k" "ht_find hash compare s k = None"
  obtain s' where s': "ht_add hash alloc_ok k v s = (Some (), s')" "ht_inv hash key_ok s'"
    "set (all_elems s') = insert \<lparr>bkey = k, bdata = v\<rparr> (set (all_elems s))"
    by (rule add_correct [OF a])
  then show "ht_inv hash key_ok (snd (ht_add hash alloc_ok k v s))" by simp
  fix j assume j: "key_ok j"
  have "k \<notin> bkey ` set (all_elems s)" using find_none [OF a(1,2)] a(3) by simp
  then have "ht_find hash compare s' j = Some w \<longleftrightarrow> (if j = k then Some v else ht_find hash compare s j) = Some w" for w
    using find_iff [OF s'(2) j] find_iff [OF a(1) j] s'(3) by force
  then show "ht_find hash compare (snd (ht_add hash alloc_ok k v s)) j = (if j = k then Some v else ht_find hash compare s j)"
    using s'(1) by (metis not_Some_eq snd_conv)
next
  fix s :: "('k, 'v) HashTable" and k
  assume a: "ht_inv hash key_ok s" "key_ok k"
  note r = remove_correct [OF a]
  then show i: "ht_inv hash key_ok (snd (ht_remove hash compare k s))" by simp
  fix j assume j: "key_ok j"
  have "ht_find hash compare (snd (ht_remove hash compare k s)) j = Some w \<longleftrightarrow>
      (if j = k then None else ht_find hash compare s j) = Some w" for w
    using find_iff [OF i j] find_iff [OF a(1) j] r by simp
  then show "ht_find hash compare (snd (ht_remove hash compare k s)) j = (if j = k then None else ht_find hash compare s j)"
    by (metis not_Some_eq)
qed

context hash_functions
begin

lemmas run_map_refines = ht.run_refines_map

end

interpretation generic: hash_functions "ht_generic_hash n" "ht_generic_compare n" "\<lambda>key. length key = n" for n
  by unfold_locales (simp_all add: ht_generic_hash_less ht_generic_compare_def memcmp_eq_0)


section \<open>Properties\<close>

lemma ht_create_inv:
  "ht_create alloc_ok ks ds = Some ht \<Longrightarrow> ht_inv hash key_ok ht \<and> all_elems ht = []"
  by (auto simp: ht_create_def ht_inv_def all_elems_def)



text \<open>An addition that answers NULL because an allocation failed leaves the table as it was, even when the
  failure is that of the doubling, after the element had already been linked.\<close>

theorem ht_add_no_memory:
  assumes "hash key (bucketBits ht) < length (buckets ht)" "ht_add hash ok key v ht = (None, ht')"
  shows "ht' = ht \<and> (\<exists>i < 4. \<not> ok i)"
proof -
  have "(buckets ht)[hash key (bucketBits ht) := tl ((buckets ht)[hash key (bucketBits ht) :=
      \<lparr>bkey = key, bdata = v\<rparr> # buckets ht ! hash key (bucketBits ht)] ! hash key (bucketBits ht))] = buckets ht"
    using assms(1) by simp
  then have "ht' = ht" using assms by (auto simp: ht_add_def Let_def double_size_def split: if_splits)
  moreover have "\<not> ok 0 \<or> \<not> ok 1 \<or> \<not> ok 2 \<or> \<not> ok 3"
    using assms(2) by (auto simp: ht_add_def Let_def double_size_def split: if_splits)
  then obtain i where "i \<in> {0, 1, 2, 3}" "\<not> ok i" by auto
  then have "\<exists>i < 4. \<not> ok i" by (intro exI [of _ i]) auto
  ultimately show ?thesis by blast
qed

lemma ht_add_no_memory_witness:
  "\<exists>ht'. ht_add (\<lambda>k n. 0) (\<lambda>i. i \<noteq> 2) (3 :: nat) True
      \<lparr>keySize = 4, dataSize = 1, elements = 0, bucketBits = 0, buckets = [[]]\<rparr> = (None, ht') \<and>
     ht' = \<lparr>keySize = 4, dataSize = 1, elements = 0, bucketBits = 0, buckets = [[]]\<rparr>"
proof -
  let ?ht = "\<lparr>keySize = 4, dataSize = 1, elements = 0, bucketBits = 0, buckets = [[]]\<rparr> :: (nat, bool) HashTable"
  have run: "ht_add (\<lambda>k n. 0) (\<lambda>i. i \<noteq> 2) 3 True ?ht = (None, ?ht)" by (simp add: ht_add_def)
  show ?thesis using ht_add_no_memory [OF _ run] run by simp
qed

text \<open>A key that is added twice shows its newest value, until the table is doubled: that turns
  every chain round, and the older value comes to the front.\<close>

lemma doubling_reverses_duplicates:
  "let ht = \<lparr>keySize = 4, dataSize = 4, elements = 2, bucketBits = 0,
             buckets = [[\<lparr>bkey = 3 :: nat, bdata = ''new''\<rparr>, \<lparr>bkey = 3, bdata = ''old''\<rparr>]]\<rparr>;
       compare = (\<lambda>a b. int a - int b); hash = (\<lambda>k n. k mod 2 ^ n)
   in ht_find hash compare ht 3 = Some ''new'' \<and>
      ht_find hash compare (snd (double_size hash True ht)) 3 = Some ''old''"
  by code_simp

text \<open>Destroying a table frees the list records and the bucket array, but none of the keys and data, which
  removing the elements one by one would have freed.\<close>

lemma ht_destroy_leaks:
  "ht_destroy ht = map ElemBlock (map bkey (all_elems ht)) @ [BucketArray] \<and>
   KeyBlock k \<notin> set (ht_destroy ht) \<and> DataBlock k \<notin> set (ht_destroy ht)"
  by (auto simp: ht_destroy_def all_elems_def)

end
