(* ===== verification/Protocol.thy ===== *)
theory Protocol
  imports Ssx_Prelude
begin

text \<open>
  What the request handlers share: the status codes of \<^verbatim>\<open>X.h\<close>, the request length checks of
  \<^verbatim>\<open>include/dix.h\<close>, the access masks, and the answers of the access hook (\<^verbatim>\<open>include/xace.h\<close>).
\<close>

datatype status = Success | BadRequest | BadValue | BadWindow | BadPixmap | BadAtom | BadCursor | BadFont | BadMatch
  | BadDrawable | BadAccess | BadAlloc | BadColor | BadGC | BadIDChoice | BadName | BadLength | BadImplementation

abbreviation (input) DixReadAccess :: Mask where "DixReadAccess \<equiv> 1"
abbreviation (input) DixWriteAccess :: Mask where "DixWriteAccess \<equiv> 2"
abbreviation (input) DixDestroyAccess :: Mask where "DixDestroyAccess \<equiv> 4"
abbreviation (input) DixCreateAccess :: Mask where "DixCreateAccess \<equiv> 8"
abbreviation (input) DixGetAttrAccess :: Mask where "DixGetAttrAccess \<equiv> 16"
abbreviation (input) DixSetAttrAccess :: Mask where "DixSetAttrAccess \<equiv> 32"

abbreviation (input) XaceErrorOperation :: int where "XaceErrorOperation \<equiv> 0"
abbreviation (input) XaceAllowOperation :: int where "XaceAllowOperation \<equiv> 1"
abbreviation (input) XaceIgnoreOperation :: int where "XaceIgnoreOperation \<equiv> 2"

text \<open>The hook the server is built with answers \<^verbatim>\<open>Success\<close>, which is zero, to everything.\<close>

definition ssx_XaceHook :: int where
  "ssx_XaceHook = 0"

text \<open>
  The checks: true when the length is right. A size is in bytes, \<open>req_len\<close> in units of four.
  \<open>n\<close> has type \<^verbatim>\<open>int\<close>: a negative one becomes a large unsigned number in the second comparison and
  wraps at 64 bits in the third.
\<close>

definition REQUEST_SIZE_MATCH :: "nat \<Rightarrow> nat \<Rightarrow> bool" where
  "REQUEST_SIZE_MATCH sz req_len \<longleftrightarrow> sz div 4 = req_len"

definition REQUEST_AT_LEAST_SIZE :: "nat \<Rightarrow> nat \<Rightarrow> bool" where
  "REQUEST_AT_LEAST_SIZE sz req_len \<longleftrightarrow> \<not> sz div 4 > req_len"

definition REQUEST_FIXED_SIZE :: "nat \<Rightarrow> int \<Rightarrow> nat \<Rightarrow> bool" where
  "REQUEST_FIXED_SIZE sz n req_len \<longleftrightarrow>
     \<not> (sz div 4 > req_len \<or> nat ((n div 4) mod 2 ^ 32) \<ge> req_len \<or>
        nat ((int sz + n + 3) mod 2 ^ 64) div 4 \<noteq> req_len)"

text \<open>An \<^verbatim>\<open>unsigned long\<close> stored in an \<^verbatim>\<open>int\<close>.\<close>

definition to_int :: "nat \<Rightarrow> int" where
  "to_int n = (let m = n mod 2 ^ 32 in if m < 2 ^ 31 then int m else int m - 2 ^ 32)"

lemma int_mod_pos_eq_shift: "(a :: int) < 0 \<Longrightarrow> - m \<le> a \<Longrightarrow> a mod m = a + m"
  using mod_add_self2 [of a m] mod_pos_pos_trivial [of "a + m" m] by simp

lemma REQUEST_FIXED_SIZE_iff:
  assumes "n < 2 ^ 32" "4 \<le> sz" "sz < 2 ^ 16" "req_len < 2 ^ 29"
  shows "REQUEST_FIXED_SIZE sz (to_int n) req_len \<longleftrightarrow> (sz + n + 3) div 4 = req_len"
proof (cases "n < 2 ^ 31")
  case True
  have "nat ((int n div 4) mod 2 ^ 32) = n div 4" using True by simp
  moreover have "nat ((int sz + int n + 3) mod 2 ^ 64) = sz + n + 3" using True assms by simp
  ultimately show ?thesis using True assms by (auto simp: REQUEST_FIXED_SIZE_def to_int_def)
next
  case False
  then have n: "2147483648 \<le> n" "n < 4294967296" using assms(1) by simp_all
  have q: "(int n - 4294967296) div 4 = int n div 4 - 1073741824" by simp
  have "int n div 4 - 1073741824 < 0" "- 536870912 \<le> int n div 4 - 1073741824" using n by linarith+
  then have "(int n div 4 - 1073741824) mod 4294967296 = int n div 4 - 1073741824 + 4294967296"
    by (intro int_mod_pos_eq_shift) simp_all
  then have "req_len \<le> nat (((int n - 2 ^ 32) div 4) mod 2 ^ 32)" using assms(4) n q by simp
  then have "\<not> REQUEST_FIXED_SIZE sz (to_int n) req_len"
    using False assms(1) by (simp add: REQUEST_FIXED_SIZE_def to_int_def)
  moreover have "(sz + n + 3) div 4 \<noteq> req_len" using div_le_mono [of 2147483648 "sz + n + 3" 4] n assms(4) by simp
  ultimately show ?thesis by blast
qed

text \<open>A byte of a request that the code keeps in a (signed) \<^verbatim>\<open>char\<close> and stores as an error value of 32 bits.\<close>

definition char_value :: "nat \<Rightarrow> nat" where
  "char_value n = (if n < 128 then n else n + 0xffffff00)"

end
