(* ===== verification/Window_Optional.thy ===== *)
theory Window_Optional
  imports Protocol
begin

text \<open>
  The optional record of a window (\<^verbatim>\<open>WindowOptRec\<close> in \<^verbatim>\<open>include/windowstr.h\<close>, and the end of
  \<^verbatim>\<open>dix/window.c\<close>): it is made when a member needs a value other than its default and is meant to
  be disposed of when all members are back at their defaults.

  \<^item> Pointers and identifiers are numbers, 0 for NULL and None. The list of properties is the list
    that \<^verbatim>\<open>userProps\<close> heads. Reference counts of cursors are not kept.
  \<^item> A window comes with the list of its ancestors, parent first; the root has no parent. The code
    assumes that some ancestor has the record.
\<close>

record Property =
  propertyName :: nat
  prop_type :: nat
  format :: nat
  prop_size :: nat
  prop_data :: "byte list"

record WindowOpt =
  visual :: nat
  cursor :: nat
  colormap :: nat
  dontPropagateMask :: Mask
  otherEventMasks :: Mask
  otherClients :: nat
  passiveGrabs :: nat
  userProps :: "Property list"
  backingBitPlanes :: ulong
  backingPixel :: ulong
  boundingShape :: nat
  clipShape :: nat
  inputShape :: nat
  inputMasks :: nat
  deviceCursors :: "nat list"

record Window =
  window_id :: XID
  optional :: "WindowOpt option"
  dontPropagate :: nat
  cursorIsNone :: bool

fun FindWindowWithOptional :: "Window list \<Rightarrow> Window option" where
  "FindWindowWithOptional [] = None"
| "FindWindowWithOptional (w # ancestors) = (if optional w \<noteq> None then Some w else FindWindowWithOptional ancestors)"

definition parentOptional :: "Window list \<Rightarrow> WindowOpt" where
  "parentOptional ancestors = the (optional (the (FindWindowWithOptional ancestors)))"

definition wUserProps :: "Window \<Rightarrow> Property list" where
  "wUserProps w = (case optional w of Some opt \<Rightarrow> userProps opt | None \<Rightarrow> [])"

text \<open>\<open>masks\<close> is the table \<^verbatim>\<open>DontPropagateMasks\<close>.\<close>

definition MakeWindowOptional :: "(nat \<Rightarrow> Mask) \<Rightarrow> Window list \<Rightarrow> alloc \<Rightarrow> nat \<Rightarrow> Window \<Rightarrow> bool \<times> nat \<times> Window" where
  "MakeWindowOptional masks ancestors ok k w =
     (if optional w \<noteq> None then (True, k, w)
      else if \<not> ok k then (False, Suc k, w)
      else
        let po = parentOptional ancestors
        in (True, Suc k, w\<lparr>optional := Some
             \<lparr>visual = visual po,
              cursor = (if \<not> cursorIsNone w then cursor po else 0),
              colormap = colormap po,
              dontPropagateMask = masks (dontPropagate w), otherEventMasks = 0, otherClients = 0, passiveGrabs = 0,
              userProps = [], backingBitPlanes = NOT 0, backingPixel = 0,
              boundingShape = 0, clipShape = 0, inputShape = 0, inputMasks = 0, deviceCursors = []\<rparr>\<rparr>))"

definition DisposeWindowOptional :: "Window \<Rightarrow> Window" where
  "DisposeWindowOptional w =
     (case optional w of
        None \<Rightarrow> w
      | Some opt \<Rightarrow> w\<lparr>optional := None, cursorIsNone := (cursor opt = 0)\<rparr>)"

text \<open>
  \<^verbatim>\<open>backingBitPlanes\<close> is an \<^verbatim>\<open>unsigned long\<close>; it is compared with the 32-bit number \<^verbatim>\<open>(CARD32) ~0L\<close>.
\<close>

definition CheckWindowOptionalNeed :: "(nat \<Rightarrow> Mask) \<Rightarrow> Window list \<Rightarrow> Window \<Rightarrow> Window" where
  "CheckWindowOptionalNeed masks ancestors w =
     (case optional w of
        None \<Rightarrow> w
      | Some opt \<Rightarrow>
          if ancestors = [] then w
          else if dontPropagateMask opt \<noteq> masks (dontPropagate w) then w
          else if otherEventMasks opt \<noteq> 0 then w
          else if otherClients opt \<noteq> 0 then w
          else if passiveGrabs opt \<noteq> 0 then w
          else if userProps opt \<noteq> [] then w
          else if backingBitPlanes opt \<noteq> 0xFFFFFFFF then w
          else if backingPixel opt \<noteq> 0 then w
          else if boundingShape opt \<noteq> 0 then w
          else if clipShape opt \<noteq> 0 then w
          else if inputShape opt \<noteq> 0 then w
          else if inputMasks opt \<noteq> 0 then w
          else if \<exists>c \<in> set (deviceCursors opt). c \<noteq> 0 then w
          else
            let po = parentOptional ancestors
            in if visual opt \<noteq> visual po then w
               else if cursor opt \<noteq> 0 \<and> (cursor opt \<noteq> cursor po \<or> cursorIsNone (hd ancestors)) then w
               else if colormap opt \<noteq> colormap po then w
               else DisposeWindowOptional w)"



end
