(* ===== verification/Timestamps.thy ===== *)
theory Timestamps
  imports Ssx_Prelude
begin

text \<open>
  Server time (\<^verbatim>\<open>dix/dixutils.c\<close>, \<^verbatim>\<open>dix/dispatch.c\<close>): 32 bits of milliseconds, which wrap every
  49.7 days, and the count of those ``months''. Requests carry only the milliseconds.
\<close>

record TimeStamp =
  months :: CARD32
  milliseconds :: CARD32

datatype time_order = EARLIER | SAMETIME | LATER

definition CompareTimeStamps :: "TimeStamp \<Rightarrow> TimeStamp \<Rightarrow> time_order" where
  "CompareTimeStamps a b =
     (if months a < months b then EARLIER
      else if months a > months b then LATER
      else if milliseconds a < milliseconds b then EARLIER
      else if milliseconds a > milliseconds b then LATER
      else SAMETIME)"

text \<open>The differences are computed in \<^verbatim>\<open>unsigned long\<close> and do not wrap.\<close>

definition HALFMONTH :: nat where
  "HALFMONTH = 2 ^ 31"

abbreviation (input) CurrentTime :: CARD32 where "CurrentTime \<equiv> 0"

definition ClientTimeToServerTime :: "TimeStamp \<Rightarrow> CARD32 \<Rightarrow> TimeStamp" where
  "ClientTimeToServerTime currentTime c =
     (if c = CurrentTime then currentTime
      else
        let ts = \<lparr>months = months currentTime, milliseconds = c\<rparr>
        in if c > milliseconds currentTime then
             if unat c - unat (milliseconds currentTime) > HALFMONTH then ts\<lparr>months := months ts - 1\<rparr> else ts
           else if c < milliseconds currentTime then
             if unat (milliseconds currentTime) - unat c > HALFMONTH then ts\<lparr>months := months ts + 1\<rparr> else ts
           else ts)"

text \<open>\<open>GetTimeInMillis\<close> is the reading of the clock, \<open>process\<close> what pending input events do to the time.\<close>

definition UpdateCurrentTime :: "bool \<Rightarrow> (TimeStamp \<Rightarrow> TimeStamp) \<Rightarrow> CARD32 \<Rightarrow> TimeStamp \<Rightarrow> TimeStamp" where
  "UpdateCurrentTime pending process GetTimeInMillis currentTime =
     (let systime = \<lparr>months = months currentTime, milliseconds = GetTimeInMillis\<rparr>;
          systime' = (if milliseconds systime < milliseconds currentTime
                      then systime\<lparr>months := months systime + 1\<rparr> else systime);
          currentTime' = (if pending then process currentTime else currentTime)
      in if CompareTimeStamps systime' currentTime' = LATER then systime' else currentTime')"

definition UpdateCurrentTimeIf :: "CARD32 \<Rightarrow> TimeStamp \<Rightarrow> TimeStamp" where
  "UpdateCurrentTimeIf GetTimeInMillis currentTime =
     (let systime = \<lparr>months = months currentTime, milliseconds = GetTimeInMillis\<rparr>;
          systime' = (if milliseconds systime < milliseconds currentTime
                      then systime\<lparr>months := months systime + 1\<rparr> else systime)
      in if CompareTimeStamps systime' currentTime = LATER then systime' else currentTime)"

section \<open>Time as a number\<close>

definition ticks :: "TimeStamp \<Rightarrow> nat" where
  "ticks t = unat (months t) * 2 ^ 32 + unat (milliseconds t)"

lemma unat32: "unat (w :: CARD32) < 4294967296"
  using unsigned_less [of w] by simp

lemma CompareTimeStamps_ticks:
  "CompareTimeStamps a b = (if ticks a < ticks b then EARLIER else if ticks a > ticks b then LATER else SAMETIME)"
proof -
  have m: "months a < months b \<longleftrightarrow> unat (months a) < unat (months b)" "months a = months b \<longleftrightarrow> unat (months a) = unat (months b)"
    "milliseconds a < milliseconds b \<longleftrightarrow> unat (milliseconds a) < unat (milliseconds b)"
    "milliseconds b < milliseconds a \<longleftrightarrow> unat (milliseconds b) < unat (milliseconds a)"
    "months b < months a \<longleftrightarrow> unat (months b) < unat (months a)"
    by (simp_all add: word_less_nat_alt word_unat_eq_iff)
  show ?thesis
    using unat32 [of "milliseconds a"] unat32 [of "milliseconds b"]
    unfolding CompareTimeStamps_def ticks_def m by (auto; linarith)
qed

lemma unat_inc: "unat (w :: CARD32) + 1 < 2 ^ 32 \<Longrightarrow> unat (w + 1) = unat w + 1"
  by (simp add: unat_word_ariths)

lemma unat_dec: "0 < unat (w :: CARD32) \<Longrightarrow> unat (w - 1) = unat w - 1"
  by (metis One_nat_def unat_gt_0 unat_minus_one)

lemma UpdateCurrentTimeIf_no_input: "UpdateCurrentTime False f ms t = UpdateCurrentTimeIf ms t"
  by (simp add: UpdateCurrentTime_def UpdateCurrentTimeIf_def)



text \<open>Reading the clock never turns server time back, whatever the clock answers and whatever pending input does, as
  long as that does not turn it back either; and unless the months run out the time takes over the clock's milliseconds.\<close>

theorem UpdateCurrentTime_monotone:
  assumes "\<And>t. ticks t \<le> ticks (process t)"
  shows "ticks now \<le> ticks (UpdateCurrentTime pending process ms now) \<and>
     (unat (months now) + 1 < 2 ^ 32 \<longrightarrow> milliseconds (UpdateCurrentTimeIf ms now) = ms)"
proof
  have "ticks now \<le> ticks (if pending then process now else now)" using assms by simp
  then show "ticks now \<le> ticks (UpdateCurrentTime pending process ms now)"
    by (auto simp: UpdateCurrentTime_def Let_def CompareTimeStamps_ticks split: if_splits)
  show "unat (months now) + 1 < 2 ^ 32 \<longrightarrow> milliseconds (UpdateCurrentTimeIf ms now) = ms"
  proof
    assume m: "unat (months now) + 1 < 2 ^ 32"
    consider "ms < milliseconds now" | "ms = milliseconds now" | "milliseconds now < ms" by force
    then show "milliseconds (UpdateCurrentTimeIf ms now) = ms"
    proof cases
      case 1
      then show ?thesis
        using unat32 [of ms] unat32 [of "milliseconds now"]
        by (simp add: UpdateCurrentTimeIf_def Let_def CompareTimeStamps_ticks ticks_def unat_inc [OF m])
    next
      case 3
      then have "unat (milliseconds now) < unat ms" by (simp add: word_less_nat_alt)
      then show ?thesis using 3 by (auto simp: UpdateCurrentTimeIf_def Let_def CompareTimeStamps_ticks ticks_def)
    qed (auto simp: UpdateCurrentTimeIf_def Let_def)
  qed
qed

lemma UpdateCurrentTime_monotone_witness:
  "ticks \<lparr>months = 0, milliseconds = 9\<rparr> \<le> ticks (UpdateCurrentTime True id 4 \<lparr>months = 0, milliseconds = 9\<rparr>) \<and>
   milliseconds (UpdateCurrentTimeIf 4 \<lparr>months = 0, milliseconds = 9\<rparr>) = 4"
  using UpdateCurrentTime_monotone [of id "\<lparr>months = 0, milliseconds = 9\<rparr>" True 4] by simp

end
