(* ===== verification/Atoms.thy ===== *)
theory Atoms
  imports Ssx_Prelude
begin

text \<open>
  The atom table (\<^verbatim>\<open>dix/atom.c\<close>, \<^verbatim>\<open>dix/initatoms.c\<close>): a binary search tree ordered by the
  fingerprint of a name and then by the name itself, plus a growing array that maps an
  atom back to its node.

  \<^item> A name is the list of its bytes. \<open>cstr\<close> is what C sees of it: the bytes before the
    first NUL. The caller's string pointer and length are one list whose length is
    \<^verbatim>\<open>len\<close>; a predeclared name is a literal that ends there.
  \<^item> \<^verbatim>\<open>char\<close> is signed, so a byte is sign-extended when it is added to the fingerprint,
    while \<^verbatim>\<open>strncmp\<close> compares unsigned bytes.
  \<^item> Atoms are natural numbers: \<^verbatim>\<open>lastAtom\<close> indexes an array of pointers, so it stays far
    below its 32-bit limit.
  \<^item> A node's left and right pointers are the tree; \<open>nodeTable\<close> holds the node's own
    fields, which are never written after creation.
\<close>

section \<open>State\<close>

type_synonym Atom = nat

abbreviation XA_LAST_PREDEFINED :: nat where "XA_LAST_PREDEFINED \<equiv> 68"
abbreviation InitialTableSize :: nat where "InitialTableSize \<equiv> 100"
abbreviation BAD_RESOURCE :: nat where "BAD_RESOURCE \<equiv> 0xe0000000"

record NodeRec =
  nd_a :: Atom
  nd_fingerPrint :: CARD32
  nd_string :: "byte list"

datatype NodeTree = NullNode | Node NodeRec (left: NodeTree) (right: NodeTree)

record AtomState =
  lastAtom :: Atom
  atomRoot :: NodeTree
  tableLength :: nat
  nodeTable :: "NodeRec option list"

section \<open>Operations\<close>

fun fingerprint_loop :: "byte list \<Rightarrow> nat list \<Rightarrow> CARD32 \<Rightarrow> CARD32" where
  "fingerprint_loop string [] fp = fp"
| "fingerprint_loop string (i # is) fp =
     fingerprint_loop string is
       ((fp * 27 + scast (string ! i)) * 27 + scast (string ! (length string - 1 - i)))"

definition fingerprint :: "byte list \<Rightarrow> CARD32" where
  "fingerprint string = fingerprint_loop string [0 ..< (length string + 1) div 2] 0"

text \<open>\<^verbatim>\<open>strncmp\<close> of the caller's bytes with a NUL-terminated string (given without its NUL).\<close>

fun strncmp :: "byte list \<Rightarrow> byte list \<Rightarrow> int" where
  "strncmp [] t = 0"
| "strncmp (c # s) [] = uint c"
| "strncmp (c # s) (d # t) =
     (if c \<noteq> d then uint c - uint d else if c = 0 then 0 else strncmp s t)"

definition cstr :: "byte list \<Rightarrow> byte list" where
  "cstr s = takeWhile (\<lambda>c. c \<noteq> 0) s"

text \<open>Which way the search goes at a node: left (-1), right (1), or found (0).\<close>

definition atom_dir :: "CARD32 \<Rightarrow> byte list \<Rightarrow> NodeRec \<Rightarrow> int" where
  "atom_dir fp string nd =
     (if fp < nd_fingerPrint nd then -1
      else if fp > nd_fingerPrint nd then 1
      else
        let comp = strncmp string (nd_string nd)
        in if comp < 0 \<or> (comp = 0 \<and> length string < length (nd_string nd)) then -1
           else if comp > 0 then 1
           else 0)"

fun atom_search :: "CARD32 \<Rightarrow> byte list \<Rightarrow> NodeTree \<Rightarrow> Atom option" where
  "atom_search fp string NullNode = None"
| "atom_search fp string (Node nd l r) =
     (let d = atom_dir fp string nd
      in if d < 0 then atom_search fp string l
         else if d > 0 then atom_search fp string r
         else Some (nd_a nd))"

text \<open>Linking the new node into the NULL slot where the search ended.\<close>

fun atom_link :: "CARD32 \<Rightarrow> byte list \<Rightarrow> NodeRec \<Rightarrow> NodeTree \<Rightarrow> NodeTree" where
  "atom_link fp string new NullNode = Node new NullNode NullNode"
| "atom_link fp string new (Node nd l r) =
     (let d = atom_dir fp string nd
      in if d < 0 then Node nd (atom_link fp string new l) r
         else if d > 0 then Node nd l (atom_link fp string new r)
         else Node nd l r)"

text \<open>
  The allocations of one call: the node, the copy of the name (made only once the
  predeclared atoms exist), the larger table.
\<close>

definition MakeAtom :: "alloc \<Rightarrow> AtomState \<Rightarrow> byte list \<Rightarrow> bool \<Rightarrow> Atom \<times> AtomState" where
  "MakeAtom ok st string makeit =
     (let fp = fingerprint string in
      case atom_search fp string (atomRoot st) of
        Some a \<Rightarrow> (a, st)
      | None \<Rightarrow>
          if \<not> makeit then (0, st)
          else if \<not> ok 0 then (BAD_RESOURCE, st)
          else if \<not> lastAtom st < XA_LAST_PREDEFINED \<and> \<not> ok 1 then (BAD_RESOURCE, st)
          else if lastAtom st + 1 \<ge> tableLength st \<and> \<not> ok 2 then (BAD_RESOURCE, st)
          else
            let st1 = (if lastAtom st + 1 \<ge> tableLength st
                       then st\<lparr>tableLength := tableLength st * 2,
                               nodeTable := nodeTable st @ replicate (tableLength st) None\<rparr>
                       else st);
                nd = \<lparr>nd_a = lastAtom st + 1, nd_fingerPrint = fp, nd_string = cstr string\<rparr>
            in (lastAtom st + 1,
                st1\<lparr>atomRoot := atom_link fp string nd (atomRoot st),
                    lastAtom := lastAtom st + 1,
                    nodeTable := (nodeTable st1)[lastAtom st + 1 := Some nd]\<rparr>))"

definition ValidAtom :: "AtomState \<Rightarrow> Atom \<Rightarrow> bool" where
  "ValidAtom st atom \<longleftrightarrow> atom \<noteq> 0 \<and> atom \<le> lastAtom st"

definition NameForAtom :: "AtomState \<Rightarrow> Atom \<Rightarrow> byte list option" where
  "NameForAtom st atom =
     (if atom > lastAtom st then None
      else case nodeTable st ! atom of None \<Rightarrow> None | Some nd \<Rightarrow> Some (nd_string nd))"

text \<open>What \<^verbatim>\<open>FreeAtom\<close> hands to \<^verbatim>\<open>xfree\<close>, in order.\<close>

datatype freed = FreeString Atom | FreeNode Atom

fun FreeAtom :: "NodeTree \<Rightarrow> freed list" where
  "FreeAtom NullNode = []"
| "FreeAtom (Node nd l r) =
     FreeAtom l @ FreeAtom r @
     (if nd_a nd > XA_LAST_PREDEFINED then [FreeString (nd_a nd)] else []) @ [FreeNode (nd_a nd)]"

definition FreeAllAtoms :: "AtomState \<Rightarrow> AtomState" where
  "FreeAllAtoms st =
     (if atomRoot st = NullNode then st
      else st\<lparr>atomRoot := NullNode, nodeTable := [], lastAtom := 0\<rparr>)"

definition bytes :: "string \<Rightarrow> byte list" where
  "bytes s = map of_char s"

definition predeclared_names :: "string list" where
  "predeclared_names =
    [''PRIMARY'', ''SECONDARY'', ''ARC'', ''ATOM'',
     ''BITMAP'', ''CARDINAL'', ''COLORMAP'', ''CURSOR'',
     ''CUT_BUFFER0'', ''CUT_BUFFER1'', ''CUT_BUFFER2'', ''CUT_BUFFER3'',
     ''CUT_BUFFER4'', ''CUT_BUFFER5'', ''CUT_BUFFER6'', ''CUT_BUFFER7'',
     ''DRAWABLE'', ''FONT'', ''INTEGER'', ''PIXMAP'',
     ''POINT'', ''RECTANGLE'', ''RESOURCE_MANAGER'', ''RGB_COLOR_MAP'',
     ''RGB_BEST_MAP'', ''RGB_BLUE_MAP'', ''RGB_DEFAULT_MAP'', ''RGB_GRAY_MAP'',
     ''RGB_GREEN_MAP'', ''RGB_RED_MAP'', ''STRING'', ''VISUALID'',
     ''WINDOW'', ''WM_COMMAND'', ''WM_HINTS'', ''WM_CLIENT_MACHINE'',
     ''WM_ICON_NAME'', ''WM_ICON_SIZE'', ''WM_NAME'', ''WM_NORMAL_HINTS'',
     ''WM_SIZE_HINTS'', ''WM_ZOOM_HINTS'', ''MIN_SPACE'', ''NORM_SPACE'',
     ''MAX_SPACE'', ''END_SPACE'', ''SUPERSCRIPT_X'', ''SUPERSCRIPT_Y'',
     ''SUBSCRIPT_X'', ''SUBSCRIPT_Y'', ''UNDERLINE_POSITION'', ''UNDERLINE_THICKNESS'',
     ''STRIKEOUT_ASCENT'', ''STRIKEOUT_DESCENT'', ''ITALIC_ANGLE'', ''X_HEIGHT'',
     ''QUAD_WIDTH'', ''WEIGHT'', ''POINT_SIZE'', ''RESOLUTION'',
     ''COPYRIGHT'', ''NOTICE'', ''FONT_NAME'', ''FAMILY_NAME'',
     ''FULL_NAME'', ''CAP_HEIGHT'', ''WM_CLASS'', ''WM_TRANSIENT_FOR'']"

text \<open>
  Each predeclared name must get the atom of its position; anything else is the fatal
  error "initializing atoms", here \<open>None\<close>. Allocation \<open>3 * i + j\<close> is allocation \<open>j\<close> of
  the i-th call.
\<close>

fun MakePredeclaredAtoms :: "alloc \<Rightarrow> AtomState \<Rightarrow> Atom \<Rightarrow> byte list list \<Rightarrow> AtomState option" where
  "MakePredeclaredAtoms ok st i [] = Some st"
| "MakePredeclaredAtoms ok st i (s # ss) =
     (case MakeAtom (\<lambda>j. ok (3 * i + j)) st s True of
        (a, st') \<Rightarrow> if a \<noteq> i then None else MakePredeclaredAtoms ok st' (i + 1) ss)"

definition InitAtoms :: "alloc \<Rightarrow> AtomState \<Rightarrow> AtomState option" where
  "InitAtoms ok st =
     (let st1 = (FreeAllAtoms st)\<lparr>tableLength := InitialTableSize,
                                  nodeTable := replicate InitialTableSize None\<rparr>
      in if \<not> ok 0 then None
         else case MakePredeclaredAtoms ok st1 1 (map bytes predeclared_names) of
                None \<Rightarrow> None
              | Some st2 \<Rightarrow> if lastAtom st2 \<noteq> XA_LAST_PREDEFINED then None else Some st2)"

section \<open>The search order\<close>

fun bytes_less :: "byte list \<Rightarrow> byte list \<Rightarrow> bool" where
  "bytes_less _ [] = False"
| "bytes_less [] (d # t) = True"
| "bytes_less (c # s) (d # t) = (c < d \<or> (c = d \<and> bytes_less s t))"

lemma bytes_less_irrefl [simp]: "\<not> bytes_less s s"
  by (induction s) auto

lemma bytes_less_trans: "bytes_less s t \<Longrightarrow> bytes_less t u \<Longrightarrow> bytes_less s u"
proof (induction s t arbitrary: u rule: bytes_less.induct)
  case (3 c s d t)
  then show ?case by (cases u) (auto dest: less_trans)
next
  case (2 d t)
  then show ?case by (cases u) auto
qed simp

lemma bytes_less_linear: "bytes_less s t \<or> s = t \<or> bytes_less t s"
proof (induction s t rule: bytes_less.induct)
  case (1 s)
  then show ?case by (cases s) auto
qed auto

type_synonym atom_key = "CARD32 \<times> byte list"

fun key_less :: "atom_key \<Rightarrow> atom_key \<Rightarrow> bool" where
  "key_less (f, s) (g, t) \<longleftrightarrow> f < g \<or> (f = g \<and> bytes_less s t)"

definition name_key :: "byte list \<Rightarrow> atom_key" where
  "name_key s = (fingerprint s, cstr s)"

definition node_key :: "NodeRec \<Rightarrow> atom_key" where
  "node_key nd = (nd_fingerPrint nd, nd_string nd)"

lemma key_less_irrefl [simp]: "\<not> key_less k k"
  by (cases k) auto

lemma key_less_trans: "key_less k l \<Longrightarrow> key_less l m \<Longrightarrow> key_less k m"
  by (cases k; cases l; cases m) (auto dest: bytes_less_trans)

lemma key_less_asym: "key_less k l \<Longrightarrow> \<not> key_less l k"
  using key_less_trans key_less_irrefl by blast

lemma key_less_linear: "key_less k l \<or> k = l \<or> key_less l k"
  using bytes_less_linear by (cases k; cases l) force

text \<open>\<^verbatim>\<open>strncmp\<close> with the length test is the lexicographic comparison of what C sees.\<close>

lemma strncmp_order:
  "0 \<notin> set t \<Longrightarrow>
     (strncmp s t < 0 \<or> (strncmp s t = 0 \<and> length s < length t) \<longleftrightarrow> bytes_less (cstr s) t) \<and>
     (strncmp s t > 0 \<longleftrightarrow> bytes_less t (cstr s))"
proof (induction s t rule: strncmp.induct)
  case (1 t)
  then show ?case by (cases t) (auto simp: cstr_def)
next
  case (2 c s)
  have "uint c \<noteq> 0 \<Longrightarrow> 0 < uint c" using uint_ge_0 [of c] by linarith
  then show ?case by (auto simp: cstr_def uint_0_iff)
next
  case (3 c s d t)
  show ?case
  proof (cases "c = d")
    case True
    then show ?thesis using 3 by (auto simp: cstr_def)
  next
    case False
    then have "uint c - uint d < 0 \<longleftrightarrow> c < d" "0 < uint c - uint d \<longleftrightarrow> d < c" "uint c \<noteq> uint d"
      by (auto simp: word_less_def word_uint_eq_iff)
    moreover have "c = 0 \<Longrightarrow> c < d" using False by (metis word_gt_0)
    ultimately show ?thesis using False 3 by (auto simp: cstr_def not_less)
  qed
qed

lemma atom_dir_order:
  assumes "0 \<notin> set (nd_string nd)"
  shows "atom_dir (fingerprint s) s nd < 0 \<longleftrightarrow> key_less (name_key s) (node_key nd)"
    "atom_dir (fingerprint s) s nd > 0 \<longleftrightarrow> key_less (node_key nd) (name_key s)"
proof -
  let ?t = "nd_string nd"
  note cmp = strncmp_order [OF assms, of s]
  have "\<not> (bytes_less (cstr s) ?t \<and> bytes_less ?t (cstr s))"
    using bytes_less_trans bytes_less_irrefl by blast
  then show "atom_dir (fingerprint s) s nd < 0 \<longleftrightarrow> key_less (name_key s) (node_key nd)"
    "atom_dir (fingerprint s) s nd > 0 \<longleftrightarrow> key_less (node_key nd) (name_key s)"
    using cmp by (auto simp: atom_dir_def name_key_def node_key_def Let_def)
qed

section \<open>The tree as a finite map\<close>

fun nodes :: "NodeTree \<Rightarrow> NodeRec list" where
  "nodes NullNode = []"
| "nodes (Node nd l r) = nodes l @ nd # nodes r"

definition tree_inv :: "NodeTree \<Rightarrow> bool" where
  "tree_inv t \<longleftrightarrow> sorted_wrt key_less (map node_key (nodes t)) \<and> (\<forall>nd \<in> set (nodes t). 0 \<notin> set (nd_string nd))"

lemma tree_inv_simps [simp]:
  "tree_inv NullNode"
  "tree_inv (Node nd l r) \<longleftrightarrow> tree_inv l \<and> tree_inv r \<and> 0 \<notin> set (nd_string nd) \<and>
     (\<forall>n \<in> set (nodes l). key_less (node_key n) (node_key nd)) \<and>
     (\<forall>n \<in> set (nodes r). key_less (node_key nd) (node_key n))"
proof -
  show "tree_inv NullNode" by (simp add: tree_inv_def)
  have "key_less (node_key m) (node_key n)"
    if "key_less (node_key m) (node_key nd)" "key_less (node_key nd) (node_key n)" for m n
    using that key_less_trans by blast
  then show "tree_inv (Node nd l r) \<longleftrightarrow> tree_inv l \<and> tree_inv r \<and> 0 \<notin> set (nd_string nd) \<and>
     (\<forall>n \<in> set (nodes l). key_less (node_key n) (node_key nd)) \<and>
     (\<forall>n \<in> set (nodes r). key_less (node_key nd) (node_key n))"
    by (auto simp: tree_inv_def sorted_wrt_append)
qed

lemma tree_key_unique:
  assumes "tree_inv t" "m \<in> set (nodes t)" "n \<in> set (nodes t)" "node_key m = node_key n"
  shows "m = n"
  using assms
proof (induction t)
  case (Node nd l r)
  have "key_less (node_key x) (node_key y)" if "x \<in> set (nodes l)" "y \<in> set (nodes r)" for x y
    using that Node.prems(1) key_less_trans by fastforce
  then show ?case using Node by (auto simp: key_less_irrefl) (metis key_less_irrefl)+
qed simp

lemma atom_search_correct:
  "tree_inv t \<Longrightarrow>
     atom_search (fingerprint s) s t = Some a \<longleftrightarrow> (\<exists>nd \<in> set (nodes t). node_key nd = name_key s \<and> nd_a nd = a)"
proof (induction t)
  case (Node nd l r)
  have nz: "0 \<notin> set (nd_string nd)" using Node.prems by simp
  consider (lt) "key_less (name_key s) (node_key nd)" | (eq) "name_key s = node_key nd"
    | (gt) "key_less (node_key nd) (name_key s)"
    using key_less_linear by blast
  then show ?case
  proof cases
    case lt
    then have "\<forall>n \<in> set (nodes r). node_key n \<noteq> name_key s"
      using Node.prems key_less_trans key_less_irrefl by fastforce
    moreover have "node_key nd \<noteq> name_key s" using lt by auto
    ultimately show ?thesis using Node lt by (auto simp: atom_dir_order [OF nz])
  next
    case eq
    then have "\<forall>n \<in> set (nodes l) \<union> set (nodes r). node_key n \<noteq> name_key s"
      using Node.prems by auto
    then show ?thesis using eq by (auto simp: atom_dir_order [OF nz])
  next
    case gt
    then have "\<forall>n \<in> set (nodes l). node_key n \<noteq> name_key s"
      using Node.prems key_less_trans key_less_irrefl by fastforce
    moreover have "node_key nd \<noteq> name_key s" using gt by auto
    moreover note key_less_asym [OF gt]
    ultimately show ?thesis using Node gt by (auto simp: atom_dir_order [OF nz])
  qed
qed simp

lemma atom_link_correct:
  assumes "tree_inv t" "\<forall>nd \<in> set (nodes t). node_key nd \<noteq> name_key s" "node_key new = name_key s"
  shows "tree_inv (atom_link (fingerprint s) s new t) \<and>
     set (nodes (atom_link (fingerprint s) s new t)) = insert new (set (nodes t))"
  using assms(1,2)
proof (induction t)
  case NullNode
  have "nd_string new = cstr s" using assms(3) by (simp add: node_key_def name_key_def)
  then show ?case by (auto simp: cstr_def dest: set_takeWhileD)
next
  case (Node nd l r)
  have nz: "0 \<notin> set (nd_string nd)" using Node.prems by simp
  have "name_key s \<noteq> node_key nd" using Node.prems(2) by force
  then consider (lt) "key_less (name_key s) (node_key nd)"
    | (gt) "key_less (node_key nd) (name_key s)" "\<not> key_less (name_key s) (node_key nd)"
    using key_less_linear key_less_trans key_less_irrefl by blast
  then show ?case
    using Node assms(3) by cases (auto simp: atom_dir_order [OF nz])
qed

section \<open>The table invariant\<close>

text \<open>
  The array is as long as \<^verbatim>\<open>tableLength\<close> says and long enough for \<^verbatim>\<open>lastAtom\<close>, slot 0 is
  unused, slot \<open>a\<close> holds the node of atom \<open>a\<close>, and the tree holds exactly those nodes.
\<close>

definition atom_inv :: "AtomState \<Rightarrow> bool" where
  "atom_inv st \<longleftrightarrow> length (nodeTable st) = tableLength st \<and> lastAtom st < tableLength st \<and>
     tree_inv (atomRoot st) \<and> nodeTable st ! 0 = None \<and>
     (\<forall>a. 0 < a \<and> a \<le> lastAtom st \<longrightarrow> (\<exists>nd. nodeTable st ! a = Some nd \<and> nd_a nd = a)) \<and>
     set (nodes (atomRoot st)) = {nd. \<exists>a. 0 < a \<and> a \<le> lastAtom st \<and> nodeTable st ! a = Some nd}"

definition atom_key_of :: "AtomState \<Rightarrow> Atom \<Rightarrow> atom_key option" where
  "atom_key_of st a = (if ValidAtom st a then map_option node_key (nodeTable st ! a) else None)"

lemma atom_inv_node:
  "atom_inv st \<Longrightarrow> nd \<in> set (nodes (atomRoot st)) \<longleftrightarrow>
     ValidAtom st (nd_a nd) \<and> nodeTable st ! nd_a nd = Some nd"
  unfolding atom_inv_def ValidAtom_def by force

lemma atom_key_of_node:
  assumes "atom_inv st" "atom_key_of st a = Some k"
  obtains nd where "nd \<in> set (nodes (atomRoot st))" "nd_a nd = a" "node_key nd = k"
proof -
  have "0 < a" "a \<le> lastAtom st"
    using assms(2) by (auto simp: atom_key_of_def ValidAtom_def split: if_splits)
  then obtain nd where nd: "nodeTable st ! a = Some nd" "nd_a nd = a"
    using assms(1) by (auto simp: atom_inv_def)
  moreover have "node_key nd = k" using assms(2) nd by (simp add: atom_key_of_def split: if_splits)
  ultimately show thesis
    using that atom_inv_node [OF assms(1), of nd] \<open>0 < a\<close> \<open>a \<le> lastAtom st\<close> by (simp add: ValidAtom_def)
qed

lemma atom_key_of_inj:
  assumes inv: "atom_inv st" and a: "atom_key_of st a = Some k" and b: "atom_key_of st b = Some k"
  shows "a = b"
proof -
  have "tree_inv (atomRoot st)" using inv by (simp add: atom_inv_def)
  with atom_key_of_node [OF inv a] atom_key_of_node [OF inv b] show ?thesis
    using tree_key_unique by metis
qed

lemma MakeAtom_found_iff:
  assumes "atom_inv st"
  shows "atom_search (fingerprint s) s (atomRoot st) = Some a \<longleftrightarrow> atom_key_of st a = Some (name_key s)"
proof -
  have tree: "tree_inv (atomRoot st)" using assms by (simp add: atom_inv_def)
  show ?thesis
  proof
    assume "atom_search (fingerprint s) s (atomRoot st) = Some a"
    then obtain nd where "nd \<in> set (nodes (atomRoot st))" "node_key nd = name_key s" "nd_a nd = a"
      using atom_search_correct [OF tree] by blast
    then show "atom_key_of st a = Some (name_key s)"
      using atom_inv_node [OF assms, of nd] by (simp add: atom_key_of_def)
  next
    assume "atom_key_of st a = Some (name_key s)"
    then show "atom_search (fingerprint s) s (atomRoot st) = Some a"
      using atom_key_of_node [OF assms] atom_search_correct [OF tree] by metis
  qed
qed

text \<open>What a call that creates an atom does to the state.\<close>

lemma MakeAtom_new:
  assumes inv: "atom_inv st" and fresh: "\<forall>a. atom_key_of st a \<noteq> Some (name_key s)"
    and res: "MakeAtom ok st s True = (a, st')" and ok: "st' \<noteq> st"
  shows "a = lastAtom st + 1 \<and> lastAtom st' = lastAtom st + 1 \<and> atom_inv st' \<and>
     atom_key_of st' = (atom_key_of st)(a := Some (name_key s))"
proof -
  define nd where "nd = \<lparr>nd_a = lastAtom st + 1, nd_fingerPrint = fingerprint s, nd_string = cstr s\<rparr>"
  define tab where "tab = nodeTable st @ (if lastAtom st + 1 \<ge> tableLength st
      then replicate (tableLength st) None else [])"
  have none: "atom_search (fingerprint s) s (atomRoot st) = None"
    using MakeAtom_found_iff [OF inv, of s] fresh by (metis not_None_eq)
  have st': "a = lastAtom st + 1" "lastAtom st' = lastAtom st + 1"
    "atomRoot st' = atom_link (fingerprint s) s nd (atomRoot st)"
    "nodeTable st' = tab[lastAtom st + 1 := Some nd]" "tableLength st' = length tab"
    using res ok inv
    by (auto simp: MakeAtom_def none Let_def nd_def tab_def atom_inv_def split: if_splits)
  have key: "node_key nd = name_key s" "nd_a nd = a"
    by (simp_all add: nd_def node_key_def name_key_def st'(1))
  have len: "lastAtom st + 1 < length tab" using inv by (auto simp: tab_def atom_inv_def)
  have old: "tab ! b = nodeTable st ! b" if "b \<le> lastAtom st" for b
    using that inv by (auto simp: tab_def nth_append atom_inv_def)
  have unused: "\<forall>n \<in> set (nodes (atomRoot st)). node_key n \<noteq> name_key s"
  proof
    fix n assume "n \<in> set (nodes (atomRoot st))"
    then have "atom_key_of st (nd_a n) = Some (node_key n)"
      using atom_inv_node [OF inv] by (simp add: atom_key_of_def)
    then show "node_key n \<noteq> name_key s" using fresh by metis
  qed
  have link: "tree_inv (atomRoot st') \<and> set (nodes (atomRoot st')) = insert nd (set (nodes (atomRoot st)))"
    unfolding st'(3) using inv by (intro atom_link_correct unused key(1)) (simp add: atom_inv_def)
  have new: "nodeTable st' ! b = (if b = a then Some nd else nodeTable st ! b)" if "b \<le> a" for b
    using that len old st' by (auto simp: nth_list_update)
  have "atom_inv st'"
    unfolding atom_inv_def
  proof (intro conjI allI impI)
    show "\<exists>n. nodeTable st' ! b = Some n \<and> nd_a n = b" if "0 < b \<and> b \<le> lastAtom st'" for b
      using that inv key(2) new st'(1,2) by (auto simp: atom_inv_def le_Suc_eq)
    show "set (nodes (atomRoot st')) = {n. \<exists>b. 0 < b \<and> b \<le> lastAtom st' \<and> nodeTable st' ! b = Some n}"
      using link inv new st'(1,2) by (auto simp: atom_inv_def le_Suc_eq)
    show "nodeTable st' ! 0 = None" using new [of 0] st'(1) inv by (simp add: atom_inv_def)
  qed (use link len st' new inv in \<open>auto simp: atom_inv_def\<close>)
  moreover have "atom_key_of st' b = ((atom_key_of st)(a := Some (name_key s))) b" for b
    using new key(1) st'(1,2) by (auto simp: atom_key_of_def ValidAtom_def le_Suc_eq)
  ultimately show ?thesis using st'(1,2) by auto
qed

lemma MakeAtom_stays:
  assumes "MakeAtom ok st s makeit = (a, st')" "atom_search (fingerprint s) s (atomRoot st) = None"
  shows "(\<not> makeit \<longrightarrow> a = 0 \<and> st' = st) \<and>
     (makeit \<and> st' = st \<longrightarrow> a = BAD_RESOURCE \<and> \<not> (ok 0 \<and> ok 1 \<and> ok 2))"
proof -
  have "x \<noteq> st" if "lastAtom x = lastAtom st + 1" for x :: AtomState using that by auto
  then show ?thesis using assms by (auto simp: MakeAtom_def Let_def split: if_splits)
qed

section \<open>Interning, as the server uses it\<close>

text \<open>
  What a client of a name table relies on. The key of a name is what the table
  distinguishes; \<open>name_of\<close> is the table as a partial map from atoms to keys.
\<close>

fun intern_list :: "('st \<Rightarrow> 's \<Rightarrow> nat \<times> 'st) \<Rightarrow> 'st \<Rightarrow> 's list \<Rightarrow> nat list \<times> 'st" where
  "intern_list intern st [] = ([], st)"
| "intern_list intern st (s # ss) =
     (case intern st s of (a, st1) \<Rightarrow>
      case intern_list intern st1 ss of (as, st2) \<Rightarrow> (a # as, st2))"

locale interner =
  fixes invar :: "'st \<Rightarrow> bool"
    and intern :: "'st \<Rightarrow> 's \<Rightarrow> nat \<times> 'st"
    and name_of :: "'st \<Rightarrow> nat \<Rightarrow> 'k option"
    and key :: "'s \<Rightarrow> 'k"
  assumes intern_invar: "invar st \<Longrightarrow> intern st s = (a, st') \<Longrightarrow> invar st'"
    and intern_name: "invar st \<Longrightarrow> intern st s = (a, st') \<Longrightarrow> name_of st' a = Some (key s)"
    and intern_keeps: "invar st \<Longrightarrow> intern st s = (a, st') \<Longrightarrow> name_of st b = Some k \<Longrightarrow> name_of st' b = Some k"
    and name_inj: "invar st \<Longrightarrow> name_of st a = Some k \<Longrightarrow> name_of st b = Some k \<Longrightarrow> a = b"
begin

lemma intern_list_invar: "invar st \<Longrightarrow> intern_list intern st ss = (as, st') \<Longrightarrow> invar st'"
  by (induction ss arbitrary: st as) (auto split: prod.splits dest: intern_invar)

lemma intern_list_keeps:
  "invar st \<Longrightarrow> intern_list intern st ss = (as, st') \<Longrightarrow> name_of st b = Some k \<Longrightarrow> name_of st' b = Some k"
  by (induction ss arbitrary: st as) (auto split: prod.splits dest: intern_invar intern_keeps)

lemma intern_list_names:
  "invar st \<Longrightarrow> intern_list intern st ss = (as, st') \<Longrightarrow>
     map (name_of st') as = map (Some \<circ> key) ss"
proof (induction ss arbitrary: st as)
  case (Cons s ss)
  obtain a st1 where i: "intern st s = (a, st1)" by (cases "intern st s")
  obtain as1 where l: "intern_list intern st1 ss = (as1, st')" "as = a # as1"
    using Cons.prems(2) i by (auto split: prod.splits)
  note inv1 = intern_invar [OF Cons.prems(1) i]
  show ?case
    using Cons.IH [OF inv1 l(1)] intern_list_keeps [OF inv1 l(1) intern_name [OF Cons.prems(1) i]] l(2)
    by simp
qed simp

text \<open>Two names of a session have the same atom iff the table cannot tell them apart.\<close>

lemma intern_list_eq_iff:
  assumes "invar st" "intern_list intern st ss = (as, st')" "i < length ss" "j < length ss"
  shows "as ! i = as ! j \<longleftrightarrow> key (ss ! i) = key (ss ! j)"
proof -
  note names = intern_list_names [OF assms(1,2)]
  have len: "length as = length ss" using names by (metis length_map)
  have "name_of st' (as ! k) = Some (key (ss ! k))" if "k < length ss" for k
    using that len names by (metis comp_apply nth_map)
  then show ?thesis
    using name_inj [OF intern_list_invar [OF assms(1,2)]] assms(3,4) by (metis option.inject)
qed

end

lemma MakeAtom_cases:
  assumes inv: "atom_inv st" and res: "MakeAtom ok st s makeit = (a, st')"
  shows "atom_key_of st a = Some (name_key s) \<and> st' = st \<or>
     (\<forall>b. atom_key_of st b \<noteq> Some (name_key s)) \<and>
     (if \<not> makeit then a = 0 \<and> st' = st
      else if st' = st then a = BAD_RESOURCE \<and> \<not> (ok 0 \<and> ok 1 \<and> ok 2)
      else a = lastAtom st + 1 \<and> lastAtom st' = a \<and>
           atom_key_of st' = (atom_key_of st)(a := Some (name_key s)))"
proof (cases "atom_search (fingerprint s) s (atomRoot st)")
  case (Some b)
  then have "a = b" "st' = st" using res by (auto simp: MakeAtom_def)
  then show ?thesis using Some MakeAtom_found_iff [OF inv] by simp
next
  case None
  have fresh: "\<forall>b. atom_key_of st b \<noteq> Some (name_key s)"
    using None MakeAtom_found_iff [OF inv, of s] by auto
  show ?thesis
    using fresh MakeAtom_stays [OF res None] MakeAtom_new [OF inv fresh, of ok a st'] res
    by (cases makeit) auto
qed

lemma MakeAtom_inv:
  assumes inv: "atom_inv st" and res: "MakeAtom ok st s makeit = (a, st')"
  shows "atom_inv st'"
proof (cases "st' = st")
  case False
  then have m: "makeit" and fresh: "\<forall>b. atom_key_of st b \<noteq> Some (name_key s)"
    using MakeAtom_cases [OF assms] by (auto split: if_splits)
  show ?thesis using MakeAtom_new [OF inv fresh res [unfolded eqTrueI [OF m]] False] by simp
qed (use inv in simp)

lemma atom_key_of_le: "atom_key_of st b = Some k \<Longrightarrow> 0 < b \<and> b \<le> lastAtom st"
  by (simp add: atom_key_of_def ValidAtom_def split: if_splits)

interpretation atoms: interner atom_inv "\<lambda>st s. MakeAtom alloc_ok st s True" atom_key_of name_key
proof unfold_locales
  fix st s a st' assume i: "atom_inv st" and r: "MakeAtom alloc_ok st s True = (a, st')"
  show "atom_inv st'" by (rule MakeAtom_inv [OF i r])
  show "atom_key_of st' a = Some (name_key s)"
    using MakeAtom_cases [OF i r] by (auto split: if_splits)
  fix b k assume "atom_key_of st b = Some k"
  then show "atom_key_of st' b = Some k"
    using MakeAtom_cases [OF i r] atom_key_of_le [of st b k] by (auto split: if_splits)
qed (rule atom_key_of_inj)

section \<open>Correctness of the atom table\<close>

lemma NameForAtom_key: "atom_inv st \<Longrightarrow> NameForAtom st a = map_option snd (atom_key_of st a)"
  by (cases "a = 0")
    (auto simp: NameForAtom_def atom_key_of_def ValidAtom_def atom_inv_def node_key_def split: option.splits)

lemma cstr_id: "0 \<notin> set s \<Longrightarrow> cstr s = s"
  unfolding cstr_def by (rule takeWhile_eq_all_conv [THEN iffD2]) auto

lemma name_key_eq_iff: "0 \<notin> set s \<Longrightarrow> 0 \<notin> set t \<Longrightarrow> name_key s = name_key t \<longleftrightarrow> s = t"
  by (auto simp: name_key_def cstr_id)

text \<open>C13. \<^verbatim>\<open>MakeAtom\<close> on every branch, whatever allocations fail: it keeps the table
  invariant (in particular the index written stays inside the array); a name the table
  knows gives its atom and no change; an unknown name gives None without \<^verbatim>\<open>makeit\<close>,
  BAD\_RESOURCE and no change only if an allocation failed, and otherwise the next atom,
  added to the table without touching any other entry.\<close>

theorem MakeAtom_correct:
  assumes "atom_inv st" "MakeAtom ok st s makeit = (a, st')"
  shows "atom_inv st' \<and>
     (atom_key_of st a = Some (name_key s) \<and> st' = st \<or>
      (\<forall>b. atom_key_of st b \<noteq> Some (name_key s)) \<and>
      (if \<not> makeit then a = 0 \<and> st' = st
       else if st' = st then a = BAD_RESOURCE \<and> \<not> (ok 0 \<and> ok 1 \<and> ok 2)
       else a = lastAtom st + 1 \<and> lastAtom st' = a \<and>
            atom_key_of st' = (atom_key_of st)(a := Some (name_key s))))"
  using MakeAtom_inv [OF assms] MakeAtom_cases [OF assms] by simp

definition empty_atoms :: AtomState where
  "empty_atoms = \<lparr>lastAtom = 0, atomRoot = NullNode, tableLength = 2, nodeTable = [None, None]\<rparr>"

lemma atom_inv_empty: "atom_inv empty_atoms"
  by (auto simp: atom_inv_def empty_atoms_def)

theorem MakeAtom_correct_witness:
  "atom_inv (snd (MakeAtom alloc_ok empty_atoms [65, 66] True)) \<and>
   fst (MakeAtom alloc_ok empty_atoms [65, 66] True) = 1"
proof -
  obtain a st' where r: "MakeAtom alloc_ok empty_atoms [65, 66] True = (a, st')" by fastforce
  have "fst (MakeAtom alloc_ok empty_atoms [65, 66] True) = 1" by code_simp
  then show ?thesis using MakeAtom_correct [OF atom_inv_empty r] r by simp
qed

text \<open>C33. Round trip: the atom of a NUL-free name is valid, names that string, is found again
  by every later lookup, and interning never renames an existing atom.\<close>

theorem MakeAtom_NameForAtom:
  assumes inv: "atom_inv st" and res: "MakeAtom ok st s True = (a, st')" and a: "a \<noteq> BAD_RESOURCE"
    and nul: "0 \<notin> set s"
  shows "ValidAtom st' a \<and> NameForAtom st' a = Some s \<and> MakeAtom ok' st' s makeit = (a, st') \<and>
     (\<forall>b. ValidAtom st b \<longrightarrow> NameForAtom st' b = NameForAtom st b)"
proof -
  note c = MakeAtom_cases [OF inv res] and inv' = MakeAtom_inv [OF inv res]
  have key: "atom_key_of st' a = Some (name_key s)" using c a by (auto split: if_splits)
  then have "atom_search (fingerprint s) s (atomRoot st') = Some a"
    using MakeAtom_found_iff [OF inv'] by simp
  then have "MakeAtom ok' st' s makeit = (a, st')" by (simp add: MakeAtom_def)
  moreover have "NameForAtom st' a = Some s"
    using key by (simp add: NameForAtom_key [OF inv'] name_key_def cstr_id [OF nul])
  moreover have "ValidAtom st' a" using atom_key_of_le [OF key] by (simp add: ValidAtom_def)
  moreover have "NameForAtom st' b = NameForAtom st b" if "ValidAtom st b" for b
    using that c by (auto simp: NameForAtom_key [OF inv] NameForAtom_key [OF inv'] ValidAtom_def split: if_splits)
  ultimately show ?thesis by blast
qed

theorem MakeAtom_NameForAtom_witness:
  "NameForAtom (snd (MakeAtom alloc_ok empty_atoms [65, 66] True)) 1 = Some [65, 66]"
proof -
  obtain a st' where r: "MakeAtom alloc_ok empty_atoms [65, 66] True = (a, st')" by fastforce
  have f: "fst (MakeAtom alloc_ok empty_atoms [65, 66] True) = 1" by code_simp
  then have "a \<noteq> BAD_RESOURCE" using r by simp
  then show ?thesis using MakeAtom_NameForAtom [OF atom_inv_empty r, of alloc_ok True] r f by simp
qed

text \<open>Over any sequence of InternAtom requests that finds memory, two NUL-free names get
  the same atom exactly when they are the same name.\<close>

theorem InternAtom_injective:
  assumes "atom_inv st" "intern_list (\<lambda>st s. MakeAtom alloc_ok st s True) st ss = (as, st')"
    and "i < length ss" "j < length ss" "0 \<notin> set (ss ! i)" "0 \<notin> set (ss ! j)"
  shows "as ! i = as ! j \<longleftrightarrow> ss ! i = ss ! j"
  using atoms.intern_list_eq_iff [OF assms(1-4)] name_key_eq_iff [OF assms(5,6)] by simp

theorem InternAtom_injective_witness:
  "\<exists>as st'. intern_list (\<lambda>st s. MakeAtom alloc_ok st s True) empty_atoms [[65], [66], [65]] = (as, st') \<and>
     (as ! 0 = as ! 2) = (([[65], [66], [65]] :: byte list list) ! 0 = [[65], [66], [65]] ! 2)"
proof -
  obtain as st' where r:
    "intern_list (\<lambda>st s. MakeAtom alloc_ok st s True) empty_atoms [[65], [66], [65]] = (as, st')"
    by fastforce
  show ?thesis using r InternAtom_injective [OF atom_inv_empty r, of 0 2] by auto
qed

lemma MakePredeclaredAtoms_correct:
  "atom_inv st \<Longrightarrow> i = lastAtom st + 1 \<Longrightarrow> distinct (map name_key ss) \<Longrightarrow>
   \<forall>s \<in> set ss. \<forall>b. atom_key_of st b \<noteq> Some (name_key s) \<Longrightarrow>
   \<exists>st'. MakePredeclaredAtoms alloc_ok st i ss = Some st' \<and> atom_inv st' \<and>
     lastAtom st' = lastAtom st + length ss \<and>
     (\<forall>b. b \<le> lastAtom st \<longrightarrow> atom_key_of st' b = atom_key_of st b) \<and>
     (\<forall>j < length ss. atom_key_of st' (i + j) = Some (name_key (ss ! j)))"
proof (induction ss arbitrary: st i)
  case (Cons s ss)
  obtain a st1 where r: "MakeAtom (\<lambda>j. alloc_ok (3 * i + j)) st s True = (a, st1)" by fastforce
  note inv1 = MakeAtom_inv [OF Cons.prems(1) r]
  have new: "a = i" "lastAtom st1 = i" "atom_key_of st1 = (atom_key_of st)(i := Some (name_key s))"
    using MakeAtom_cases [OF Cons.prems(1) r] Cons.prems(2,4) by (auto split: if_splits)
  have "\<forall>t \<in> set ss. \<forall>b. atom_key_of st1 b \<noteq> Some (name_key t)"
    using Cons.prems(3,4) new(3) by auto
  then obtain st' where st': "MakePredeclaredAtoms alloc_ok st1 (i + 1) ss = Some st'" "atom_inv st'"
    "lastAtom st' = i + length ss" "\<forall>b \<le> i. atom_key_of st' b = atom_key_of st1 b"
    "\<forall>j < length ss. atom_key_of st' (i + 1 + j) = Some (name_key (ss ! j))"
    using Cons.IH [OF inv1, of "i + 1"] Cons.prems(3) new(2) by auto
  have "atom_key_of st' (i + j) = Some (name_key ((s # ss) ! j))" if "j < Suc (length ss)" for j
    using that st'(4,5) new(3) by (cases j) auto
  then show ?case using r new st' Cons.prems(2) by auto
qed simp

lemma predeclared_distinct: "distinct (map (name_key \<circ> bytes) predeclared_names)"
proof -
  have "distinct (map (cstr \<circ> bytes) predeclared_names)" by code_simp
  then have "distinct (map snd (map (name_key \<circ> bytes) predeclared_names))"
    by (simp add: comp_def name_key_def)
  then show ?thesis by (simp only: distinct_map)
qed



lemma set_FreeAtom:
  "set (FreeAtom t) = FreeNode ` nd_a ` set (nodes t) \<union> FreeString ` {a \<in> nd_a ` set (nodes t). a > XA_LAST_PREDEFINED}"
  by (induction t) auto

lemma distinct_FreeAtom: "distinct (map nd_a (nodes t)) \<Longrightarrow> distinct (FreeAtom t)"
  by (induction t) (auto simp: set_FreeAtom)

lemma distinct_tree_atoms:
  assumes "atom_inv st" shows "distinct (map nd_a (nodes (atomRoot st)))"
proof -
  have "sorted_wrt key_less (map node_key (nodes (atomRoot st)))"
    using assms by (simp add: atom_inv_def tree_inv_def)
  then have "distinct (map node_key (nodes (atomRoot st)))"
    unfolding distinct_conv_nth sorted_wrt_iff_nth_less by (metis key_less_irrefl linorder_neqE_nat)
  moreover have "inj_on nd_a (set (nodes (atomRoot st)))"
    using atom_inv_node [OF assms] by (metis inj_onI option.inject)
  ultimately show ?thesis by (simp add: distinct_map)
qed



end
