(* ===== verification/Window_Properties.thy ===== *)
theory Window_Properties
  imports Window_Optional Timestamps Atoms
begin

text \<open>
  Window properties (\<^verbatim>\<open>dix/property.c\<close>): a list of named byte arrays below each window.

  \<^item> The data of a property has 8, 16 or 32 bits per unit and is kept as bytes. The sizes in
    \<^verbatim>\<open>ChangeWindowProperty\<close> are natural numbers; \<^verbatim>\<open>ProcChangeProperty\<close> lets only those through that fit an \<^verbatim>\<open>int\<close>.
  \<^item> \<open>win\<close> is the answer of \<^verbatim>\<open>dixLookupWindow\<close> to the identifier and the access mask, \<open>hook\<close> that of \<^verbatim>\<open>XaceHook\<close>
    to the atom and the access mask; \<open>update_time\<close> is \<^verbatim>\<open>UpdateCurrentTime\<close>.
  \<^item> What is delivered or written to a client is appended to a log.
\<close>

abbreviation (input) PropModeReplace :: nat where "PropModeReplace \<equiv> 0"
abbreviation (input) PropModePrepend :: nat where "PropModePrepend \<equiv> 1"
abbreviation (input) PropModeAppend :: nat where "PropModeAppend \<equiv> 2"
abbreviation (input) AnyPropertyType :: nat where "AnyPropertyType \<equiv> 0"

datatype PropertyState = PropertyNewValue | PropertyDelete

datatype prop_output =
    PropertyNotify XID PropertyState nat CARD32
  | GetPropertyReply (nItems: nat) (reply_length: nat) (bytesAfter: nat) (propertyType: nat) (reply_format: nat)
  | PropertyBytes "byte list"
  | ListPropertiesReply "nat list"

section \<open>The list of a window\<close>

definition find_property :: "nat \<Rightarrow> Property list \<Rightarrow> Property option" where
  "find_property name props = List.find (\<lambda>p. propertyName p = name) props"

fun change_first :: "nat \<Rightarrow> (Property \<Rightarrow> Property) \<Rightarrow> Property list \<Rightarrow> Property list" where
  "change_first name f [] = []"
| "change_first name f (p # props) = (if propertyName p = name then f p # props else p # change_first name f props)"

fun remove_first :: "nat \<Rightarrow> Property list \<Rightarrow> Property list" where
  "remove_first name [] = []"
| "remove_first name (p # props) = (if propertyName p = name then props else p # remove_first name props)"

definition set_userProps :: "Property list \<Rightarrow> Window \<Rightarrow> Window" where
  "set_userProps props w = w\<lparr>optional := map_option (userProps_update (\<lambda>_. props)) (optional w)\<rparr>"

definition deliverPropertyNotifyEvent :: "TimeStamp \<Rightarrow> Window \<Rightarrow> PropertyState \<Rightarrow> nat \<Rightarrow> prop_output" where
  "deliverPropertyNotifyEvent currentTime w state atom =
     PropertyNotify (window_id w) state atom (milliseconds currentTime)"

record prop_env =
  masks :: "nat \<Rightarrow> Mask"
  ancestors :: "Window list"
  time_now :: TimeStamp

definition ChangeWindowProperty ::
    "prop_env \<Rightarrow> alloc \<Rightarrow> Window \<Rightarrow> nat \<Rightarrow> nat \<Rightarrow> nat \<Rightarrow> nat \<Rightarrow> nat \<Rightarrow> byte list \<Rightarrow> bool \<Rightarrow> status \<times> Window \<times> prop_output list" where
  "ChangeWindowProperty env ok w property type' fmt mode len value sendevent =
     (let sizeInBytes = fmt div 8;
          totalSize = len * sizeInBytes;
          notify = (if sendevent then [deliverPropertyNotifyEvent (time_now env) w PropertyNewValue property] else []);
          put = (\<lambda>f. (Success, set_userProps (change_first property f (wUserProps w)) w, notify))
      in case find_property property (wUserProps w) of
           None \<Rightarrow>
             (case MakeWindowOptional (masks env) (ancestors env) ok 0 w of
                (False, k, w') \<Rightarrow> (BadAlloc, w', [])
              | (True, k, w') \<Rightarrow>
                  if \<not> ok k then (BadAlloc, w', [])
                  else if \<not> ok (k + 1) \<and> len \<noteq> 0 then (BadAlloc, w', [])
                  else (Success,
                        set_userProps (\<lparr>propertyName = property, prop_type = type', format = fmt, prop_size = len,
                                        prop_data = take totalSize value\<rparr> # wUserProps w') w', notify))
         | Some p \<Rightarrow>
             if fmt \<noteq> format p \<and> mode \<noteq> PropModeReplace then (BadMatch, w, [])
             else if prop_type p \<noteq> type' \<and> mode \<noteq> PropModeReplace then (BadMatch, w, [])
             else if mode = PropModeReplace then
               if totalSize \<noteq> prop_size p * (format p div 8) \<and> \<not> ok 0 \<and> len \<noteq> 0 then (BadAlloc, w, [])
               else put (\<lambda>p. p\<lparr>prop_data := (if len \<noteq> 0 then take totalSize value else []),
                               prop_size := len, prop_type := type', format := fmt\<rparr>)
             else if len = 0 then put id
             else if mode = PropModeAppend then
               if \<not> ok 0 then (BadAlloc, w, [])
               else put (\<lambda>p. p\<lparr>prop_data := take (prop_size p * sizeInBytes) (prop_data p) @ take totalSize value,
                               prop_size := prop_size p + len\<rparr>)
             else if mode = PropModePrepend then
               if \<not> ok 0 then (BadAlloc, w, [])
               else put (\<lambda>p. p\<lparr>prop_data := take totalSize value @ take (prop_size p * sizeInBytes) (prop_data p),
                               prop_size := prop_size p + len\<rparr>)
             else put id)"

text \<open>Unlinking a property; the record of the window is checked only when the list becomes empty.\<close>

definition unlink_property :: "prop_env \<Rightarrow> Window \<Rightarrow> nat \<Rightarrow> Window" where
  "unlink_property env w name =
     (let props = remove_first name (wUserProps w); w' = set_userProps props w
      in if propertyName (hd (wUserProps w)) = name \<and> props = []
         then CheckWindowOptionalNeed (masks env) (ancestors env) w' else w')"

definition DeleteProperty :: "prop_env \<Rightarrow> Window \<Rightarrow> nat \<Rightarrow> status \<times> Window \<times> prop_output list" where
  "DeleteProperty env w name =
     (case find_property name (wUserProps w) of
        None \<Rightarrow> (Success, w, [])
      | Some p \<Rightarrow> (Success, unlink_property env w name, [deliverPropertyNotifyEvent (time_now env) w PropertyDelete name]))"

text \<open>All properties are freed when the window goes; the list itself is left as it is.\<close>

definition DeleteAllWindowProperties :: "prop_env \<Rightarrow> Window \<Rightarrow> prop_output list" where
  "DeleteAllWindowProperties env w =
     map (\<lambda>p. deliverPropertyNotifyEvent (time_now env) w PropertyDelete (propertyName p)) (wUserProps w)"

section \<open>The requests\<close>

record PropClient =
  req_len :: nat
  errorValue :: nat
  noClientException :: status

record prop_server =
  windows :: "XID \<Rightarrow> Window"
  masks_of :: "nat \<Rightarrow> Mask"
  ancestors_of :: "XID \<Rightarrow> Window list"
  currentTime :: TimeStamp
  atoms :: AtomState
  outputs :: "prop_output list"

type_synonym lookup = "XID \<Rightarrow> Mask \<Rightarrow> status"
type_synonym hook = "XID \<Rightarrow> nat \<Rightarrow> Mask \<Rightarrow> int"

definition env_of :: "prop_server \<Rightarrow> XID \<Rightarrow> prop_env" where
  "env_of s w = \<lparr>masks = masks_of s, ancestors = ancestors_of s w, time_now = currentTime s\<rparr>"

definition put_window :: "prop_server \<Rightarrow> XID \<Rightarrow> Window \<Rightarrow> prop_output list \<Rightarrow> prop_server" where
  "put_window s i w out = s\<lparr>windows := (windows s)(i := w), outputs := outputs s @ out\<rparr>"

text \<open>The lookup of a window leaves its identifier in the client's error value, whatever comes out.\<close>

definition looked_up :: "XID \<Rightarrow> PropClient \<Rightarrow> PropClient" where
  "looked_up i client = client\<lparr>errorValue := unat i\<rparr>"

record xChangePropertyReq =
  cp_mode :: nat
  cp_window :: XID
  cp_property :: nat
  cp_type :: nat
  cp_format :: nat
  cp_nUnits :: nat
  cp_data :: "byte list"

definition ProcChangeProperty ::
    "lookup \<Rightarrow> hook \<Rightarrow> (TimeStamp \<Rightarrow> TimeStamp) \<Rightarrow> alloc \<Rightarrow> PropClient \<Rightarrow> xChangePropertyReq \<Rightarrow> prop_server
      \<Rightarrow> status \<times> PropClient \<times> prop_server" where
  "ProcChangeProperty lookup hook update_time ok client stuff s0 =
     (if \<not> REQUEST_AT_LEAST_SIZE 24 (req_len client) then (BadLength, client, s0)
      else
        let s = s0\<lparr>currentTime := update_time (currentTime s0)\<rparr>;
            mode = cp_mode stuff; fmt = cp_format stuff; len = cp_nUnits stuff
        in if mode \<noteq> PropModeReplace \<and> mode \<noteq> PropModeAppend \<and> mode \<noteq> PropModePrepend
           then (BadValue, client\<lparr>errorValue := char_value mode\<rparr>, s)
           else if fmt \<noteq> 8 \<and> fmt \<noteq> 16 \<and> fmt \<noteq> 32 then (BadValue, client\<lparr>errorValue := char_value fmt\<rparr>, s)
           else if len > (0xffffffff - 24) div 4 then (BadLength, client, s)
           else if \<not> REQUEST_FIXED_SIZE 24 (to_int (len * (fmt div 8))) (req_len client) then (BadLength, client, s)
           else
             let rc = lookup (cp_window stuff) DixWriteAccess; client = looked_up (cp_window stuff) client
             in if rc \<noteq> Success then (rc, client, s)
                else if \<not> ValidAtom (atoms s) (cp_property stuff) then (BadAtom, client\<lparr>errorValue := cp_property stuff\<rparr>, s)
                else if \<not> ValidAtom (atoms s) (cp_type stuff) then (BadAtom, client\<lparr>errorValue := cp_type stuff\<rparr>, s)
                else
                  let action = hook (cp_window stuff) (cp_property stuff) DixWriteAccess
                  in if action = XaceErrorOperation then (BadAtom, client\<lparr>errorValue := cp_property stuff\<rparr>, s)
                     else if action = XaceIgnoreOperation then (Success, client, s)
                     else
                       (case ChangeWindowProperty (env_of s (cp_window stuff)) ok (windows s (cp_window stuff)) (cp_property stuff)
                               (cp_type stuff) fmt mode len (cp_data stuff) True of
                          (err, w, out) \<Rightarrow>
                            let s' = put_window s (cp_window stuff) w out
                            in if err \<noteq> Success then (err, client, s') else (noClientException client, client, s')))"

record xDeletePropertyReq =
  dp_window :: XID
  dp_property :: nat

definition ProcDeleteProperty ::
    "lookup \<Rightarrow> hook \<Rightarrow> (TimeStamp \<Rightarrow> TimeStamp) \<Rightarrow> PropClient \<Rightarrow> xDeletePropertyReq \<Rightarrow> prop_server
      \<Rightarrow> status \<times> PropClient \<times> prop_server" where
  "ProcDeleteProperty lookup hook update_time client stuff s0 =
     (if \<not> REQUEST_SIZE_MATCH 12 (req_len client) then (BadLength, client, s0)
      else
        let s = s0\<lparr>currentTime := update_time (currentTime s0)\<rparr>;
            result = lookup (dp_window stuff) DixWriteAccess; client = looked_up (dp_window stuff) client
        in if result \<noteq> Success then (result, client, s)
           else if \<not> ValidAtom (atoms s) (dp_property stuff) then (BadAtom, client\<lparr>errorValue := dp_property stuff\<rparr>, s)
           else
             let action = hook (dp_window stuff) (dp_property stuff) DixDestroyAccess
             in if action = XaceErrorOperation then (BadAtom, client\<lparr>errorValue := dp_property stuff\<rparr>, s)
                else if action = XaceIgnoreOperation then (Success, client, s)
                else
                  (case DeleteProperty (env_of s (dp_window stuff)) (windows s (dp_window stuff)) (dp_property stuff) of
                     (result, w, out) \<Rightarrow>
                       (if noClientException client \<noteq> Success then noClientException client else result,
                        client, put_window s (dp_window stuff) w out)))"

record xGetPropertyReq =
  gp_delete :: nat
  gp_window :: XID
  gp_property :: nat
  gp_type :: nat
  gp_longOffset :: CARD32
  gp_longLength :: CARD32

definition NullPropertyReply :: "nat \<Rightarrow> nat \<Rightarrow> prop_output" where
  "NullPropertyReply propertyType' format' =
     GetPropertyReply 0 0 0 propertyType' format'"

text \<open>The reply for a property of the right type: \<open>None\<close> is an offset behind the end. Offset and length are computed in 32 bits.\<close>

definition property_slice :: "CARD32 \<Rightarrow> CARD32 \<Rightarrow> Property \<Rightarrow> (prop_output \<times> byte list) option" where
  "property_slice longOffset longLength p =
     (let n = (format p div 8) * prop_size p;
          ind = unat (push_bit 2 longOffset)
      in if n < ind then None
         else
           let len = min (n - ind) (unat (4 * longLength))
           in Some (GetPropertyReply (len div (format p div 8)) ((len + 3) div 4) (n - (ind + len)) (prop_type p) (format p),
                    take len (drop ind (prop_data p))))"

definition ProcGetProperty ::
    "lookup \<Rightarrow> hook \<Rightarrow> (TimeStamp \<Rightarrow> TimeStamp) \<Rightarrow> PropClient \<Rightarrow> xGetPropertyReq \<Rightarrow> prop_server
      \<Rightarrow> status \<times> PropClient \<times> prop_server" where
  "ProcGetProperty lookup hook update_time client stuff s0 =
     (if \<not> REQUEST_SIZE_MATCH 24 (req_len client) then (BadLength, client, s0)
      else
        let s = (if gp_delete stuff \<noteq> 0 then s0\<lparr>currentTime := update_time (currentTime s0)\<rparr> else s0);
            rc = lookup (gp_window stuff) DixReadAccess; client = looked_up (gp_window stuff) client;
            w = windows s (gp_window stuff)
        in if rc \<noteq> Success then (rc, client, s)
           else if \<not> ValidAtom (atoms s) (gp_property stuff) then (BadAtom, client\<lparr>errorValue := gp_property stuff\<rparr>, s)
           else if gp_delete stuff \<noteq> 1 \<and> gp_delete stuff \<noteq> 0 then (BadValue, client\<lparr>errorValue := gp_delete stuff\<rparr>, s)
           else if gp_type stuff \<noteq> AnyPropertyType \<and> \<not> ValidAtom (atoms s) (gp_type stuff)
           then (BadAtom, client\<lparr>errorValue := gp_type stuff\<rparr>, s)
           else
             (case find_property (gp_property stuff) (wUserProps w) of
                None \<Rightarrow> (noClientException client, client, s\<lparr>outputs := outputs s @ [NullPropertyReply 0 0]\<rparr>)
              | Some p \<Rightarrow>
                  let action = hook (gp_window stuff) (gp_property stuff)
                        (if gp_delete stuff \<noteq> 0 then DixReadAccess OR DixDestroyAccess else DixReadAccess)
                  in if action = XaceErrorOperation then (BadAtom, client\<lparr>errorValue := gp_property stuff\<rparr>, s)
                     else if action = XaceIgnoreOperation
                     then (noClientException client, client, s\<lparr>outputs := outputs s @ [NullPropertyReply (prop_type p) (format p)]\<rparr>)
                     else if gp_type stuff \<noteq> prop_type p \<and> gp_type stuff \<noteq> AnyPropertyType
                     then (Success, client, s\<lparr>outputs := outputs s @
                             [GetPropertyReply 0 0 (prop_size p) (prop_type p) (format p)]\<rparr>)
                     else
                       (case property_slice (gp_longOffset stuff) (gp_longLength stuff) p of
                          None \<Rightarrow> (BadValue, client\<lparr>errorValue := unat (gp_longOffset stuff)\<rparr>, s)
                        | Some (reply, octets) \<Rightarrow>
                            let delete = (gp_delete stuff \<noteq> 0 \<and> bytesAfter reply = 0);
                                out = (if delete then [deliverPropertyNotifyEvent (currentTime s) w PropertyDelete (gp_property stuff)] else []) @
                                      [reply] @ (if octets \<noteq> [] then [PropertyBytes octets] else []);
                                w' = (if delete then unlink_property (env_of s (gp_window stuff)) w (gp_property stuff) else w)
                            in (noClientException client, client, put_window s (gp_window stuff) w' out))))"

definition ProcListProperties ::
    "lookup \<Rightarrow> alloc \<Rightarrow> PropClient \<Rightarrow> XID \<Rightarrow> prop_server \<Rightarrow> status \<times> PropClient \<times> prop_server" where
  "ProcListProperties lookup ok client i s =
     (if \<not> REQUEST_SIZE_MATCH 8 (req_len client) then (BadLength, client, s)
      else
        let rc = lookup i DixReadAccess; client = looked_up i client; props = wUserProps (windows s i)
        in if rc \<noteq> Success then (rc, client, s)
           else if props \<noteq> [] \<and> \<not> ok 0 then (BadAlloc, client, s)
           else (noClientException client, client, s\<lparr>outputs := outputs s @ [ListPropertiesReply (map propertyName props)]\<rparr>))"

section \<open>Rotating\<close>

record xRotatePropertiesReq =
  rp_window :: XID
  rp_nAtoms :: nat
  rp_nPositions :: int
  rp_atoms :: "nat list"

text \<open>
  The first loop finds the property of every atom: the position of the first one of that name in
  the list stands for the pointer. \<open>Inl\<close> is an early return with the error value, if one is set.
\<close>

fun position :: "nat \<Rightarrow> Property list \<Rightarrow> nat option" where
  "position name [] = None"
| "position name (p # props) = (if propertyName p = name then Some 0 else map_option Suc (position name props))"

fun rotate_find ::
    "(nat \<Rightarrow> bool) \<Rightarrow> (nat \<Rightarrow> int) \<Rightarrow> Property list \<Rightarrow> nat list \<Rightarrow> (status \<times> nat option) + nat list" where
  "rotate_find valid action props [] = Inr []"
| "rotate_find valid action props (a # as) =
     (if \<not> valid a \<or> XaceErrorOperation = action a then Inl (BadAtom, Some a)
      else if XaceIgnoreOperation = action a then Inl (Success, None)
      else if a \<in> set as then Inl (BadMatch, None)
      else case position a props of
             None \<Rightarrow> Inl (BadMatch, None)
           | Some i \<Rightarrow>
               (case rotate_find valid action props as of
                  Inl err \<Rightarrow> Inl err
                | Inr is' \<Rightarrow> Inr (i # is')))"

text \<open>The \<^verbatim>\<open>while\<close> loop makes \<open>delta\<close> non-negative.\<close>

function raise_delta :: "int \<Rightarrow> nat \<Rightarrow> int" where
  "raise_delta delta n = (if delta < 0 \<and> 0 < n then raise_delta (delta + int n) n else delta)"
  by pat_completeness auto
termination by (relation "measure (\<lambda>(delta, n). nat (- delta))") auto

declare raise_delta.simps [simp del]

text \<open>The second loop: the i-th property gets the name of another; the event carries its old name.\<close>

fun rotate_names :: "nat list \<Rightarrow> nat \<Rightarrow> (nat \<times> nat) list \<Rightarrow> Property list \<Rightarrow> nat list \<times> Property list" where
  "rotate_names as delta [] props = ([], props)"
| "rotate_names as delta ((i, pos) # rest) props =
     (let new = as ! ((i + delta) mod length as);
          r = rotate_names as delta rest (props[pos := (props ! pos)\<lparr>propertyName := new\<rparr>])
      in (propertyName (props ! pos) # fst r, snd r))"

definition ProcRotateProperties ::
    "lookup \<Rightarrow> hook \<Rightarrow> (TimeStamp \<Rightarrow> TimeStamp) \<Rightarrow> alloc \<Rightarrow> PropClient \<Rightarrow> xRotatePropertiesReq \<Rightarrow> prop_server
      \<Rightarrow> status \<times> PropClient \<times> prop_server" where
  "ProcRotateProperties lookup hook update_time ok client stuff s0 =
     (if \<not> REQUEST_FIXED_SIZE 12 (int (rp_nAtoms stuff) * 4) (req_len client) then (BadLength, client, s0)
      else
        let s = s0\<lparr>currentTime := update_time (currentTime s0)\<rparr>;
            rc = lookup (rp_window stuff) DixWriteAccess; client = looked_up (rp_window stuff) client;
            w = windows s (rp_window stuff); as = take (rp_nAtoms stuff) (rp_atoms stuff)
        in if rc \<noteq> Success then (rc, client, s)
           else if rp_nAtoms stuff = 0 then (Success, client, s)
           else if \<not> ok 0 then (BadAlloc, client, s)
           else
             (case rotate_find (ValidAtom (atoms s)) (\<lambda>a. hook (rp_window stuff) a (DixReadAccess OR DixWriteAccess)) (wUserProps w) as of
                Inl (err, None) \<Rightarrow> (err, client, s)
              | Inl (err, Some a) \<Rightarrow> (err, client\<lparr>errorValue := a\<rparr>, s)
              | Inr positions \<Rightarrow>
                  if \<bar>rp_nPositions stuff\<bar> mod int (rp_nAtoms stuff) \<noteq> 0 then
                    let delta = nat (raise_delta (rp_nPositions stuff) (rp_nAtoms stuff));
                        r = rotate_names as delta (zip [0..<rp_nAtoms stuff] positions) (wUserProps w)
                    in (Success, client, put_window s (rp_window stuff) (set_userProps (snd r) w)
                          (map (\<lambda>a. deliverPropertyNotifyEvent (currentTime s) w PropertyNewValue a) (fst r)))
                  else (Success, client, s)))"


section \<open>The list as a map\<close>

definition property_ok :: "Property \<Rightarrow> bool" where
  "property_ok p \<longleftrightarrow> format p \<in> {8, 16, 32} \<and> length (prop_data p) = prop_size p * (format p div 8)"

definition props_ok :: "Property list \<Rightarrow> bool" where
  "props_ok props \<longleftrightarrow> (\<forall>p \<in> set props. property_ok p) \<and> distinct (map propertyName props)"

type_synonym content = "nat \<times> nat \<times> byte list"

definition content_of :: "Property \<Rightarrow> content" where
  "content_of p = (prop_type p, format p, prop_data p)"

definition prop_map :: "Property list \<Rightarrow> nat \<Rightarrow> content option" where
  "prop_map props name = map_option content_of (find_property name props)"

lemma props_ok_simps [simp]:
  "props_ok []" "props_ok (p # props) \<longleftrightarrow> property_ok p \<and> propertyName p \<notin> propertyName ` set props \<and> props_ok props"
  by (auto simp: props_ok_def)

lemma find_property_simps [simp]:
  "find_property name [] = None"
  "find_property name (p # props) = (if propertyName p = name then Some p else find_property name props)"
  by (auto simp: find_property_def)

lemma prop_map_simps [simp]:
  "prop_map [] = Map.empty" "prop_map (p # props) = (prop_map props)(propertyName p \<mapsto> content_of p)"
  by (auto simp: prop_map_def fun_eq_iff)

lemma find_property_Some: "find_property name props = Some p \<Longrightarrow> p \<in> set props \<and> propertyName p = name"
  by (auto simp: find_property_def find_Some_iff)

lemma find_property_None: "find_property name props = None \<longleftrightarrow> name \<notin> propertyName ` set props"
  by (auto simp: find_property_def find_None_iff)

lemma wUserProps_set [simp]: "optional w \<noteq> None \<Longrightarrow> wUserProps (set_userProps props w) = props"
  by (auto simp: wUserProps_def set_userProps_def)

lemma wUserProps_Some: "find_property name (wUserProps w) = Some p \<Longrightarrow> optional w \<noteq> None"
  by (auto simp: wUserProps_def split: option.splits)

lemma change_first_map:
  assumes "find_property name props = Some p" "\<And>q. propertyName (f q) = propertyName q"
  shows "prop_map (change_first name f props) = (prop_map props)(name \<mapsto> content_of (f p))"
    "propertyName ` set (change_first name f props) = propertyName ` set props"
  using assms by (induction props) (auto split: if_splits)

lemma change_first_ok:
  assumes "props_ok props" "find_property name props = Some p" "\<And>q. propertyName (f q) = propertyName q" "property_ok (f p)"
  shows "props_ok (change_first name f props)"
  using assms(1,2)
proof (induction props)
  case (Cons q props)
  then show ?case
    using change_first_map(2) [of name props p f] assms(3,4) by (auto split: if_splits)
qed simp

lemma remove_first_subset: "set (remove_first name props) \<subseteq> set props"
  by (induction props) auto

lemma remove_first_ok: "props_ok props \<Longrightarrow> props_ok (remove_first name props)"
  using remove_first_subset by (induction props) fastforce+

lemma remove_first_map: "props_ok props \<Longrightarrow> prop_map (remove_first name props) = (prop_map props)(name := None)"
proof (induction props)
  case (Cons p props)
  have none: "name \<notin> propertyName ` set props \<Longrightarrow> prop_map props name = None"
    by (simp add: prop_map_def find_property_None)
  show ?case using Cons none by (auto simp: fun_eq_iff)
qed simp

lemma CheckWindowOptionalNeed_props:
  "wUserProps (CheckWindowOptionalNeed m a w) = wUserProps w"
  by (auto simp: CheckWindowOptionalNeed_def DisposeWindowOptional_def wUserProps_def Let_def split: option.splits)

lemma unlink_property_props:
  "optional w \<noteq> None \<Longrightarrow> wUserProps (unlink_property env w name) = remove_first name (wUserProps w)"
  by (simp add: unlink_property_def Let_def CheckWindowOptionalNeed_props)

lemma MakeWindowOptional_props:
  assumes "MakeWindowOptional m a ok k w = (b, k', w')"
  shows "wUserProps w' = wUserProps w" "b \<Longrightarrow> optional w' \<noteq> None" "window_id w' = window_id w"
  using assms by (auto simp: MakeWindowOptional_def wUserProps_def Let_def split: if_splits)

section \<open>Changing a property\<close>

text \<open>What a change means for the contents under the name.\<close>

definition spec_change :: "content option \<Rightarrow> nat \<Rightarrow> nat \<Rightarrow> nat \<Rightarrow> byte list \<Rightarrow> content option" where
  "spec_change old mode type' fmt data =
     (case old of
        None \<Rightarrow> Some (type', fmt, data)
      | Some (t, f, d) \<Rightarrow>
          if mode = PropModeReplace then Some (type', fmt, data)
          else if f \<noteq> fmt \<or> t \<noteq> type' then None
          else Some (t, f, if mode = PropModeAppend then d @ data else data @ d))"

lemma ChangeWindowProperty_new:
  assumes "find_property name (wUserProps w) = None" "props_ok (wUserProps w)" "fmt \<in> {8, 16, 32}"
    "len * (fmt div 8) \<le> length value"
  obtains w' where "ChangeWindowProperty env alloc_ok w name type' fmt mode len value ev =
      (Success, w', if ev then [deliverPropertyNotifyEvent (time_now env) w PropertyNewValue name] else [])"
    "prop_map (wUserProps w') = (prop_map (wUserProps w))(name \<mapsto> (type', fmt, take (len * (fmt div 8)) value))"
    "props_ok (wUserProps w')"
proof -
  obtain k w1 where m: "MakeWindowOptional (masks env) (ancestors env) alloc_ok 0 w = (True, k, w1)"
    by (cases "optional w") (auto simp: MakeWindowOptional_def Let_def)
  let ?p = "\<lparr>propertyName = name, prop_type = type', format = fmt, prop_size = len, prop_data = take (len * (fmt div 8)) value\<rparr>"
  note w1 = MakeWindowOptional_props [OF m]
  have "property_ok ?p" using assms(3,4) by (auto simp: property_ok_def)
  moreover have "name \<notin> propertyName ` set (wUserProps w)" using assms(1) by (simp add: find_property_None)
  moreover have "wUserProps (set_userProps (?p # wUserProps w1) w1) = ?p # wUserProps w" using w1 by simp
  ultimately show thesis
    using that [of "set_userProps (?p # wUserProps w1) w1"] assms(1,2) m by (simp add: ChangeWindowProperty_def Let_def content_of_def)
qed

text \<open>The change to an old property.\<close>

definition changed :: "nat \<Rightarrow> nat \<Rightarrow> nat \<Rightarrow> nat \<Rightarrow> byte list \<Rightarrow> Property \<Rightarrow> Property" where
  "changed mode type' fmt len v p =
     (if mode = PropModeReplace
      then p\<lparr>prop_data := (if len \<noteq> 0 then v else []), prop_size := len, prop_type := type', format := fmt\<rparr>
      else if len = 0 then p
      else if mode = PropModeAppend
      then p\<lparr>prop_data := take (prop_size p * (fmt div 8)) (prop_data p) @ v, prop_size := prop_size p + len\<rparr>
      else p\<lparr>prop_data := v @ take (prop_size p * (fmt div 8)) (prop_data p), prop_size := prop_size p + len\<rparr>)"

lemma changed_name [simp]: "propertyName (changed mode type' fmt len v p) = propertyName p"
  by (simp add: changed_def)

lemma changed_ok:
  assumes "property_ok p" "fmt \<in> {8, 16, 32}" "length v = len * (fmt div 8)" "mode = PropModeReplace \<or> fmt = format p \<and> type' = prop_type p"
  shows "property_ok (changed mode type' fmt len v p)"
proof (cases "mode = PropModeReplace")
  case True
  then show ?thesis using assms(2,3) by (auto simp: property_ok_def changed_def)
next
  case False
  then have "format p = fmt" using assms(4) by simp
  then show ?thesis using assms(1,3) False by (simp add: property_ok_def changed_def add_mult_distrib)
qed

lemma changed_content:
  assumes "property_ok p" "length v = len * (fmt div 8)" "mode = PropModeReplace \<or> fmt = format p \<and> type' = prop_type p"
  shows "spec_change (Some (content_of p)) mode type' fmt v = Some (content_of (changed mode type' fmt len v p))"
  using assms unfolding property_ok_def changed_def spec_change_def content_of_def by auto

lemma ChangeWindowProperty_found:
  assumes "find_property name (wUserProps w) = Some p" "mode \<le> 2" "mode = PropModeReplace \<or> fmt = format p \<and> type' = prop_type p"
  shows "ChangeWindowProperty env alloc_ok w name type' fmt mode len value ev =
      (Success, set_userProps (change_first name (changed mode type' fmt len (take (len * (fmt div 8)) value)) (wUserProps w)) w,
       if ev then [deliverPropertyNotifyEvent (time_now env) w PropertyNewValue name] else [])"
proof -
  consider (r) "mode = 0" | (z) "mode \<noteq> 0" "len = 0" | (p) "mode = 1" "len \<noteq> 0" | (a) "mode = 2" "len \<noteq> 0"
    using assms(2) by linarith
  then show ?thesis
  proof cases
    case r
    then show ?thesis unfolding ChangeWindowProperty_def Let_def assms(1) option.case changed_def by simp
  next
    case z
    then show ?thesis
      using assms(3) unfolding ChangeWindowProperty_def Let_def assms(1) option.case changed_def by (simp add: id_def)
  next
    case p
    then show ?thesis using assms(3) unfolding ChangeWindowProperty_def Let_def assms(1) option.case changed_def by simp
  next
    case a
    then show ?thesis using assms(3) unfolding ChangeWindowProperty_def Let_def assms(1) option.case changed_def by simp
  qed
qed

lemma ChangeWindowProperty_old:
  assumes "find_property name (wUserProps w) = Some p" "props_ok (wUserProps w)" "fmt \<in> {8, 16, 32}"
    "len * (fmt div 8) \<le> length value" "mode \<le> 2" "mode = PropModeReplace \<or> fmt = format p \<and> type' = prop_type p"
  defines "v \<equiv> take (len * (fmt div 8)) value"
  shows "\<exists>w' c. ChangeWindowProperty env alloc_ok w name type' fmt mode len value ev =
      (Success, w', if ev then [deliverPropertyNotifyEvent (time_now env) w PropertyNewValue name] else []) \<and>
     spec_change (Some (content_of p)) mode type' fmt v = Some c \<and>
     prop_map (wUserProps w') = (prop_map (wUserProps w))(name \<mapsto> c) \<and> props_ok (wUserProps w')"
proof -
  let ?f = "changed mode type' fmt len v" and ?w = "set_userProps (change_first name (changed mode type' fmt len v) (wUserProps w)) w"
  have p: "property_ok p" using find_property_Some [OF assms(1)] assms(2) by (simp add: props_ok_def)
  have v: "length v = len * (fmt div 8)" using assms(4) by (simp add: v_def)
  have opt: "optional w \<noteq> None" by (rule wUserProps_Some [OF assms(1)])
  have "prop_map (wUserProps ?w) = (prop_map (wUserProps w))(name \<mapsto> content_of (?f p))"
    using change_first_map(1) [OF assms(1), of ?f] opt by simp
  moreover have "props_ok (wUserProps ?w)"
    using change_first_ok [OF assms(2,1), of ?f] changed_ok [OF p assms(3) v assms(6)] opt by simp
  ultimately show ?thesis
    using ChangeWindowProperty_found [OF assms(1,5,6), of env len "value" ev] changed_content [OF p v assms(6)]
    unfolding v_def by blast
qed


text \<open>A window with one text property.\<close>

definition ex_root :: Window where
  "ex_root = \<lparr>window_id = 1, optional = Some \<lparr>visual = 33, cursor = 5, colormap = 32, dontPropagateMask = 0,
     otherEventMasks = 0, otherClients = 0, passiveGrabs = 0, userProps = [], backingBitPlanes = NOT 0, backingPixel = 0,
     boundingShape = 0, clipShape = 0, inputShape = 0, inputMasks = 0, deviceCursors = []\<rparr>, dontPropagate = 0, cursorIsNone = False\<rparr>"

definition ex_text :: Window where
  "ex_text = set_userProps [\<lparr>propertyName = 39, prop_type = 31, format = 8, prop_size = 2, prop_data = [65, 66]\<rparr>] ex_root"


end
