(* ===== verification/Property_Requests.thy ===== *)
theory Property_Requests
  imports Window_Properties
begin

text \<open>
  What the property requests do to the server: every request keeps the lists well-formed, a failed
  change changes nothing, reading returns a slice inside the data, and rotating permutes the contents.
\<close>

section \<open>All branches of a change\<close>

definition new_property :: "nat \<Rightarrow> nat \<Rightarrow> nat \<Rightarrow> nat \<Rightarrow> byte list \<Rightarrow> Property" where
  "new_property name type' fmt len value =
     \<lparr>propertyName = name, prop_type = type', format = fmt, prop_size = len, prop_data = take (len * (fmt div 8)) value\<rparr>"

lemma ChangeWindowProperty_found_cases:
  assumes "find_property name (wUserProps w) = Some p" "mode \<le> 2"
  shows "ChangeWindowProperty env ok w name type' fmt mode len value ev \<in>
     {(BadMatch, w, []), (BadAlloc, w, [])} \<or>
   ((mode = PropModeReplace \<or> fmt = format p \<and> type' = prop_type p) \<and>
    ChangeWindowProperty env ok w name type' fmt mode len value ev =
      ChangeWindowProperty env alloc_ok w name type' fmt mode len value ev)"
proof -
  consider (r) "mode = 0" | (z) "mode \<noteq> 0" "len = 0" | (p) "mode = 1" "len \<noteq> 0" | (a) "mode = 2" "len \<noteq> 0"
    using assms(2) by linarith
  then show ?thesis
    by cases (auto simp: ChangeWindowProperty_def Let_def assms(1))
qed

lemma ChangeWindowProperty_cases:
  assumes "mode \<le> 2" "ChangeWindowProperty env ok w name type' fmt mode len value ev = (rc, w', out)"
  shows "(rc \<noteq> Success \<and> wUserProps w' = wUserProps w \<and> out = []) \<or>
    (rc = Success \<and> find_property name (wUserProps w) = None \<and>
       wUserProps w' = new_property name type' fmt len value # wUserProps w) \<or>
    (rc = Success \<and> (\<exists>p. find_property name (wUserProps w) = Some p \<and> (mode = PropModeReplace \<or> fmt = format p \<and> type' = prop_type p)) \<and>
       wUserProps w' = change_first name (changed mode type' fmt len (take (len * (fmt div 8)) value)) (wUserProps w))"
proof (cases "find_property name (wUserProps w)")
  case None
  obtain b k w1 where m: "MakeWindowOptional (masks env) (ancestors env) ok 0 w = (b, k, w1)"
    by (cases "MakeWindowOptional (masks env) (ancestors env) ok 0 w") auto
  show ?thesis
    using assms(2) None m MakeWindowOptional_props [OF m]
    by (auto simp: ChangeWindowProperty_def Let_def new_property_def split: bool.splits if_splits)
next
  case (Some p)
  have opt: "optional w \<noteq> None" by (rule wUserProps_Some [OF Some])
  from ChangeWindowProperty_found_cases [OF Some assms(1), of env ok type' fmt len "value" ev]
  show ?thesis
  proof
    assume "ChangeWindowProperty env ok w name type' fmt mode len value ev \<in> {(BadMatch, w, []), (BadAlloc, w, [])}"
    then show ?thesis using assms(2) by auto
  next
    assume "(mode = PropModeReplace \<or> fmt = format p \<and> type' = prop_type p) \<and>
      ChangeWindowProperty env ok w name type' fmt mode len value ev =
      ChangeWindowProperty env alloc_ok w name type' fmt mode len value ev"
    then show ?thesis
      using assms ChangeWindowProperty_found [OF Some assms(1), of fmt type' env len "value" ev] Some opt by auto
  qed
qed

lemma ChangeWindowProperty_ok:
  assumes "mode \<le> 2" "ChangeWindowProperty env ok w name type' fmt mode len value ev = (rc, w', out)"
    "props_ok (wUserProps w)" "fmt \<in> {8, 16, 32}" "len * (fmt div 8) \<le> length value"
  shows "props_ok (wUserProps w')"
  using ChangeWindowProperty_cases [OF assms(1,2)]
proof (elim disjE conjE exE)
  assume n: "find_property name (wUserProps w) = None" and w': "wUserProps w' = new_property name type' fmt len value # wUserProps w"
  have "property_ok (new_property name type' fmt len value)" using assms(4,5) by (auto simp: new_property_def property_ok_def)
  then show ?thesis using n assms(3) by (simp add: w' find_property_None new_property_def)
next
  fix p
  let ?v = "take (len * (fmt div 8)) value"
  assume p: "find_property name (wUserProps w) = Some p" "mode = PropModeReplace"
    and w': "wUserProps w' = change_first name (changed mode type' fmt len ?v) (wUserProps w)"
  have "property_ok p" using find_property_Some [OF p(1)] assms(3) by (simp add: props_ok_def)
  then show ?thesis
    unfolding w' using changed_ok [of p fmt ?v len mode type'] p assms(4,5) by (intro change_first_ok [OF assms(3) p(1)]) auto
next
  fix p
  let ?v = "take (len * (fmt div 8)) value"
  assume p: "find_property name (wUserProps w) = Some p" "fmt = format p" "type' = prop_type p"
    and w': "wUserProps w' = change_first name (changed mode type' fmt len ?v) (wUserProps w)"
  have "property_ok p" using find_property_Some [OF p(1)] assms(3) by (simp add: props_ok_def)
  then show ?thesis
    unfolding w' using changed_ok [of p fmt ?v len mode type'] p assms(4,5) by (intro change_first_ok [OF assms(3) p(1)]) auto
qed (use assms(3) in simp)

section \<open>Rotation of names\<close>

lemma prop_map_iff:
  "props_ok props \<Longrightarrow> prop_map props name = Some c \<longleftrightarrow>
     (\<exists>j < length props. propertyName (props ! j) = name \<and> content_of (props ! j) = c)"
proof (induction props)
  case (Cons p props)
  have none: "prop_map props (propertyName p) = None"
    using Cons.prems by (simp add: prop_map_def find_property_None)
  have "(\<exists>j < length (p # props). propertyName ((p # props) ! j) = name \<and> content_of ((p # props) ! j) = c) \<longleftrightarrow>
      propertyName p = name \<and> content_of p = c \<or> (\<exists>j < length props. propertyName (props ! j) = name \<and> content_of (props ! j) = c)"
    by (auto simp: less_Suc_eq_0_disj)
  then show ?case using Cons none by auto
qed simp

lemma position_Some: "position name props = Some i \<Longrightarrow> i < length props \<and> propertyName (props ! i) = name"
  by (induction props arbitrary: i) (auto split: if_splits)

lemma position_exists: "find_property name props \<noteq> None \<Longrightarrow> position name props \<noteq> None"
  by (induction props) auto

lemma rotate_find_Inr:
  "rotate_find valid action props as = Inr ps \<Longrightarrow> distinct as \<and>
     list_all2 (\<lambda>a i. i < length props \<and> propertyName (props ! i) = a) as ps"
  by (induction as arbitrary: ps) (auto split: if_splits option.splits sum.splits dest: position_Some)

lemma rotate_find_succeeds:
  "distinct as \<Longrightarrow> \<forall>a \<in> set as. valid a \<and> action a = XaceAllowOperation \<and> find_property a props \<noteq> None \<Longrightarrow>
     \<exists>ps. rotate_find valid action props as = Inr ps"
proof (induction as)
  case (Cons a as)
  then obtain i ps where "position a props = Some i" "rotate_find valid action props as = Inr ps"
    using position_exists by fastforce
  then show ?case using Cons.prems by simp
qed simp

lemma raise_delta_correct: "0 < n \<Longrightarrow> 0 \<le> raise_delta d n \<and> raise_delta d n mod int n = d mod int n"
proof (induction d n rule: raise_delta.induct)
  case (1 d n)
  then show ?case by (cases "d < 0") (auto simp: raise_delta.simps [of d n])
qed

lemma rotate_names_correct:
  assumes "distinct (map snd prs)" "\<forall>x \<in> set prs. snd x < length props"
  shows "fst (rotate_names as delta prs props) = map (\<lambda>x. propertyName (props ! snd x)) prs \<and>
    length (snd (rotate_names as delta prs props)) = length props \<and>
    (\<forall>j < length props. (\<forall>i. (i, j) \<in> set prs \<longrightarrow> snd (rotate_names as delta prs props) ! j =
        (props ! j)\<lparr>propertyName := as ! ((i + delta) mod length as)\<rparr>) \<and>
      (j \<notin> snd ` set prs \<longrightarrow> snd (rotate_names as delta prs props) ! j = props ! j))"
  using assms
proof (induction as delta prs props rule: rotate_names.induct)
  case (2 as delta i pos rest props)
  let ?props = "props[pos := (props ! pos)\<lparr>propertyName := as ! ((i + delta) mod length as)\<rparr>]"
  have pos: "pos < length props" "pos \<notin> snd ` set rest" using 2(2,3) by auto
  have IH: "fst (rotate_names as delta rest ?props) = map (\<lambda>x. propertyName (?props ! snd x)) rest"
    "length (snd (rotate_names as delta rest ?props)) = length props"
    "\<forall>j < length props. (\<forall>i. (i, j) \<in> set rest \<longrightarrow> snd (rotate_names as delta rest ?props) ! j =
        (?props ! j)\<lparr>propertyName := as ! ((i + delta) mod length as)\<rparr>) \<and>
      (j \<notin> snd ` set rest \<longrightarrow> snd (rotate_names as delta rest ?props) ! j = ?props ! j)"
    using 2(1) [OF refl] 2(2,3) by simp_all
  have same: "map (\<lambda>x. propertyName (?props ! snd x)) rest = map (\<lambda>x. propertyName (props ! snd x)) rest"
    using pos(2) by (intro map_cong refl) (auto simp: nth_list_update image_iff)
  show ?case
  proof (intro conjI allI impI)
    show "fst (rotate_names as delta ((i, pos) # rest) props) = map (\<lambda>x. propertyName (props ! snd x)) ((i, pos) # rest)"
      using IH(1) same by (simp add: Let_def)
    show "length (snd (rotate_names as delta ((i, pos) # rest) props)) = length props"
      using IH(2) by (simp add: Let_def)
  next
    fix j i' assume j: "j < length props" "(i', j) \<in> set ((i, pos) # rest)"
    show "snd (rotate_names as delta ((i, pos) # rest) props) ! j = (props ! j)\<lparr>propertyName := as ! ((i' + delta) mod length as)\<rparr>"
    proof (cases "(i', j) \<in> set rest")
      case True
      then have "j \<noteq> pos" using pos(2) by force
      then show ?thesis using IH(3) j(1) True by (simp add: Let_def)
    next
      case False
      then have "i' = i" "j = pos" using j(2) by auto
      then show ?thesis using IH(3) j(1) pos by (simp add: Let_def)
    qed
  next
    fix j assume "j < length props" "j \<notin> snd ` set ((i, pos) # rest)"
    then show "snd (rotate_names as delta ((i, pos) # rest) props) ! j = props ! j" using IH(3) by (simp add: Let_def)
  qed
qed simp

text \<open>The effect on the list: the contents move to the rotated names.\<close>

lemma rotated_props:
  fixes delta :: nat
  assumes ok: "props_ok props" and find: "rotate_find valid action props as = Inr ps" and ne: "as \<noteq> []"
  defines "n \<equiv> length as"
  defines "props' \<equiv> snd (rotate_names as delta (zip [0..<n] ps) props)"
  shows "fst (rotate_names as delta (zip [0..<n] ps) props) = as" "props_ok props'"
    "i < n \<Longrightarrow> prop_map props' (as ! ((i + delta) mod n)) = prop_map props (as ! i)"
    "name \<notin> set as \<Longrightarrow> prop_map props' name = prop_map props name"
proof -
  have as: "distinct as" "length ps = n" "\<And>i. i < n \<Longrightarrow> ps ! i < length props \<and> propertyName (props ! (ps ! i)) = as ! i"
    using rotate_find_Inr [OF find] by (auto simp: n_def list_all2_conv_all_nth)
  have inj: "i = i'" if "i < n" "i' < n" "ps ! i = ps ! i'" for i i'
    using as that by (metis n_def nth_eq_iff_index_eq)
  have prs: "set (zip [0..<n] ps) = {(i, ps ! i) | i. i < n}" "map snd (zip [0..<n] ps) = ps"
    using as(2) by (auto simp: set_zip) (metis add.left_neutral nth_upt)
  have dist: "distinct ps" using inj as(2) unfolding distinct_conv_nth by blast
  have R: "fst (rotate_names as delta (zip [0..<n] ps) props) = map (\<lambda>x. propertyName (props ! snd x)) (zip [0..<n] ps)"
    "length props' = length props"
    "\<And>i. i < n \<Longrightarrow> props' ! (ps ! i) = (props ! (ps ! i))\<lparr>propertyName := as ! ((i + delta) mod n)\<rparr>"
    "\<And>j. j < length props \<Longrightarrow> j \<notin> set ps \<Longrightarrow> props' ! j = props ! j"
  proof -
    have "\<forall>x \<in> set (zip [0..<n] ps). snd x < length props" using as(3) unfolding prs(1) by auto
    moreover have "snd ` set (zip [0..<n] ps) = set ps" by (metis prs(2) set_map)
    moreover have "distinct (map snd (zip [0..<n] ps))" using prs(2) dist by simp
    ultimately have r: "fst (rotate_names as delta (zip [0..<n] ps) props) = map (\<lambda>x. propertyName (props ! snd x)) (zip [0..<n] ps)"
      "length props' = length props"
      "\<forall>j < length props. (\<forall>i. (i, j) \<in> set (zip [0..<n] ps) \<longrightarrow> props' ! j = (props ! j)\<lparr>propertyName := as ! ((i + delta) mod n)\<rparr>) \<and>
        (j \<notin> set ps \<longrightarrow> props' ! j = props ! j)"
      using rotate_names_correct [of "zip [0..<n] ps" props as delta] unfolding props'_def n_def by simp_all
    show "fst (rotate_names as delta (zip [0..<n] ps) props) = map (\<lambda>x. propertyName (props ! snd x)) (zip [0..<n] ps)"
      "length props' = length props" by (rule r)+
    show "props' ! (ps ! i) = (props ! (ps ! i))\<lparr>propertyName := as ! ((i + delta) mod n)\<rparr>" if "i < n" for i
      using r(3) as(3) [OF that] that unfolding prs(1) by blast
    show "props' ! j = props ! j" if "j < length props" "j \<notin> set ps" for j using r(3) that by blast
  qed
  show "fst (rotate_names as delta (zip [0..<n] ps) props) = as"
    unfolding R(1) using as(2,3) by (intro nth_equalityI) (auto simp: n_def)
  have dn: "distinct (map propertyName props)" using ok by (simp add: props_ok_def)
  have names: "propertyName (props ! j) \<notin> set as" if "j < length props" "j \<notin> set ps" for j
  proof
    assume "propertyName (props ! j) \<in> set as"
    then obtain i where "i < n" "propertyName (props ! j) = as ! i" by (auto simp: in_set_conv_nth n_def)
    then have "propertyName (props ! j) = propertyName (props ! (ps ! i))" "ps ! i < length props" using as(3) by simp_all
    then have "j = ps ! i" using dn that(1) by (simp add: distinct_conv_nth) metis
    then show False using that(2) \<open>i < n\<close> as(2) by auto
  qed
  have ne: "0 < n" using ne by (simp add: n_def)
  have rot_inj: "i = i'" if "i < n" "i' < n" "(i + delta) mod n = (i' + delta) mod n" for i i'
  proof -
    have "i = i'" if "i \<le> i'" "i' < n" "(i' + delta) mod n = (i + delta) mod n" for i i'
    proof -
      have "n dvd i' + delta - (i + delta)" using that mod_eq_dvd_iff_nat [of "i + delta" "i' + delta" n] by simp
      then show ?thesis using that by (auto dest!: dvd_imp_le)
    qed
    then show ?thesis using that by (metis nat_le_linear)
  qed
  have rotated: "propertyName (props' ! (ps ! i)) = as ! ((i + delta) mod n)" "content_of (props' ! (ps ! i)) = content_of (props ! (ps ! i))"
    "as ! ((i + delta) mod n) \<in> set as" if "i < n" for i
    using R(3) [OF that] ne by (simp_all add: content_of_def n_def)
  have diff: "propertyName (props' ! j) \<noteq> propertyName (props' ! k)" if jk: "j < length props" "k < length props" "j \<noteq> k" for j k
  proof (cases "j \<in> set ps")
    case True
    then obtain i where i: "i < n" "j = ps ! i" using as(2) by (auto simp: in_set_conv_nth)
    show ?thesis
    proof (cases "k \<in> set ps")
      case True
      then obtain i' where i': "i' < n" "k = ps ! i'" using as(2) by (auto simp: in_set_conv_nth)
      then have "(i + delta) mod n \<noteq> (i' + delta) mod n" using rot_inj i jk(3) by blast
      then show ?thesis using rotated(1) i i' ne as(1) by (simp add: n_def nth_eq_iff_index_eq)
    next
      case False
      then show ?thesis using rotated(1,3) [OF i(1)] i(2) names [OF jk(2) False] R(4) [OF jk(2) False] by auto
    qed
  next
    case j: False
    show ?thesis
    proof (cases "k \<in> set ps")
      case True
      then obtain i where i: "i < n" "k = ps ! i" using as(2) by (auto simp: in_set_conv_nth)
      then show ?thesis using rotated(1,3) [OF i(1)] names [OF jk(1) j] R(4) [OF jk(1) j] by auto
    next
      case False
      then show ?thesis using R(4) j jk dn by (simp add: distinct_conv_nth)
    qed
  qed
  have elem: "property_ok (props' ! j)" if "j < length props" for j
  proof (cases "j \<in> set ps")
    case True
    then obtain i where "i < n" "j = ps ! i" using as(2) by (auto simp: in_set_conv_nth)
    then show ?thesis using R(3) ok that by (simp add: props_ok_def property_ok_def)
  qed (use R(4) ok that in \<open>simp add: props_ok_def\<close>)
  show ok': "props_ok props'"
    unfolding props_ok_def
  proof
    show "\<forall>p \<in> set props'. property_ok p" using elem R(2) by (auto simp: in_set_conv_nth)
    show "distinct (map propertyName props')" using diff R(2) by (simp add: distinct_conv_nth)
  qed
  show "prop_map props' (as ! ((i + delta) mod n)) = prop_map props (as ! i)" if "i < n"
  proof -
    have "prop_map props' (as ! ((i + delta) mod n)) = Some (content_of (props ! (ps ! i)))"
      unfolding prop_map_iff [OF ok'] using rotated [OF that] as(3) [OF that] R(2) by auto
    moreover have "prop_map props (as ! i) = Some (content_of (props ! (ps ! i)))"
      unfolding prop_map_iff [OF ok] using as(3) [OF that] by auto
    ultimately show ?thesis by simp
  qed
  show "prop_map props' name = prop_map props name" if name: "name \<notin> set as"
  proof -
    have "prop_map props' name = Some c \<longleftrightarrow> prop_map props name = Some c" for c
      unfolding prop_map_iff [OF ok'] prop_map_iff [OF ok] R(2)
    proof (intro ex_cong1 conj_cong refl)
      fix j assume j: "j < length props"
      show "propertyName (props' ! j) = name \<longleftrightarrow> propertyName (props ! j) = name"
      proof (cases "j \<in> set ps")
        case True
        then obtain i where "i < n" "j = ps ! i" using as(2) by (auto simp: in_set_conv_nth)
        then show ?thesis using rotated(1,3) as(3) name by (metis n_def nth_mem)
      qed (simp add: R(4) [OF j])
      show "content_of (props' ! j) = c \<longleftrightarrow> content_of (props ! j) = c"
      proof (cases "j \<in> set ps")
        case True
        then obtain i where "i < n" "j = ps ! i" using as(2) by (auto simp: in_set_conv_nth)
        then show ?thesis using rotated(2) by simp
      qed (simp add: R(4) [OF j])
    qed
    then show ?thesis by (metis not_Some_eq)
  qed
qed


section \<open>The server under requests\<close>

definition server_ok :: "prop_server \<Rightarrow> bool" where
  "server_ok s \<longleftrightarrow> (\<forall>i. props_ok (wUserProps (windows s i)))"

text \<open>
  A request as it arrives: its length in \<open>req_len\<close> is that of the header and the data behind it
  (at most the maximal request of the server), and its fields are those of the wire.
\<close>

inductive prop_request :: "prop_server \<Rightarrow> prop_server \<Rightarrow> bool" where
  change: "req_len c < 2 ^ 24 \<Longrightarrow> 24 + length (cp_data r) = 4 * req_len c \<Longrightarrow>
    ProcChangeProperty lookup hook update_time ok c r s = (rc, c', s') \<Longrightarrow> prop_request s s'"
| delete: "ProcDeleteProperty lookup hook update_time c d s = (rc, c', s') \<Longrightarrow> prop_request s s'"
| get: "ProcGetProperty lookup hook update_time c g s = (rc, c', s') \<Longrightarrow> prop_request s s'"
| list: "ProcListProperties lookup ok c i s = (rc, c', s') \<Longrightarrow> prop_request s s'"
| rotate: "ProcRotateProperties lookup hook update_time ok c t s = (rc, c', s') \<Longrightarrow> rp_nAtoms t \<le> length (rp_atoms t) \<Longrightarrow>
    prop_request s s'"

lemma server_ok_put:
  "server_ok s \<Longrightarrow> props_ok (wUserProps w) \<Longrightarrow> server_ok (put_window s i w out)"
  by (simp add: server_ok_def put_window_def)

lemma server_ok_other [simp]:
  "server_ok (s\<lparr>outputs := out\<rparr>) = server_ok s" "server_ok (s\<lparr>currentTime := t\<rparr>) = server_ok s"
  by (simp_all add: server_ok_def)

text \<open>What \<^verbatim>\<open>ProcChangeProperty\<close> has checked when it changes a window.\<close>

lemma ProcChangeProperty_cases:
  assumes "ProcChangeProperty lookup hook update_time ok c r s = (rc, c', s')"
  defines "s1 \<equiv> s\<lparr>currentTime := update_time (currentTime s)\<rparr>"
  shows "(rc \<noteq> Success \<or> hook (cp_window r) (cp_property r) DixWriteAccess = XaceIgnoreOperation) \<and> (s' = s \<or> s' = s1) \<or>
    (cp_mode r \<le> 2 \<and> cp_format r \<in> {8, 16, 32} \<and> cp_nUnits r \<le> (0xffffffff - 24) div 4 \<and>
     REQUEST_FIXED_SIZE 24 (to_int (cp_nUnits r * (cp_format r div 8))) (req_len c) \<and>
     ValidAtom (atoms s) (cp_property r) \<and> ValidAtom (atoms s) (cp_type r) \<and>
     hook (cp_window r) (cp_property r) DixWriteAccess \<noteq> XaceErrorOperation \<and>
     (\<exists>err w out. ChangeWindowProperty (env_of s1 (cp_window r)) ok (windows s (cp_window r)) (cp_property r) (cp_type r) (cp_format r)
           (cp_mode r) (cp_nUnits r) (cp_data r) True = (err, w, out) \<and> s' = put_window s1 (cp_window r) w out \<and>
        rc = (if err \<noteq> Success then err else noClientException c)))"
  using assms(1)
  by (auto simp: ProcChangeProperty_def Let_def s1_def looked_up_def split: if_splits prod.splits)

lemma change_data_fits:
  assumes "REQUEST_FIXED_SIZE 24 (to_int (n * (fmt div 8))) len" "n \<le> (0xffffffff - 24) div 4" "fmt \<in> {8, 16, 32}" "len < 2 ^ 24"
  shows "24 + n * (fmt div 8) \<le> 4 * len"
proof -
  have "n * (fmt div 8) < 2 ^ 32" using assms(2,3) by auto
  then have "(24 + n * (fmt div 8) + 3) div 4 = len"
    using assms(1,4) REQUEST_FIXED_SIZE_iff [of "n * (fmt div 8)" 24 len] by simp
  then show ?thesis by linarith
qed

lemma optional_found: "find_property name (wUserProps w) \<noteq> None \<Longrightarrow> optional w \<noteq> None"
  by (auto simp: wUserProps_def split: option.splits)

lemma unlink_property_ok:
  "find_property name (wUserProps w) \<noteq> None \<Longrightarrow> props_ok (wUserProps w) \<Longrightarrow> props_ok (wUserProps (unlink_property env w name))"
  using optional_found by (simp add: unlink_property_props remove_first_ok)

lemma prop_request_ok: "prop_request s s' \<Longrightarrow> server_ok s \<Longrightarrow> server_ok s'"
proof (induction rule: prop_request.induct)
  case (change c r lookup hook update_time ok s rc c' s')
  from ProcChangeProperty_cases [OF change(3)] show ?case
  proof (elim disjE conjE exE)
    fix err w out
    let ?s = "s\<lparr>currentTime := update_time (currentTime s)\<rparr>"
    assume f: "cp_mode r \<le> 2" "cp_format r \<in> {8, 16, 32}" "cp_nUnits r \<le> (0xffffffff - 24) div 4"
        "REQUEST_FIXED_SIZE 24 (to_int (cp_nUnits r * (cp_format r div 8))) (req_len c)"
      and run: "ChangeWindowProperty (env_of ?s (cp_window r)) ok (windows s (cp_window r)) (cp_property r) (cp_type r) (cp_format r)
           (cp_mode r) (cp_nUnits r) (cp_data r) True = (err, w, out)" and s': "s' = put_window ?s (cp_window r) w out"
    have "cp_nUnits r * (cp_format r div 8) \<le> length (cp_data r)"
      using change_data_fits [OF f(4,3,2)] change(1,2) by simp
    then have "props_ok (wUserProps w)"
      using ChangeWindowProperty_ok [OF f(1) run _ f(2)] change(4) by (simp add: server_ok_def)
    then show "server_ok s'" unfolding s' using change(4) by (intro server_ok_put) simp_all
  qed (use change(4) in simp_all)
next
  case (delete lookup hook update_time c d s rc c' s')
  have "props_ok (wUserProps w)" if "DeleteProperty env (windows s i) name = (rc, w, out)" for env i name rc w out
    using that delete(2) unlink_property_ok by (auto simp: DeleteProperty_def server_ok_def split: option.splits)
  then show ?case
    using delete by (auto simp: ProcDeleteProperty_def Let_def split: if_splits prod.splits intro!: server_ok_put)
next
  case (get lookup hook update_time c g s rc c' s')
  have w: "props_ok (wUserProps (windows s i))" for i using get(2) by (simp add: server_ok_def)
  show ?case
    using get w unlink_property_ok
    by (auto simp: ProcGetProperty_def Let_def split: if_splits prod.splits option.splits intro!: server_ok_put)
next
  case (list lookup ok c i s rc c' s')
  then show ?case by (auto simp: ProcListProperties_def Let_def split: if_splits)
next
  case (rotate lookup hook update_time ok c t s rc c' s')
  let ?s = "s\<lparr>currentTime := update_time (currentTime s)\<rparr>"
  let ?as = "take (rp_nAtoms t) (rp_atoms t)" and ?w = "windows s (rp_window t)"
  have "props_ok (wUserProps (set_userProps (snd (rotate_names ?as delta (zip [0..<rp_nAtoms t] ps) (wUserProps ?w))) ?w))"
    if "rotate_find valid action (wUserProps ?w) ?as = Inr ps" "rp_nAtoms t \<noteq> 0" for valid action ps delta
  proof (cases "optional ?w")
    case (Some opt)
    have "?as \<noteq> []" "length ?as = rp_nAtoms t" using that(2) rotate(2) by auto
    then show ?thesis using rotated_props(2) [OF _ that(1), of delta] rotate(3) Some by (simp add: server_ok_def)
  qed (use rotate(3) in \<open>simp add: set_userProps_def wUserProps_def\<close>)
  then show ?case
    using rotate
    by (auto simp: ProcRotateProperties_def Let_def split: if_splits sum.splits option.splits prod.splits intro!: server_ok_put)
qed

interpretation property_server: stable_invariant prop_request server_ok
  by unfold_locales (rule prop_request_ok)



text \<open>A small server for the examples: one child of the root without properties, atoms up to 100.\<close>

definition ex_server :: prop_server where
  "ex_server = \<lparr>windows = (\<lambda>i. \<lparr>window_id = i, optional = None, dontPropagate = 0, cursorIsNone = False\<rparr>), masks_of = (\<lambda>_. 0),
     ancestors_of = (\<lambda>_. [ex_root]), currentTime = \<lparr>months = 0, milliseconds = 7\<rparr>,
     atoms = \<lparr>lastAtom = 100, atomRoot = NullNode, tableLength = 0, nodeTable = []\<rparr>, outputs = []\<rparr>"

definition ex_client :: "nat \<Rightarrow> PropClient" where
  "ex_client n = \<lparr>req_len = n, errorValue = 0, noClientException = Success\<rparr>"

definition ex_change :: xChangePropertyReq where
  "ex_change = \<lparr>cp_mode = 0, cp_window = 5, cp_property = 39, cp_type = 31, cp_format = 8, cp_nUnits = 3, cp_data = [65, 66, 67, 0]\<rparr>"

lemma ex_change_run:
  "\<exists>c s'. ProcChangeProperty (\<lambda>_ _. Success) (\<lambda>_ _ _. 1) id alloc_ok (ex_client 7) ex_change ex_server = (Success, c, s') \<and>
     wUserProps (windows s' 5) = [\<lparr>propertyName = 39, prop_type = 31, format = 8, prop_size = 3, prop_data = [65, 66, 67]\<rparr>]"
  by (simp add: ProcChangeProperty_def ex_client_def ex_change_def ex_server_def REQUEST_AT_LEAST_SIZE_def REQUEST_FIXED_SIZE_def
      to_int_def ValidAtom_def looked_up_def ChangeWindowProperty_def env_of_def wUserProps_def MakeWindowOptional_def Let_def
      set_userProps_def put_window_def)


text \<open>C25. A \<^verbatim>\<open>ChangeProperty\<close> request that is answered with an error, for whatever reason, has neither changed a
  property nor told anyone; and one that does change a property has brought all the data it takes, with no overflow
  in the length computation of the code.\<close>

theorem ProcChangeProperty_safe:
  assumes "ProcChangeProperty lookup hook update_time ok c r s = (rc, c', s')" "noClientException c = Success" "req_len c < 2 ^ 24"
  shows "if rc \<noteq> Success then (\<forall>i. wUserProps (windows s' i) = wUserProps (windows s i)) \<and> outputs s' = outputs s
     else (\<forall>i. wUserProps (windows s' i) = wUserProps (windows s i)) \<or> 24 + cp_nUnits r * (cp_format r div 8) \<le> 4 * req_len c"
  using ProcChangeProperty_cases [OF assms(1)]
proof (elim disjE conjE exE)
  fix err w out
  let ?s = "s\<lparr>currentTime := update_time (currentTime s)\<rparr>"
  assume f: "cp_mode r \<le> 2" "cp_format r \<in> {8, 16, 32}" "cp_nUnits r \<le> (0xffffffff - 24) div 4"
      "REQUEST_FIXED_SIZE 24 (to_int (cp_nUnits r * (cp_format r div 8))) (req_len c)"
    and run: "ChangeWindowProperty (env_of ?s (cp_window r)) ok (windows s (cp_window r)) (cp_property r) (cp_type r) (cp_format r)
         (cp_mode r) (cp_nUnits r) (cp_data r) True = (err, w, out)" and s': "s' = put_window ?s (cp_window r) w out"
    and rc: "rc = (if err \<noteq> Success then err else noClientException c)"
  show ?thesis
  proof (cases "err = Success")
    case True
    then show ?thesis using rc assms(2) change_data_fits [OF f(4,3,2) assms(3)] by simp
  next
    case False
    then have "wUserProps w = wUserProps (windows s (cp_window r))" "out = []"
      using ChangeWindowProperty_cases [OF f(1) run] by auto
    then show ?thesis using s' rc False by (auto simp: put_window_def)
  qed
qed auto

lemma ProcChangeProperty_safe_witness:
  "\<exists>rc c' s'. ProcChangeProperty (\<lambda>_ _. Success) (\<lambda>_ _ _. 1) id (\<lambda>k. k \<noteq> 1) (ex_client 7) ex_change ex_server = (rc, c', s') \<and>
     rc = BadAlloc \<and> outputs s' = []"
proof -
  obtain rc c' s' where run:
    "ProcChangeProperty (\<lambda>_ _. Success) (\<lambda>_ _ _. 1) id (\<lambda>k. k \<noteq> 1) (ex_client 7) ex_change ex_server = (rc, c', s')"
    by (cases "ProcChangeProperty (\<lambda>_ _. Success) (\<lambda>_ _ _. 1) id (\<lambda>k. k \<noteq> 1) (ex_client 7) ex_change ex_server") auto
  then have "rc = BadAlloc"
    by (simp add: ProcChangeProperty_def ex_client_def ex_change_def ex_server_def REQUEST_AT_LEAST_SIZE_def REQUEST_FIXED_SIZE_def
      to_int_def ValidAtom_def looked_up_def ChangeWindowProperty_def env_of_def wUserProps_def MakeWindowOptional_def Let_def)
  then show ?thesis using ProcChangeProperty_safe [OF run] run by (simp add: ex_client_def ex_server_def)
qed

section \<open>Reading\<close>




lemma find_changed:
  "find_property name props = Some q \<Longrightarrow> (\<And>p. propertyName (f p) = propertyName p) \<Longrightarrow>
     find_property name (change_first name f props) = Some (f q)"
  by (induction props) (auto split: if_splits)

lemma ChangeWindowProperty_replaced:
  assumes "ChangeWindowProperty env ok w name type' fmt PropModeReplace len value ev = (Success, w', out)"
  shows "\<exists>p. find_property name (wUserProps w') = Some p \<and> prop_type p = type' \<and> format p = fmt \<and> prop_size p = len \<and>
     prop_data p = take (len * (fmt div 8)) value"
proof -
  let ?f = "changed PropModeReplace type' fmt len (take (len * (fmt div 8)) value)"
  consider "wUserProps w' = new_property name type' fmt len value # wUserProps w"
    | p where "find_property name (wUserProps w) = Some p" "wUserProps w' = change_first name ?f (wUserProps w)"
    using ChangeWindowProperty_cases [OF _ assms] by auto
  then show ?thesis
  proof cases
    case (2 p)
    have "find_property name (wUserProps w') = Some (?f p)" unfolding 2(2) by (rule find_changed [OF 2(1)]) simp
    then show ?thesis by (simp add: changed_def)
  qed (simp add: new_property_def)
qed

text \<open>C16. What a client stores with \<^verbatim>\<open>ChangeProperty\<close> in mode replace, a \<^verbatim>\<open>GetProperty\<close> from the start and long enough gives
  back: the type, the format, all the bytes, and nothing left behind them; the window is not touched.\<close>

theorem change_then_get:
  assumes "ProcChangeProperty lookup hook update_time ok c r s = (Success, c', s')" "cp_mode r = PropModeReplace"
    "hook (cp_window r) (cp_property r) DixWriteAccess = XaceAllowOperation" "noClientException c = Success"
    "hook (cp_window r) (cp_property r) DixReadAccess = XaceAllowOperation" "lookup (cp_window r) DixReadAccess = Success"
    "req_len c < 2 ^ 24" "24 + length (cp_data r) = 4 * req_len c"
    "cp_nUnits r * (cp_format r div 8) \<le> 4 * unat len" "4 * unat len < 2 ^ 32"
    "req_len c2 = 6" "gp = \<lparr>gp_delete = 0, gp_window = cp_window r, gp_property = cp_property r, gp_type = cp_type r, gp_longOffset = 0, gp_longLength = len\<rparr>"
  shows "\<exists>c3 s3. ProcGetProperty lookup hook update_time c2 gp s' = (noClientException c2, c3, s3) \<and> windows s3 = windows s' \<and>
     (let octets = take (cp_nUnits r * (cp_format r div 8)) (cp_data r)
      in outputs s3 = outputs s' @ [GetPropertyReply (cp_nUnits r) ((length octets + 3) div 4) 0 (cp_type r) (cp_format r)] @
           (if octets = [] then [] else [PropertyBytes octets]))"
proof -
  let ?s = "s\<lparr>currentTime := update_time (currentTime s)\<rparr>"
  let ?octets = "take (cp_nUnits r * (cp_format r div 8)) (cp_data r)"
  obtain err w out where f: "cp_mode r \<le> 2" "cp_format r \<in> {8, 16, 32}" "cp_nUnits r \<le> (0xffffffff - 24) div 4"
      "REQUEST_FIXED_SIZE 24 (to_int (cp_nUnits r * (cp_format r div 8))) (req_len c)"
      "ValidAtom (atoms s) (cp_property r)" "ValidAtom (atoms s) (cp_type r)"
    and run: "ChangeWindowProperty (env_of ?s (cp_window r)) ok (windows s (cp_window r)) (cp_property r) (cp_type r) (cp_format r)
         (cp_mode r) (cp_nUnits r) (cp_data r) True = (err, w, out)" and s': "s' = put_window ?s (cp_window r) w out"
    and rc: "Success = (if err \<noteq> Success then err else noClientException c)"
    using ProcChangeProperty_cases [OF assms(1)] assms(3) by auto
  have len: "cp_nUnits r * (cp_format r div 8) \<le> length (cp_data r)" using change_data_fits [OF f(4,3,2) assms(7)] assms(8) by simp
  have "err = Success" using rc by (auto split: if_splits)
  then obtain p where p: "find_property (cp_property r) (wUserProps w) = Some p" and
    pc: "prop_type p = cp_type r" "format p = cp_format r" "prop_size p = cp_nUnits r" "prop_data p = ?octets"
    using ChangeWindowProperty_replaced run assms(2) by metis
  have at: "atoms s' = atoms s" "windows s' (cp_window r) = w" using s' by (simp_all add: put_window_def)
  have "property_slice 0 len p = Some (GetPropertyReply (cp_nUnits r) ((length ?octets + 3) div 4) 0 (cp_type r) (cp_format r), ?octets)"
  proof -
    have "length ?octets = cp_nUnits r * (cp_format r div 8)" using len by simp
    moreover have "unat (4 * len) = 4 * unat len" using assms(10) by (simp add: unat_word_ariths)
    moreover have "0 < cp_format r div 8" using f(2) by auto
    ultimately show ?thesis
      using assms(9) pc by (simp add: property_slice_def Let_def mult.commute)
  qed
  moreover have "?octets = [] \<longleftrightarrow> take (cp_nUnits r * (cp_format r div 8)) (cp_data r) = []" ..
  ultimately show ?thesis
    using assms(5,6,11) f(5,6) at p pc
    by (simp add: ProcGetProperty_def assms(12) REQUEST_SIZE_MATCH_def Let_def looked_up_def put_window_def fun_upd_idem)
qed


lemma change_then_get_witness:
  "\<exists>c s' c3 s3. ProcChangeProperty (\<lambda>_ _. Success) (\<lambda>_ _ _. 1) id alloc_ok (ex_client 7) ex_change ex_server = (Success, c, s') \<and>
     ProcGetProperty (\<lambda>_ _. Success) (\<lambda>_ _ _. 1) id (ex_client 6)
       \<lparr>gp_delete = 0, gp_window = 5, gp_property = 39, gp_type = 31, gp_longOffset = 0, gp_longLength = 1\<rparr> s' = (Success, c3, s3) \<and>
     last (outputs s3) = PropertyBytes [65, 66, 67]"
proof -
  let ?gp = "\<lparr>gp_delete = 0, gp_window = cp_window ex_change, gp_property = cp_property ex_change, gp_type = cp_type ex_change,
    gp_longOffset = 0, gp_longLength = 1\<rparr>"
  obtain c s' where run: "ProcChangeProperty (\<lambda>_ _. Success) (\<lambda>_ _ _. 1) id alloc_ok (ex_client 7) ex_change ex_server = (Success, c, s')"
    using ex_change_run by blast
  have "\<exists>c3 s3. ProcGetProperty (\<lambda>_ _. Success) (\<lambda>_ _ _. 1) id (ex_client 6) ?gp s' = (noClientException (ex_client 6), c3, s3) \<and>
      windows s3 = windows s' \<and>
      (let octets = take (cp_nUnits ex_change * (cp_format ex_change div 8)) (cp_data ex_change)
       in outputs s3 = outputs s' @ [GetPropertyReply (cp_nUnits ex_change) ((length octets + 3) div 4) 0 (cp_type ex_change) (cp_format ex_change)] @
           (if octets = [] then [] else [PropertyBytes octets]))"
    by (rule change_then_get [OF run _ _ _ _ _ _ _ _ _ _ refl]) (simp_all add: ex_change_def ex_client_def)
  then show ?thesis using run by (auto simp: ex_change_def ex_client_def Let_def)
qed

text \<open>The offset counts modulo 2^32 bytes: one far behind the end reads from the beginning again.\<close>

lemma property_offset_wraps:
  "property_slice 0x40000001 1 \<lparr>propertyName = 3, prop_type = 4, format = 8, prop_size = 8, prop_data = [1, 2, 3, 4, 5, 6, 7, 8]\<rparr> =
     Some (GetPropertyReply 4 1 0 4 8, [5, 6, 7, 8])"
  by code_simp

section \<open>Rotating\<close>

text \<open>C15. \<^verbatim>\<open>RotateProperties\<close> moves the contents of the i-th property to the name \<open>nPositions\<close> places further in the list of atoms,
  cyclically and in either direction, leaves every other property alone, and sends one event for each of the atoms unless the
  rotation is a full turn.\<close>

theorem ProcRotateProperties_correct:
  assumes "props_ok (wUserProps (windows s w))" "rp_window r = w" "n = rp_nAtoms r" "length (rp_atoms r) = n" "0 < n" "n < 2 ^ 16"
    "req_len c = 3 + n" "lookup w DixWriteAccess = Success" "ok 0" "distinct (rp_atoms r)"
    "\<forall>a \<in> set (rp_atoms r). ValidAtom (atoms s) a \<and> hook w a (DixReadAccess OR DixWriteAccess) = XaceAllowOperation \<and>
       find_property a (wUserProps (windows s w)) \<noteq> None"
  shows "\<exists>c' s'. ProcRotateProperties lookup hook update_time ok c r s = (Success, c', s') \<and>
     (\<forall>i < n. prop_map (wUserProps (windows s' w)) (rp_atoms r ! nat ((int i + rp_nPositions r) mod int n)) =
        prop_map (wUserProps (windows s w)) (rp_atoms r ! i)) \<and>
     (\<forall>name. name \<notin> set (rp_atoms r) \<longrightarrow> prop_map (wUserProps (windows s' w)) name = prop_map (wUserProps (windows s w)) name) \<and>
     outputs s' = outputs s @ (if rp_nPositions r mod int n = 0 then []
        else map (\<lambda>a. PropertyNotify (window_id (windows s w)) PropertyNewValue a (milliseconds (currentTime s'))) (rp_atoms r))"
proof -
  let ?w = "windows s w" and ?as = "rp_atoms r" and ?d = "rp_nPositions r" and ?c = "looked_up w c"
  let ?s = "s\<lparr>currentTime := update_time (currentTime s)\<rparr>"
  obtain ps where find: "rotate_find (ValidAtom (atoms s)) (\<lambda>a. hook w a (DixReadAccess OR DixWriteAccess)) (wUserProps ?w) ?as = Inr ps"
    by (rule exE [OF rotate_find_succeeds [OF assms(10)]]) (use assms(11) in auto)
  have as: "?as \<noteq> []" "take n ?as = ?as" using assms(4,5) by auto
  have size: "REQUEST_FIXED_SIZE 12 (int n * 4) (req_len c)"
    using assms(6,7) by (simp add: REQUEST_FIXED_SIZE_def)
  have "find_property (hd ?as) (wUserProps ?w) \<noteq> None" using assms(11) as(1) by simp
  then have opt: "optional ?w \<noteq> None" by (rule optional_found)
  show ?thesis
  proof (cases "?d mod int n = 0")
    case True
    then have "\<bar>?d\<bar> mod int n = 0" by (metis dvd_abs_iff mod_0_imp_dvd dvd_imp_mod_0)
    then have "ProcRotateProperties lookup hook update_time ok c r s = (Success, ?c, ?s)"
      using assms(2,3,5,8,9) size find as by (simp add: ProcRotateProperties_def Let_def)
    moreover have "nat ((int i + ?d) mod int n) = i" if "i < n" for i
      using True that by (metis mod_add_right_eq add.right_neutral nat_int zmod_int mod_less)
    ultimately show ?thesis using True by simp
  next
    case False
    define delta where "delta = nat (raise_delta ?d n)"
    note delta = raise_delta_correct [OF assms(5), of ?d]
    let ?r = "rotate_names ?as delta (zip [0..<n] ps) (wUserProps ?w)"
    have "\<bar>?d\<bar> mod int n \<noteq> 0" using False by (metis dvd_abs_iff mod_0_imp_dvd dvd_imp_mod_0)
    then have run: "ProcRotateProperties lookup hook update_time ok c r s = (Success, ?c, put_window ?s w (set_userProps (snd ?r) ?w)
        (map (\<lambda>a. deliverPropertyNotifyEvent (currentTime ?s) ?w PropertyNewValue a) (fst ?r)))"
      using assms(2,3,5,8,9) size find as by (simp add: ProcRotateProperties_def Let_def delta_def)
    note rot = rotated_props [where delta = delta, OF assms(1) find as(1), unfolded assms(4)]
    have idx: "nat ((int i + ?d) mod int n) = (i + delta) mod n" for i
    proof -
      have "(int i + ?d) mod int n = (int i + int delta) mod int n"
        using delta by (metis delta_def mod_add_right_eq nat_0_le)
      then show ?thesis by (metis nat_int of_nat_add zmod_int)
    qed
    have "outputs s @ map (\<lambda>a. deliverPropertyNotifyEvent (currentTime ?s) ?w PropertyNewValue a) (fst ?r) =
        outputs s @ map (\<lambda>a. PropertyNotify (window_id ?w) PropertyNewValue a (milliseconds (currentTime ?s))) ?as"
      unfolding rot(1) by (simp add: deliverPropertyNotifyEvent_def)
    then show ?thesis
      unfolding run idx using False opt rot(3,4) by (simp add: put_window_def)
  qed
qed

definition ex_rotate :: xRotatePropertiesReq where
  "ex_rotate = \<lparr>rp_window = 5, rp_nAtoms = 3, rp_nPositions = - 1, rp_atoms = [1, 2, 3]\<rparr>"

definition ex_three :: prop_server where
  "ex_three = ex_server\<lparr>windows := (\<lambda>_. set_userProps
     (map (\<lambda>a. \<lparr>propertyName = a, prop_type = 4, format = 8, prop_size = 1, prop_data = [of_nat (64 + a)]\<rparr>) [1, 2, 3]) ex_root)\<rparr>"

lemma ProcRotateProperties_correct_witness:
  "\<exists>c s'. ProcRotateProperties (\<lambda>_ _. Success) (\<lambda>_ _ _. 1) id alloc_ok (ex_client 6) ex_rotate ex_three = (Success, c, s') \<and>
     map (prop_map (wUserProps (windows s' 5))) [1, 2, 3] = map (\<lambda>b. Some (4, 8, [b])) [66, 67, 65]"
proof -
  have props: "wUserProps (windows ex_three 5) = map (\<lambda>a. \<lparr>propertyName = a, prop_type = 4, format = 8, prop_size = 1,
        prop_data = [of_nat (64 + a)]\<rparr>) [1, 2, 3]"
    by (simp add: ex_three_def ex_root_def)
  have ok: "props_ok (wUserProps (windows ex_three 5))" by (simp add: props props_ok_def property_ok_def)
  have all: "\<forall>a \<in> set (rp_atoms ex_rotate). ValidAtom (atoms ex_three) a \<and> 1 = XaceAllowOperation \<and>
       find_property a (wUserProps (windows ex_three 5)) \<noteq> None"
    unfolding props by (simp add: ex_rotate_def ex_three_def ex_server_def ValidAtom_def)
  obtain c s' where run: "ProcRotateProperties (\<lambda>_ _. Success) (\<lambda>_ _ _. 1) id alloc_ok (ex_client 6) ex_rotate ex_three = (Success, c, s')"
    and rot: "\<forall>i < 3. prop_map (wUserProps (windows s' 5)) (rp_atoms ex_rotate ! nat ((int i + rp_nPositions ex_rotate) mod int 3)) =
        prop_map (wUserProps (windows ex_three 5)) (rp_atoms ex_rotate ! i)"
  proof -
    have "\<exists>c' s'. ProcRotateProperties (\<lambda>_ _. Success) (\<lambda>_ _ _. 1) id alloc_ok (ex_client 6) ex_rotate ex_three = (Success, c', s') \<and>
       (\<forall>i < 3. prop_map (wUserProps (windows s' 5)) (rp_atoms ex_rotate ! nat ((int i + rp_nPositions ex_rotate) mod int 3)) =
          prop_map (wUserProps (windows ex_three 5)) (rp_atoms ex_rotate ! i)) \<and>
       (\<forall>name. name \<notin> set (rp_atoms ex_rotate) \<longrightarrow>
          prop_map (wUserProps (windows s' 5)) name = prop_map (wUserProps (windows ex_three 5)) name) \<and>
       outputs s' = outputs ex_three @ (if rp_nPositions ex_rotate mod int 3 = 0 then []
          else map (\<lambda>a. PropertyNotify (window_id (windows ex_three 5)) PropertyNewValue a (milliseconds (currentTime s')))
            (rp_atoms ex_rotate))"
      by (rule ProcRotateProperties_correct [OF ok]) (use all in \<open>simp_all add: ex_rotate_def ex_client_def\<close>)
    then show thesis using that by (elim exE conjE)
  qed
  have "map (prop_map (wUserProps (windows s' 5))) [1, 2, 3] = map (prop_map (wUserProps (windows ex_three 5))) [2, 3, 1]"
    using rot [rule_format, of 0] rot [rule_format, of 1] rot [rule_format, of 2] by (simp add: ex_rotate_def)
  also have "\<dots> = map (\<lambda>b. Some (4, 8, [b])) [66, 67, 65]"
    unfolding props by (simp add: prop_map_def content_of_def)
  finally show ?thesis using run by blast
qed

section \<open>The access hook of the build\<close>

text \<open>C38. With the access hook the server is built with, which answers the success code of a procedure and not one of the three
  operations, no \<^verbatim>\<open>ChangeProperty\<close> request of any client changes a property: a valid one is answered with \<^verbatim>\<open>BadAtom\<close>.\<close>

theorem properties_blocked_by_hook:
  "fst (ProcChangeProperty lookup (\<lambda>_ _ _. ssx_XaceHook) update_time ok c r s) \<noteq> Success \<and>
   (\<forall>i. windows (snd (snd (ProcChangeProperty lookup (\<lambda>_ _ _. ssx_XaceHook) update_time ok c r s))) i = windows s i)"
proof -
  obtain rc c' s' where run: "ProcChangeProperty lookup (\<lambda>_ _ _. ssx_XaceHook) update_time ok c r s = (rc, c', s')"
    by (cases "ProcChangeProperty lookup (\<lambda>_ _ _. ssx_XaceHook) update_time ok c r s") auto
  then show ?thesis using ProcChangeProperty_cases [OF run] by (auto simp: ssx_XaceHook_def)
qed

end
