(* ===== verification/Event_Queue.thy ===== *)
theory Event_Queue
  imports Ssx_Prelude
begin

text \<open>
  The queue of input events (\<^verbatim>\<open>mi/mieq.c\<close>): a ring of 512 slots between the signal handler that
  enqueues and the main loop that processes.

  \<^item> An \<^verbatim>\<open>xEvent\<close> has the fields that the queue reads under its several views, and the rest.
  \<^item> A device is its identifier, a screen its number; an optional one may be NULL.
  \<^item> The event codes of the input extension are assigned at start-up, so they are part of the
    environment \<open>input_env\<close>, as are the core devices and what waking the screens does.
  \<^item> What the queue calls (handlers, device procedures, the change of screen) is a list of outputs;
    these calls leave the queue alone.
\<close>

section \<open>State\<close>

abbreviation (input) QUEUE_SIZE :: nat where "QUEUE_SIZE \<equiv> 512"

abbreviation (input) KeyPress :: nat where "KeyPress \<equiv> 2"
abbreviation (input) KeyRelease :: nat where "KeyRelease \<equiv> 3"
abbreviation (input) ButtonPress :: nat where "ButtonPress \<equiv> 4"
abbreviation (input) ButtonRelease :: nat where "ButtonRelease \<equiv> 5"
abbreviation (input) MotionNotify :: nat where "MotionNotify \<equiv> 6"

record xEvent =
  ev_type :: nat
  ev_time :: CARD32
  rootX :: int
  rootY :: int
  kbp_deviceid :: byte
  valuator_deviceid :: byte
  ev_rest :: "byte list"

record EventRec =
  event :: "xEvent list"
  nevents :: nat
  pScreen :: "nat option"
  pDev :: "nat option"

record EventQueue =
  head :: nat
  tail :: nat
  lastEventTime :: CARD32
  lastMotion :: nat
  events :: "EventRec list"
  pEnqueueScreen :: "nat option"
  pDequeueScreen :: "nat option"
  handlers :: "nat option list"

record power =
  screenIsSaved :: bool
  DPMSPowerLevel :: nat

record input_env =
  DeviceValuator :: nat
  DeviceMotionNotify :: nat
  DeviceButtonPress :: nat
  DeviceButtonRelease :: nat
  ProximityIn :: nat
  ProximityOut :: nat
  core_pointer :: nat
  core_keyboard :: nat
  unsave :: "power \<Rightarrow> power"
  dpms_on :: "power \<Rightarrow> power"

datatype input_output =
    SaveScreens
  | SetScreenSaverTimer
  | DPMSSet
  | NewCurrentScreen "nat option" int int
  | CustomHandler nat "nat option" "xEvent list" "nat option"
  | SwitchCoreKeyboard "nat option"
  | SwitchCorePointer "nat option"
  | ProcessInput "xEvent list" "nat option"

section \<open>Operations\<close>

definition mieqInit :: "CARD32 \<Rightarrow> nat option \<Rightarrow> EventQueue \<Rightarrow> EventQueue" where
  "mieqInit now screen0 q =
     q\<lparr>head := 0, tail := 0, lastEventTime := now, lastMotion := 0, pEnqueueScreen := screen0, pDequeueScreen := screen0,
       handlers := replicate 128 None\<rparr>"

text \<open>The slot before, in unsigned arithmetic of 32 bits.\<close>

definition ring_prev :: "nat \<Rightarrow> nat" where
  "ring_prev i = unat ((of_nat i - 1 :: 32 word) mod 512)"

definition takes_valuators :: "input_env \<Rightarrow> xEvent \<Rightarrow> bool" where
  "takes_valuators env kbp \<longleftrightarrow>
     ev_type kbp = DeviceMotionNotify env \<or> ev_type kbp = DeviceButtonPress env \<or> ev_type kbp = DeviceButtonRelease env \<or>
     ev_type kbp = ProximityIn env \<or> ev_type kbp = ProximityOut env"

text \<open>The time of an event never falls behind the last one, unless it is ten seconds or again behind.\<close>

definition forward_time :: "CARD32 \<Rightarrow> xEvent \<Rightarrow> xEvent" where
  "forward_time latest e = (if ev_time e < latest \<and> latest - ev_time e < 10000 then e\<lparr>ev_time := latest\<rparr> else e)"

definition is_motion :: "input_env \<Rightarrow> nat \<Rightarrow> xEvent \<Rightarrow> nat" where
  "is_motion env dev e =
     (if ev_type e = MotionNotify then core_pointer env
      else if ev_type e = DeviceMotionNotify env then dev else 0)"

definition put_event :: "nat \<Rightarrow> nat \<Rightarrow> xEvent \<Rightarrow> nat \<Rightarrow> EventQueue \<Rightarrow> EventQueue" where
  "put_event slot dev e motion q =
     (let e' = forward_time (lastEventTime q) e
      in q\<lparr>events := (events q)[slot := \<lparr>event = (event (events q ! slot))[0 := e'], nevents = 1,
             pScreen = pEnqueueScreen q, pDev = Some dev\<rparr>],
           lastEventTime := ev_time e', lastMotion := motion\<rparr>)"

definition mieqEnqueue :: "input_env \<Rightarrow> nat \<Rightarrow> xEvent \<Rightarrow> EventQueue \<Rightarrow> EventQueue" where
  "mieqEnqueue env dev e q =
     (let oldtail = tail q;
          laste = events q ! ring_prev oldtail;
          lastkbp = event laste ! 0;
          isMotion = is_motion env dev e
      in if ev_type e = DeviceValuator env then
           if nevents laste > 6 then q
           else if oldtail = head q \<or> \<not> takes_valuators env lastkbp \<or>
                   kbp_deviceid lastkbp AND 0x7F \<noteq> valuator_deviceid e AND 0x7F then q
           else q\<lparr>events := (events q)[ring_prev oldtail :=
                    laste\<lparr>event := (event laste)[nevents laste := e], nevents := nevents laste + 1\<rparr>]\<rparr>
         else if isMotion \<noteq> 0 \<and> isMotion = lastMotion q \<and> oldtail \<noteq> head q then
           put_event (ring_prev oldtail) dev e isMotion q
         else
           let newtail = (oldtail + 1) mod QUEUE_SIZE
           in if newtail = head q then q
              else put_event oldtail dev e isMotion (q\<lparr>tail := newtail\<rparr>))"

definition mieqSwitchScreen :: "nat option \<Rightarrow> bool \<Rightarrow> EventQueue \<Rightarrow> EventQueue" where
  "mieqSwitchScreen screen fromDIX q =
     (let q' = q\<lparr>pEnqueueScreen := screen\<rparr> in if fromDIX then q'\<lparr>pDequeueScreen := screen\<rparr> else q')"

definition mieqSetHandler :: "nat \<Rightarrow> nat option \<Rightarrow> EventQueue \<Rightarrow> EventQueue" where
  "mieqSetHandler ev handler q = q\<lparr>handlers := (handlers q)[ev := handler]\<rparr>"

text \<open>An event arrived: the screens are woken.\<close>

definition wake_screens :: "input_env \<Rightarrow> power \<Rightarrow> power \<times> input_output list" where
  "wake_screens env p =
     (let (p1, out1) =
        (if screenIsSaved p then (unsave env p, [SaveScreens])
         else if DPMSPowerLevel p \<noteq> 0 then (p, [SetScreenSaverTimer])
         else (p, []))
      in if DPMSPowerLevel p1 \<noteq> 0 then (dpms_on env p1, out1 @ [DPMSSet]) else (p1, out1))"

text \<open>One event: the result says whether the loop goes on, and with which device in \<^verbatim>\<open>dev\<close>.\<close>

definition dispatch_event ::
    "input_env \<Rightarrow> nat option \<Rightarrow> EventQueue \<Rightarrow> bool \<times> nat option \<times> EventQueue \<times> input_output list" where
  "dispatch_event env dev q =
     (let e = events q ! head q;
          evs = take (nevents e) (event e);
          e0 = event e ! 0;
          q1 = q\<lparr>head := (head q + 1) mod QUEUE_SIZE\<rparr>
      in if pScreen e \<noteq> pDequeueScreen q1 then
           (True, dev, q1\<lparr>pDequeueScreen := pScreen e\<rparr>, [NewCurrentScreen (pScreen e) (rootX e0) (rootY e0)])
         else
           case handlers q1 ! ev_type e0 of
             Some h \<Rightarrow> (False, dev, q1, [CustomHandler h (pDequeueScreen q1) evs dev])
           | None \<Rightarrow>
               if ev_type e0 = KeyPress \<or> ev_type e0 = KeyRelease then
                 (True, Some (core_keyboard env), q1, [SwitchCoreKeyboard (pDev e), ProcessInput evs (Some (core_keyboard env))])
               else if ev_type e0 = MotionNotify \<or> ev_type e0 = ButtonPress \<or> ev_type e0 = ButtonRelease then
                 (True, Some (core_pointer env), q1, [SwitchCorePointer (pDev e), ProcessInput evs (Some (core_pointer env))])
               else (True, pDev e, q1, [ProcessInput evs (pDev e)]))"

text \<open>The loop; \<open>None\<close> would be a loop that never ends.\<close>

partial_function (option) process_loop ::
    "input_env \<Rightarrow> nat option \<Rightarrow> EventQueue \<Rightarrow> power \<Rightarrow> input_output list \<Rightarrow> (EventQueue \<times> power \<times> input_output list) option" where
  [code]: "process_loop env dev q p out =
     (if head q = tail q then Some (q, p, out)
      else
        let (p', out1) = wake_screens env p; (again, dev', q', out2) = dispatch_event env dev q
        in if again then process_loop env dev' q' p' (out @ out1 @ out2) else Some (q', p', out @ out1 @ out2))"

definition mieqProcessInputEvents :: "input_env \<Rightarrow> EventQueue \<Rightarrow> power \<Rightarrow> (EventQueue \<times> power \<times> input_output list) option" where
  "mieqProcessInputEvents env q p = process_loop env None q p []"


section \<open>The ring as a list\<close>

definition count :: "EventQueue \<Rightarrow> nat" where
  "count q = (tail q + QUEUE_SIZE - head q) mod QUEUE_SIZE"

definition slot :: "EventQueue \<Rightarrow> nat \<Rightarrow> nat" where
  "slot q i = (head q + i) mod QUEUE_SIZE"

type_synonym entry = "xEvent list \<times> nat option \<times> nat option"

definition entry :: "EventRec \<Rightarrow> entry" where
  "entry r = (take (nevents r) (event r), pScreen r, pDev r)"

definition pending :: "EventQueue \<Rightarrow> entry list" where
  "pending q = map (\<lambda>i. entry (events q ! slot q i)) [0..<count q]"

definition rec_ok :: "EventRec \<Rightarrow> bool" where
  "rec_ok r \<longleftrightarrow> length (event r) = 7 \<and> nevents r \<le> 7"

definition queue_ok :: "EventQueue \<Rightarrow> bool" where
  "queue_ok q \<longleftrightarrow> head q < QUEUE_SIZE \<and> tail q < QUEUE_SIZE \<and> length (events q) = QUEUE_SIZE \<and>
     (\<forall>i < QUEUE_SIZE. rec_ok (events q ! i)) \<and> (\<forall>i < count q. 1 \<le> nevents (events q ! slot q i)) \<and> length (handlers q) = 128"

lemma ring_prev: "i < 512 \<Longrightarrow> ring_prev i = (i + 511) mod 512"
proof (cases "i = 0")
  case True
  have "(-1 :: 32 word) mod 512 = 511" by code_simp
  then show ?thesis by (simp add: ring_prev_def True)
next
  case False
  assume "i < 512"
  then have "(of_nat i - 1 :: 32 word) = of_nat (i - 1)" using False by (simp add: of_nat_diff)
  moreover have "unat (of_nat (i - 1) :: 32 word) = i - 1" using \<open>i < 512\<close> by (simp add: unat_of_nat)
  moreover have "(i + 511) mod 512 = i - 1" using False \<open>i < 512\<close> by (simp add: mod_if)
  ultimately show ?thesis using \<open>i < 512\<close> by (simp add: ring_prev_def unat_mod)
qed

lemma count_if: "head q < 512 \<Longrightarrow> tail q < 512 \<Longrightarrow> count q = (if head q \<le> tail q then tail q - head q else tail q + 512 - head q)"
  by (simp add: count_def mod_if)

lemma slot_if: "head q < 512 \<Longrightarrow> i < 512 \<Longrightarrow> slot q i = (if head q + i < 512 then head q + i else head q + i - 512)"
  by (simp add: slot_def mod_if)

lemma count_less: "count q < 512" by (simp add: count_def)
lemma slot_less [simp]: "slot q i < 512" by (simp add: slot_def)

lemma slot_inj: "head q < 512 \<Longrightarrow> i < 512 \<Longrightarrow> j < 512 \<Longrightarrow> slot q i = slot q j \<longleftrightarrow> i = j"
  by (auto simp: slot_if split: if_splits)

lemma ring_positions:
  assumes "queue_ok q"
  shows "head q = tail q \<longleftrightarrow> count q = 0" "tail q = head q \<longleftrightarrow> count q = 0" "tail q = slot q (count q)"
    "0 < count q \<Longrightarrow> ring_prev (tail q) = slot q (count q - 1)"
    "(tail q + 1) mod 512 = head q \<longleftrightarrow> count q = 511"
proof -
  have b: "head q < 512" "tail q < 512" using assms by (simp_all add: queue_ok_def)
  note c = count_if [OF b] and l = count_less [of q]
  show "head q = tail q \<longleftrightarrow> count q = 0" "tail q = head q \<longleftrightarrow> count q = 0" using c b by (auto split: if_splits)
  show "tail q = slot q (count q)" unfolding slot_if [OF b(1) l] using c b by (auto split: if_splits)
  show "(tail q + 1) mod 512 = head q \<longleftrightarrow> count q = 511" using c b by (auto simp: mod_if split: if_splits)
  assume "0 < count q"
  moreover have "count q - 1 < 512" using l by simp
  ultimately show "ring_prev (tail q) = slot q (count q - 1)"
    unfolding ring_prev [OF b(2)] slot_if [OF b(1) \<open>count q - 1 < 512\<close>] using c b by (auto simp: mod_if split: if_splits)
qed

lemma length_pending [simp]: "length (pending q) = count q" by (simp add: pending_def)

lemma pending_empty: "pending q = [] \<longleftrightarrow> count q = 0" by (simp add: pending_def)

lemma pending_nth: "i < count q \<Longrightarrow> pending q ! i = entry (events q ! slot q i)" by (simp add: pending_def)

lemma same_ring:
  "head q' = head q \<Longrightarrow> tail q' = tail q \<Longrightarrow> count q' = count q"
  "head q' = head q \<Longrightarrow> slot q' = slot q"
  by (simp_all add: count_def slot_def fun_eq_iff)

lemma update_slot:
  assumes "queue_ok q" "i < count q" "head q' = head q" "tail q' = tail q" "handlers q' = handlers q"
    "events q' = (events q)[slot q i := r]" "rec_ok r" "1 \<le> nevents r"
  shows "queue_ok q' \<and> pending q' = (pending q)[i := entry r]"
proof
  have ring: "count q' = count q" "slot q' = slot q" using same_ring assms(3,4) by metis+
  have h: "head q < 512" and len: "length (events q) = 512" using assms(1) by (simp_all add: queue_ok_def)
  have other: "slot q j = slot q i \<longleftrightarrow> j = i" if "j < count q" for j
    using slot_inj [OF h] that assms(2) count_less [of q] by (meson less_trans)
  show "queue_ok q'" using assms ring len by (auto simp: queue_ok_def nth_list_update)
  show "pending q' = (pending q)[i := entry r]"
  proof (rule nth_equalityI)
    fix j assume "j < length (pending q')"
    then have j: "j < count q" by (simp add: ring)
    show "pending q' ! j = (pending q)[i := entry r] ! j"
      using j other [OF j] assms(2,6) ring len by (cases "j = i") (simp_all add: pending_nth nth_list_update)
  qed (simp add: ring)
qed

lemma append_slot:
  assumes "queue_ok q" "count q \<noteq> 511" "head q' = head q" "tail q' = (tail q + 1) mod 512" "handlers q' = handlers q"
    "events q' = (events q)[tail q := r]" "rec_ok r" "1 \<le> nevents r"
  shows "queue_ok q' \<and> pending q' = pending q @ [entry r]"
proof
  have b: "head q < 512" "tail q < 512" and len: "length (events q) = 512" using assms(1) by (simp_all add: queue_ok_def)
  have b': "head q' < 512" "tail q' < 512" using b assms(3,4) by simp_all
  have s: "slot q' = slot q" using same_ring assms(3) by metis
  have c: "count q' = count q + 1"
    using count_if [OF b] count_if [OF b'] assms(2-4) b by (auto simp: mod_if split: if_splits)
  have t: "tail q = slot q (count q)" using ring_positions [OF assms(1)] by simp
  have other: "slot q j \<noteq> tail q" if "j < count q" for j
    using slot_inj [OF b(1), of j "count q"] that count_less [of q] t by simp
  show "queue_ok q'" using assms c s len b' t other by (auto simp: queue_ok_def nth_list_update less_Suc_eq)
  show "pending q' = pending q @ [entry r]"
  proof (rule nth_equalityI)
    fix i assume "i < length (pending q')"
    then have "i < count q \<or> i = count q" using c by auto
    then show "pending q' ! i = (pending q @ [entry r]) ! i"
    proof
      assume i: "i < count q"
      then show ?thesis using c s assms(6) other [OF i] b(2) len by (simp add: pending_nth nth_append nth_list_update)
    next
      assume "i = count q"
      then show ?thesis using c s assms(6) b(2) len t by (simp add: pending_nth nth_append)
    qed
  qed (simp add: c)
qed


section \<open>Enqueueing\<close>

text \<open>What the signal handler promises, on the list of pending entries, the time and the motion.\<close>

definition spec_enqueue ::
    "input_env \<Rightarrow> nat \<Rightarrow> nat option \<Rightarrow> xEvent \<Rightarrow> entry list \<times> CARD32 \<times> nat \<Rightarrow> entry list \<times> CARD32 \<times> nat" where
  "spec_enqueue env dev screen e v =
     (let (es, time, motion) = v;
          e' = forward_time time e;
          new = ([e'], screen, Some dev);
          m = is_motion env dev e
      in if ev_type e = DeviceValuator env then
           if es = [] then v
           else
             let (evs, s, d) = last es
             in if length evs \<le> 6 \<and> takes_valuators env (hd evs) \<and>
                   kbp_deviceid (hd evs) AND 0x7F = valuator_deviceid e AND 0x7F
                then (butlast es @ [(evs @ [e], s, d)], time, motion) else v
         else if es \<noteq> [] \<and> m \<noteq> 0 \<and> m = motion then (butlast es @ [new], ev_time e', m)
         else if length es = 511 then v
         else (es @ [new], ev_time e', m))"

definition view :: "EventQueue \<Rightarrow> entry list \<times> CARD32 \<times> nat" where
  "view q = (pending q, lastEventTime q, lastMotion q)"

lemma update_last: "xs \<noteq> [] \<Longrightarrow> xs[length xs - 1 := x] = butlast xs @ [x]"
  by (induction xs rule: rev_induct) auto

lemma put_event_rec:
  assumes "rec_ok r"
  shows "rec_ok (\<lparr>event = (event r)[0 := e], nevents = 1, pScreen = s, pDev = d\<rparr>)"
    "entry (\<lparr>event = (event r)[0 := e], nevents = 1, pScreen = s, pDev = d\<rparr>) = ([e], s, d)"
  using assms by (cases "event r"; simp add: rec_ok_def entry_def)+

lemma last_entry:
  assumes "queue_ok q" "count q \<noteq> 0"
  defines "r \<equiv> events q ! ring_prev (tail q)"
  shows "pending q \<noteq> []" "last (pending q) = entry r" "rec_ok r" "1 \<le> nevents r" "ring_prev (tail q) = slot q (count q - 1)"
proof -
  have p: "ring_prev (tail q) = slot q (count q - 1)" using ring_positions(4) [OF assms(1)] assms(2) by simp
  then show "ring_prev (tail q) = slot q (count q - 1)" .
  show ne: "pending q \<noteq> []" using assms(2) by (simp add: pending_empty)
  show "last (pending q) = entry r" using assms(2) p unfolding r_def by (simp add: last_conv_nth [OF ne] pending_nth)
  show "rec_ok r" "1 \<le> nevents r" using assms(1,2) p unfolding r_def queue_ok_def by simp_all
qed

lemma enqueue_valuator:
  assumes ok: "queue_ok q" and v: "ev_type e = DeviceValuator env"
  shows "queue_ok (mieqEnqueue env dev e q) \<and> view (mieqEnqueue env dev e q) = spec_enqueue env dev (pEnqueueScreen q) e (view q)"
proof (cases "count q = 0")
  case True
  then have "mieqEnqueue env dev e q = q" using v ring_positions(2) [OF ok] by (simp add: mieqEnqueue_def Let_def)
  then show ?thesis using ok True v by (simp add: spec_enqueue_def view_def pending_empty Let_def)
next
  case False
  let ?r = "events q ! ring_prev (tail q)"
  note l = last_entry [OF ok False]
  have hd: "hd (take (nevents ?r) (event ?r)) = event ?r ! 0" "length (take (nevents ?r) (event ?r)) = nevents ?r"
    using l(3,4) by (cases "event ?r"; auto simp: rec_ok_def)+
  have ne: "tail q \<noteq> head q" using False ring_positions(2) [OF ok] by simp
  show ?thesis
  proof (cases "nevents ?r \<le> 6 \<and> takes_valuators env (event ?r ! 0) \<and>
      kbp_deviceid (event ?r ! 0) AND 0x7F = valuator_deviceid e AND 0x7F")
    case True
    let ?r' = "?r\<lparr>event := (event ?r)[nevents ?r := e], nevents := nevents ?r + 1\<rparr>"
    let ?q = "q\<lparr>events := (events q)[ring_prev (tail q) := ?r']\<rparr>"
    have run: "mieqEnqueue env dev e q = ?q" using True v ne by (simp add: mieqEnqueue_def Let_def)
    have "queue_ok ?q \<and> pending ?q = (pending q)[count q - 1 := entry ?r']"
      by (rule update_slot [OF ok, where r = ?r']) (use False l(3,5) True in \<open>simp_all add: rec_ok_def\<close>)
    moreover have "entry ?r' = (take (nevents ?r) (event ?r) @ [e], pScreen ?r, pDev ?r)"
      using l(3) True by (simp add: entry_def rec_ok_def take_Suc_conv_app_nth)
    ultimately show ?thesis
      unfolding run using True v l(1,2) hd update_last [OF l(1)] by (simp add: spec_enqueue_def view_def entry_def)
  next
    case no: False
    then have "mieqEnqueue env dev e q = q" using v ne by (auto simp: mieqEnqueue_def Let_def)
    then show ?thesis using ok no v l(1,2) hd by (auto simp: spec_enqueue_def view_def entry_def Let_def)
  qed
qed

lemma enqueue_event:
  assumes ok: "queue_ok q" and v: "ev_type e \<noteq> DeviceValuator env"
  shows "queue_ok (mieqEnqueue env dev e q) \<and> view (mieqEnqueue env dev e q) = spec_enqueue env dev (pEnqueueScreen q) e (view q)"
proof -
  let ?m = "is_motion env dev e" and ?e = "forward_time (lastEventTime q) e"
  have put: "events (put_event i dev e ?m q') = (events q)[i := \<lparr>event = (event (events q ! i))[0 := ?e], nevents = 1,
        pScreen = pEnqueueScreen q, pDev = Some dev\<rparr>]" "lastEventTime (put_event i dev e ?m q') = ev_time ?e"
      "lastMotion (put_event i dev e ?m q') = ?m" "head (put_event i dev e ?m q') = head q'" "tail (put_event i dev e ?m q') = tail q'"
      "handlers (put_event i dev e ?m q') = handlers q'"
    if "events q' = events q" "lastEventTime q' = lastEventTime q" "pEnqueueScreen q' = pEnqueueScreen q" for i q'
    using that by (simp_all add: put_event_def Let_def)
  consider "count q \<noteq> 0" "?m \<noteq> 0" "?m = lastMotion q" | "count q = 511" "\<not> (?m \<noteq> 0 \<and> ?m = lastMotion q)"
    | "count q \<noteq> 511" "\<not> (count q \<noteq> 0 \<and> ?m \<noteq> 0 \<and> ?m = lastMotion q)" by fastforce
  then show ?thesis
  proof cases
    case 1
    note l = last_entry [OF ok 1(1)]
    have run: "mieqEnqueue env dev e q = put_event (ring_prev (tail q)) dev e ?m q"
      using 1 v ring_positions(2) [OF ok] by (simp add: mieqEnqueue_def Let_def)
    have "queue_ok (put_event (ring_prev (tail q)) dev e ?m q) \<and>
        pending (put_event (ring_prev (tail q)) dev e ?m q) = (pending q)[count q - 1 := ([?e], pEnqueueScreen q, Some dev)]"
      using update_slot [OF ok, where i = "count q - 1", OF _ put(4-6) [OF refl refl refl] put(1) [OF refl refl refl, folded l(5)]]
        put_event_rec [OF l(3)] 1(1) l(5) by simp
    then show ?thesis
      unfolding run using 1 v l(1) update_last [OF l(1)] put(2,3) [OF refl refl refl] by (simp add: spec_enqueue_def view_def Let_def)
  next
    case 2
    then have "mieqEnqueue env dev e q = q" using v ring_positions(5) [OF ok] by (auto simp: mieqEnqueue_def Let_def)
    then show ?thesis using ok 2 v by (auto simp: spec_enqueue_def view_def Let_def)
  next
    case 3
    let ?q = "q\<lparr>tail := (tail q + 1) mod 512\<rparr>"
    have run: "mieqEnqueue env dev e q = put_event (tail q) dev e ?m ?q"
      using 3 v ring_positions(2,5) [OF ok] by (auto simp: mieqEnqueue_def Let_def)
    have r: "rec_ok (events q ! tail q)" using ok by (simp add: queue_ok_def)
    have "queue_ok (put_event (tail q) dev e ?m ?q) \<and>
        pending (put_event (tail q) dev e ?m ?q) = pending q @ [([?e], pEnqueueScreen q, Some dev)]"
      using append_slot [OF ok 3(1), of "put_event (tail q) dev e ?m ?q", OF _ _ _ put(1)] put(4-6) [of ?q] put_event_rec [OF r] by simp
    then show ?thesis
      unfolding run using 3 v put(2,3) [of ?q] by (auto simp: spec_enqueue_def view_def Let_def pending_empty)
  qed
qed


lemma mieqEnqueue_view:
  "queue_ok q \<Longrightarrow> queue_ok (mieqEnqueue env dev e q) \<and> view (mieqEnqueue env dev e q) = spec_enqueue env dev (pEnqueueScreen q) e (view q)"
  using enqueue_valuator enqueue_event by blast

text \<open>C4. The ring of 512 slots behaves as a list of at most 511 pending entries: a new event becomes a new entry at the end,
  replaces the last one when both are motions of one device, is attached to it when it carries its valuators, and is dropped only
  when the list is full or a valuator event has no matching event to go to; no slot ever holds again than seven events.\<close>

theorem mieqEnqueue_refines:
  assumes "queue_ok q"
  shows "queue_ok (mieqEnqueue env dev e q) \<and>
    view (mieqEnqueue env dev e q) = spec_enqueue env dev (pEnqueueScreen q) e (view q) \<and>
    length (pending (mieqEnqueue env dev e q)) \<le> 511"
  using mieqEnqueue_view [OF assms] count_less [of "mieqEnqueue env dev e q"] by simp

definition ex_env :: input_env where
  "ex_env = \<lparr>DeviceValuator = 66, DeviceMotionNotify = 71, DeviceButtonPress = 69, DeviceButtonRelease = 70, ProximityIn = 74,
     ProximityOut = 75, core_pointer = 1, core_keyboard = 2, unsave = (\<lambda>p. p\<lparr>screenIsSaved := False\<rparr>),
     dpms_on = (\<lambda>p. p\<lparr>DPMSPowerLevel := 0\<rparr>)\<rparr>"

definition ex_event :: "nat \<Rightarrow> CARD32 \<Rightarrow> xEvent" where
  "ex_event t time = \<lparr>ev_type = t, ev_time = time, rootX = 3, rootY = 4, kbp_deviceid = 5, valuator_deviceid = 5, ev_rest = []\<rparr>"

text \<open>The queue before the server starts: static storage.\<close>

definition zero_event :: xEvent where
  "zero_event = \<lparr>ev_type = 0, ev_time = 0, rootX = 0, rootY = 0, kbp_deviceid = 0, valuator_deviceid = 0, ev_rest = []\<rparr>"

definition zero_queue :: EventQueue where
  "zero_queue = \<lparr>head = 0, tail = 0, lastEventTime = 0, lastMotion = 0,
     events = replicate QUEUE_SIZE \<lparr>event = replicate 7 zero_event, nevents = 0, pScreen = None, pDev = None\<rparr>,
     pEnqueueScreen = None, pDequeueScreen = None, handlers = replicate 128 None\<rparr>"

lemma mieqInit_ok: "length (events q) = 512 \<Longrightarrow> \<forall>i < 512. rec_ok (events q ! i) \<Longrightarrow>
    queue_ok (mieqInit now screen q) \<and> pending (mieqInit now screen q) = []"
  by (simp add: queue_ok_def mieqInit_def count_def pending_def)

lemma zero_queue_ok: "queue_ok (mieqInit now screen zero_queue)"
  using mieqInit_ok [of zero_queue] by (simp add: zero_queue_def rec_ok_def)

lemma mieqEnqueue_refines_witness:
  "queue_ok (mieqInit 100 (Some 0) zero_queue) \<and>
   view (mieqEnqueue ex_env 5 (ex_event 2 90) (mieqInit 100 (Some 0) zero_queue)) =
     ([([ex_event 2 100], Some 0, Some 5)], 100, 0)"
proof -
  have v: "view (mieqInit 100 (Some 0) zero_queue) = ([], 100, 0)" "pEnqueueScreen (mieqInit 100 (Some 0) zero_queue) = Some 0"
    by (simp_all add: view_def mieqInit_def pending_def count_def)
  have "spec_enqueue ex_env 5 (Some 0) (ex_event 2 90) ([], 100, 0) = ([([ex_event 2 100], Some 0, Some 5)], 100, 0)"
    by (simp add: spec_enqueue_def ex_env_def ex_event_def is_motion_def forward_time_def)
  then show ?thesis
    using mieqEnqueue_refines [OF zero_queue_ok, of ex_env 5 "ex_event 2 90" 100 "Some 0"] v zero_queue_ok by simp
qed

text \<open>The slot just taken out of the queue is the free one: its event may still be in use.\<close>

text \<open>C28. While an event is being handled, an arriving event never overwrites it: the slot before the head stays as it is, even when
  the queue is full or empty.\<close>

theorem dispatched_slot_is_kept:
  assumes "queue_ok q"
  shows "events (mieqEnqueue env dev e q) ! ring_prev (head q) = events q ! ring_prev (head q)"
proof -
  have h: "head q < 512" using assms by (simp add: queue_ok_def)
  have free: "ring_prev (head q) = slot q 511" using ring_prev [OF h] by (simp add: slot_def)
  have other: "slot q i \<noteq> ring_prev (head q)" if "i < 511" for i
    using slot_inj [OF h, of i 511] that free by simp
  have tail: "tail q \<noteq> ring_prev (head q)" if "(tail q + 1) mod 512 \<noteq> head q"
    using other [of "count q"] ring_positions(3,5) [OF assms] that count_less [of q] by force
  have prev: "ring_prev (tail q) \<noteq> ring_prev (head q)" if "tail q \<noteq> head q"
    using other [of "count q - 1"] ring_positions(2,4) [OF assms] that count_less [of q] by force
  show ?thesis using tail prev by (auto simp: mieqEnqueue_def put_event_def Let_def)
qed

lemma dispatched_slot_is_kept_witness:
  "events (mieqEnqueue ex_env 5 (ex_event 2 90) (mieqInit 100 (Some 0) zero_queue)) ! 511 = events zero_queue ! 511"
proof -
  have "ring_prev (head (mieqInit 100 (Some 0) zero_queue)) = 511" using ring_prev [of 0] by (simp add: mieqInit_def)
  moreover have "events (mieqInit 100 (Some 0) zero_queue) = events zero_queue" by (simp add: mieqInit_def)
  ultimately show ?thesis
    using dispatched_slot_is_kept [OF zero_queue_ok, of ex_env 5 "ex_event 2 90" 100 "Some 0"] by simp
qed

section \<open>Processing\<close>

text \<open>What becomes of the entries at the front of the list, and what is left.\<close>

fun deliver :: "input_env \<Rightarrow> nat option list \<Rightarrow> nat option \<Rightarrow> nat option \<Rightarrow> entry list \<Rightarrow> input_output list \<times> entry list" where
  "deliver env hs dev screen [] = ([], [])"
| "deliver env hs dev screen ((evs, s, d) # es) =
     (let t = ev_type (hd evs); go = (\<lambda>out dev' screen'. let r = deliver env hs dev' screen' es in (out @ fst r, snd r))
      in if s \<noteq> screen then go [NewCurrentScreen s (rootX (hd evs)) (rootY (hd evs))] dev s
         else case hs ! t of
                Some h \<Rightarrow> ([CustomHandler h screen evs dev], es)
              | None \<Rightarrow>
                  if t = KeyPress \<or> t = KeyRelease then
                    go [SwitchCoreKeyboard d, ProcessInput evs (Some (core_keyboard env))] (Some (core_keyboard env)) screen
                  else if t = MotionNotify \<or> t = ButtonPress \<or> t = ButtonRelease then
                    go [SwitchCorePointer d, ProcessInput evs (Some (core_pointer env))] (Some (core_pointer env)) screen
                  else go [ProcessInput evs d] d screen)"

definition is_delivery :: "input_output \<Rightarrow> bool" where
  "is_delivery out \<longleftrightarrow> out \<noteq> SaveScreens \<and> out \<noteq> SetScreenSaverTimer \<and> out \<noteq> DPMSSet"

lemma wake_screens_silent: "wake_screens env p = (p', out) \<Longrightarrow> filter is_delivery out = []"
  by (auto simp: wake_screens_def is_delivery_def Let_def split: if_splits)

lemma pop_slot:
  assumes "queue_ok q" "0 < count q" "head q' = (head q + 1) mod 512" "tail q' = tail q" "handlers q' = handlers q" "events q' = events q"
  shows "queue_ok q' \<and> pending q' = tl (pending q) \<and> count q' = count q - 1"
proof -
  have b: "head q < 512" "tail q < 512" using assms(1) by (simp_all add: queue_ok_def)
  have b': "head q' < 512" "tail q' < 512" using b assms(3,4) by simp_all
  have c: "count q' = count q - 1"
    using count_if [OF b] count_if [OF b'] assms(2-4) b by (auto simp: mod_if split: if_splits)
  have s: "slot q' i = slot q (Suc i)" for i
    unfolding slot_def assms(3) by (simp add: mod_add_left_eq)
  have "pending q' = tl (pending q)"
    by (rule nth_equalityI) (use c s assms(6) in \<open>simp_all add: pending_nth nth_tl\<close>)
  moreover have "queue_ok q'" using assms c s b' by (auto simp: queue_ok_def)
  ultimately show ?thesis using c by simp
qed

lemma dispatch_first:
  assumes "queue_ok q" "0 < count q" "pending q = (evs, s, d) # es"
  shows "take (nevents (events q ! head q)) (event (events q ! head q)) = evs" "pScreen (events q ! head q) = s"
    "pDev (events q ! head q) = d" "event (events q ! head q) ! 0 = hd evs"
proof -
  have h: "slot q 0 = head q" using assms(1) by (simp add: slot_def queue_ok_def)
  have e: "entry (events q ! head q) = (evs, s, d)" using pending_nth [OF assms(2)] assms(3) h by simp
  then show evs: "take (nevents (events q ! head q)) (event (events q ! head q)) = evs" "pScreen (events q ! head q) = s"
    "pDev (events q ! head q) = d" by (simp_all add: entry_def)
  have "1 \<le> nevents (events q ! head q)" "length (event (events q ! head q)) = 7"
    using assms(1,2) h by (auto simp: queue_ok_def rec_ok_def)
  then show "event (events q ! head q) ! 0 = hd evs"
    unfolding evs(1) [symmetric] by (cases "event (events q ! head q)") auto
qed


lemma dispatch_event_output:
  fixes evs :: "xEvent list" and q :: EventQueue
  assumes ok: "queue_ok q" and n: "0 < count q" and p: "pending q = (evs, s, d) # es"
    and run: "dispatch_event env dev q = (again, dev', q', out)"
  shows "filter is_delivery out = out \<and>
    deliver env (handlers q) dev (pDequeueScreen q) ((evs, s, d) # es) =
      (if again then let r = deliver env (handlers q) dev' (pDequeueScreen q') es in (out @ fst r, snd r) else (out, es))"
proof -
  let ?t = "ev_type (hd evs)"
  note run' = run [unfolded dispatch_event_def Let_def dispatch_first [OF ok n p]]
  show ?thesis
  proof (cases "s = pDequeueScreen q")
    case False
    then have "again" "dev' = dev" "pDequeueScreen q' = s" "out = [NewCurrentScreen s (rootX (hd evs)) (rootY (hd evs))]"
      using run' by auto
    then show ?thesis using False by (simp add: is_delivery_def Let_def)
  next
    case screen: True
    show ?thesis
    proof (cases "handlers q ! ?t")
      case (Some h)
      then have "\<not> again" "out = [CustomHandler h s evs dev]" using run' screen by auto
      then show ?thesis using screen Some by (simp add: is_delivery_def Let_def)
    next
      case None
      have keep: "pDequeueScreen q' = s" using run' screen None by (auto split: if_splits)
      consider "?t = KeyPress \<or> ?t = KeyRelease" | "\<not> (?t = KeyPress \<or> ?t = KeyRelease)" "?t = MotionNotify \<or> ?t = ButtonPress \<or> ?t = ButtonRelease"
        | "\<not> (?t = KeyPress \<or> ?t = KeyRelease)" "\<not> (?t = MotionNotify \<or> ?t = ButtonPress \<or> ?t = ButtonRelease)" by blast
      then show ?thesis
      proof cases
        case 1
        then have "again" "dev' = Some (core_keyboard env)" "out = [SwitchCoreKeyboard d, ProcessInput evs (Some (core_keyboard env))]"
          using run' screen None by auto
        then show ?thesis using 1 screen None keep by (simp add: is_delivery_def Let_def)
      next
        case 2
        then have "again" "dev' = Some (core_pointer env)" "out = [SwitchCorePointer d, ProcessInput evs (Some (core_pointer env))]"
          using run' screen None by auto
        then show ?thesis using 2 screen None keep by (simp add: is_delivery_def Let_def)
      next
        case 3
        then have "again" "dev' = d" "out = [ProcessInput evs d]" using run' screen None by auto
        then show ?thesis using 3 screen None keep by (simp add: is_delivery_def Let_def)
      qed
    qed
  qed
qed

text \<open>One turn of the loop consumes the first entry as \<open>deliver\<close> says.\<close>

lemma dispatch_event_correct:
  assumes ok: "queue_ok q" and n: "0 < count q" and run: "dispatch_event env dev q = (again, dev', q', out)"
  shows "queue_ok q' \<and> handlers q' = handlers q \<and> count q' = count q - 1 \<and> pending q' = tl (pending q) \<and> filter is_delivery out = out \<and>
    deliver env (handlers q) dev (pDequeueScreen q) (pending q) =
      (if again then let r = deliver env (handlers q') dev' (pDequeueScreen q') (pending q') in (out @ fst r, snd r)
       else (out, pending q'))"
proof -
  have "pending q \<noteq> []" using n by (simp add: pending_empty)
  then obtain evs s d es where p: "pending q = (evs, s, d) # es" by (metis list.exhaust prod_cases3)
  have q': "head q' = (head q + 1) mod 512" "tail q' = tail q" "handlers q' = handlers q" "events q' = events q"
    using run by (auto simp: dispatch_event_def Let_def split: if_splits option.splits)
  note pop = pop_slot [OF ok n q']
  have es: "pending q' = es" using pop p by simp
  show ?thesis using dispatch_event_output [OF ok n p run] pop q'(3) unfolding p es by simp
qed

lemma process_loop_correct:
  "queue_ok q \<Longrightarrow> \<exists>q' p' out'. process_loop env dev q p out = Some (q', p', out @ out') \<and> queue_ok q' \<and>
     (filter is_delivery out', pending q') = deliver env (handlers q) dev (pDequeueScreen q) (pending q)"
proof (induction "count q" arbitrary: dev q p out rule: less_induct)
  case less
  show ?case
  proof (cases "count q = 0")
    case True
    then have "head q = tail q" "pending q = []" using ring_positions(1) [OF less.prems] by (simp_all add: pending_empty)
    then show ?thesis using less.prems by (subst process_loop.simps) simp
  next
    case False
    then have ne: "head q \<noteq> tail q" and n: "0 < count q" using ring_positions(1) [OF less.prems] by simp_all
    obtain p1 out1 where wake: "wake_screens env p = (p1, out1)" by fastforce
    obtain again dev' q1 out2 where disp: "dispatch_event env dev q = (again, dev', q1, out2)" by (metis prod_cases4)
    note d = dispatch_event_correct [OF less.prems n disp]
    note silent = wake_screens_silent [OF wake]
    have step: "process_loop env dev q p out =
        (if again then process_loop env dev' q1 p1 (out @ out1 @ out2) else Some (q1, p1, out @ out1 @ out2))"
      by (subst process_loop.simps) (simp add: ne wake disp)
    show ?thesis
    proof (cases again)
      case True
      have "count q1 < count q" using d n by simp
      from less.hyps [OF this, of dev' p1 "out @ out1 @ out2"] d obtain q' p' out' where
        "process_loop env dev' q1 p1 (out @ out1 @ out2) = Some (q', p', (out @ out1 @ out2) @ out')" "queue_ok q'"
        "(filter is_delivery out', pending q') = deliver env (handlers q1) dev' (pDequeueScreen q1) (pending q1)" by blast
      moreover have "deliver env (handlers q) dev (pDequeueScreen q) (pending q) = (out2 @ filter is_delivery out', pending q')"
        using d True calculation(3) [symmetric] by (simp add: Let_def)
      ultimately show ?thesis using step True silent d
        by (intro exI [of _ q'] exI [of _ p'] exI [of _ "out1 @ out2 @ out'"]) simp
    next
      case stop: False
      then show ?thesis using step silent d
        by (intro exI [of _ q1] exI [of _ p1] exI [of _ "out1 @ out2"]) simp
    qed
  qed
qed

text \<open>Without custom handlers and without a change of screen, every entry reaches a device procedure, in order.\<close>

fun processed :: "input_output \<Rightarrow> xEvent list option" where
  "processed (ProcessInput evs dev) = Some evs"
| "processed out = None"

lemma deliver_all:
  "\<forall>(evs, s, d) \<in> set es. s = screen \<and> hs ! ev_type (hd evs) = None \<Longrightarrow>
     snd (deliver env hs dev screen es) = [] \<and> List.map_filter processed (fst (deliver env hs dev screen es)) = map fst es"
  by (induction env hs dev screen es rule: deliver.induct)
    (auto simp: Let_def map_filter_simps map_filter_def)

lemma map_filter_processed: "List.map_filter processed (filter is_delivery out) = List.map_filter processed out"
  by (induction out) (auto simp: map_filter_simps is_delivery_def split: option.splits)


text \<open>C40. A custom handler gets its event and ends the round: the events behind it stay in the queue, however many there are. And
  the handler never learns the device of the first event of a round: it is called with NULL.\<close>

theorem custom_handler_ends_the_round:
  assumes "queue_ok q" "pending q = (evs, s, d) # es" "s = pDequeueScreen q" "handlers q ! ev_type (hd evs) = Some h"
  shows "\<exists>q' p' out. mieqProcessInputEvents env q p = Some (q', p', out) \<and> pending q' = es \<and>
    filter is_delivery out = [CustomHandler h s evs None]"
proof -
  obtain q' p' out where run: "mieqProcessInputEvents env q p = Some (q', p', out)"
    and d: "(filter is_delivery out, pending q') = deliver env (handlers q) None (pDequeueScreen q) (pending q)"
    using process_loop_correct [OF assms(1), of env None p "[]"] by (auto simp: mieqProcessInputEvents_def)
  have "deliver env (handlers q) None (pDequeueScreen q) (pending q) = ([CustomHandler h s evs None], es)"
    using assms(2-4) by (simp add: Let_def)
  then show ?thesis using run d by simp
qed


lemma ex_queue:
  fixes n :: nat
  defines "q \<equiv> mieqEnqueue ex_env 5 (ex_event 69 120) (mieqEnqueue ex_env 6 (ex_event 2 110) (mieqInit 100 (Some 0) zero_queue))"
  shows "queue_ok q" "pending q = [([ex_event 2 110], Some 0, Some 6), ([ex_event 69 120], Some 0, Some 5)]"
    "pDequeueScreen q = Some 0" "handlers q = replicate 128 None"
proof -
  let ?q0 = "mieqInit 100 (Some 0) zero_queue"
  let ?q1 = "mieqEnqueue ex_env 6 (ex_event 2 110) ?q0"
  have v: "view ?q0 = ([], 100, 0)" "pEnqueueScreen ?q0 = Some 0" "pDequeueScreen ?q0 = Some 0" "handlers ?q0 = replicate 128 None"
    by (simp_all add: view_def mieqInit_def pending_def count_def)
  have other: "pEnqueueScreen (mieqEnqueue env dev e q') = pEnqueueScreen q'" "pDequeueScreen (mieqEnqueue env dev e q') = pDequeueScreen q'"
    "handlers (mieqEnqueue env dev e q') = handlers q'" for env dev e q'
    by (simp_all add: mieqEnqueue_def put_event_def Let_def)
  note one = mieqEnqueue_view [OF zero_queue_ok, of ex_env 6 "ex_event 2 110" 100 "Some 0", unfolded v]
  note two = mieqEnqueue_view [OF conjunct1 [OF one], of ex_env 5 "ex_event 69 120", unfolded conjunct2 [OF one] other v]
  have "view q = ([([ex_event 2 110], Some 0, Some 6), ([ex_event 69 120], Some 0, Some 5)], 120, 0)"
    unfolding q_def conjunct2 [OF two]
    by (simp add: spec_enqueue_def ex_env_def ex_event_def is_motion_def forward_time_def)
  then show "pending q = [([ex_event 2 110], Some 0, Some 6), ([ex_event 69 120], Some 0, Some 5)]" by (simp add: view_def)
  show "queue_ok q" using two unfolding q_def by simp
  show "pDequeueScreen q = Some 0" "handlers q = replicate 128 None" unfolding q_def other v by simp_all
qed


lemma custom_handler_ends_the_round_witness:
  "\<exists>q' p' out. mieqProcessInputEvents ex_env (mieqSetHandler 2 (Some 77)
       (mieqEnqueue ex_env 5 (ex_event 69 120) (mieqEnqueue ex_env 6 (ex_event 2 110) (mieqInit 100 (Some 0) zero_queue))))
       \<lparr>screenIsSaved = False, DPMSPowerLevel = 0\<rparr> = Some (q', p', out) \<and>
     pending q' = [([ex_event 69 120], Some 0, Some 5)] \<and> filter is_delivery out = [CustomHandler 77 (Some 0) [ex_event 2 110] None]"
proof -
  let ?q = "mieqEnqueue ex_env 5 (ex_event 69 120) (mieqEnqueue ex_env 6 (ex_event 2 110) (mieqInit 100 (Some 0) zero_queue))"
  have ok: "queue_ok (mieqSetHandler 2 (Some 77) ?q)"
    using ex_queue(1) by (simp add: mieqSetHandler_def queue_ok_def slot_def count_def)
  have t: "ev_type (ex_event 2 110) = 2" by (simp add: ex_event_def)
  have p: "pending (mieqSetHandler 2 (Some 77) ?q) = pending ?q"
    by (simp add: mieqSetHandler_def pending_def slot_def count_def)
  show ?thesis
    by (rule custom_handler_ends_the_round [OF ok, unfolded p, OF ex_queue(2)])
      (simp_all add: mieqSetHandler_def ex_queue(3,4) t)
qed

section \<open>The signal handler and the main loop together\<close>

text \<open>Events arrive between the turns of the loop; drivers switch screens and set handlers.\<close>

inductive queue_step :: "input_env \<Rightarrow> EventQueue \<Rightarrow> EventQueue \<Rightarrow> bool" for env where
  arrival: "queue_step env q (mieqEnqueue env dev e q)"
| switch: "queue_step env q (mieqSwitchScreen screen fromDIX q)"
| handler: "ev < 128 \<Longrightarrow> queue_step env q (mieqSetHandler ev h q)"
| turn: "head q \<noteq> tail q \<Longrightarrow> dispatch_event env dev q = (again, dev', q', out) \<Longrightarrow> queue_step env q q'"

lemma same_queue_ok:
  assumes "queue_ok q" "head q' = head q" "tail q' = tail q" "events q' = events q" "length (handlers q') = 128"
  shows "queue_ok q'"
  using assms same_ring [of q' q] by (simp add: queue_ok_def)

lemma queue_step_ok: "queue_step env q q' \<Longrightarrow> queue_ok q \<Longrightarrow> queue_ok q'"
proof (induction rule: queue_step.induct)
  case (arrival q dev e)
  then show ?case using mieqEnqueue_view by blast
next
  case (switch q screen fromDIX)
  then show ?case by (rule same_queue_ok) (use switch in \<open>simp_all add: mieqSwitchScreen_def Let_def queue_ok_def\<close>)
next
  case (handler ev q h)
  then show ?case using same_queue_ok [of q "mieqSetHandler ev h q"] by (simp add: mieqSetHandler_def queue_ok_def)
next
  case (turn q dev again dev' q' out)
  then show ?case using dispatch_event_correct [of q env dev again dev' q' out] ring_positions(1) by blast
qed

interpretation event_queue: stable_invariant "queue_step env" queue_ok for env
  by unfold_locales (rule queue_step_ok)



end
