(* ===== verification/Selections.thy ===== *)
theory Selections
  imports Window_Properties
begin

text \<open>
  Selections (\<^verbatim>\<open>dix/selection.c\<close>): the list of selections of the server, each with its owner and the time at
  which it was taken; the three requests; and what happens when a window or a client goes.

  \<^item> A window pointer is the identifier of the window, a client its index; \<open>None\<close> is NULL.
  \<^item> Events, replies and callbacks are outputs; \<open>live\<close> says which clients are still connected.
  \<^item> The private data of a selection is not modelled.
\<close>

section \<open>State\<close>

record Selection =
  selection :: nat
  lastTimeChanged :: TimeStamp
  sel_window :: XID
  sel_pWin :: "XID option"
  sel_client :: "nat option"

datatype SelectionCallbackKind = SelectionSetOwner | SelectionWindowDestroy | SelectionClientClose

datatype sel_output =
    SelectionClear nat CARD32 XID nat
  | SelectionRequest nat XID CARD32 XID nat nat nat
  | SelectionNotify nat CARD32 XID nat nat nat
  | SelectionOwnerReply XID
  | SelectionCallback nat "nat option" SelectionCallbackKind

record sel_server =
  CurrentSelections :: "Selection list"
  sel_time :: TimeStamp
  sel_atoms :: AtomState
  sel_outputs :: "sel_output list"

definition sel_out :: "sel_output list \<Rightarrow> sel_server \<Rightarrow> sel_server" where
  "sel_out out s = s\<lparr>sel_outputs := sel_outputs s @ out\<rparr>"

text \<open>The access check of the build; it neither refuses nor changes the selection found.\<close>

definition XaceHookSelectionAccess :: "nat \<Rightarrow> Mask \<Rightarrow> status" where
  "XaceHookSelectionAccess client access_mode = Success"

text \<open>An event that cannot be filtered, sent without a grab: to a client that is connected and not the server.\<close>

definition TryClientEvents :: "(nat \<Rightarrow> bool) \<Rightarrow> nat option \<Rightarrow> (nat \<Rightarrow> sel_output) \<Rightarrow> sel_output list" where
  "TryClientEvents live client ev =
     (case client of
        None \<Rightarrow> []
      | Some c \<Rightarrow> if c = 0 \<or> \<not> live c then [] else [ev c])"

section \<open>Operations\<close>

definition find_selection :: "nat \<Rightarrow> Selection list \<Rightarrow> Selection option" where
  "find_selection name sels = List.find (\<lambda>p. selection p = name) sels"

fun update_selection :: "nat \<Rightarrow> (Selection \<Rightarrow> Selection) \<Rightarrow> Selection list \<Rightarrow> Selection list" where
  "update_selection name f [] = []"
| "update_selection name f (p # sels) = (if selection p = name then f p # sels else p # update_selection name f sels)"

definition dixLookupSelection ::
    "nat \<Rightarrow> nat \<Rightarrow> PropClient \<Rightarrow> Mask \<Rightarrow> Selection list \<Rightarrow> status \<times> Selection option \<times> PropClient" where
  "dixLookupSelection name me client access_mode sels =
     (let pSel = find_selection name sels
      in (if pSel \<noteq> None then XaceHookSelectionAccess me access_mode else BadMatch, pSel, client\<lparr>errorValue := name\<rparr>))"

definition InitSelections :: "sel_server \<Rightarrow> sel_server" where
  "InitSelections s = s\<lparr>CurrentSelections := []\<rparr>"

definition disown :: "Selection \<Rightarrow> Selection" where
  "disown p = p\<lparr>sel_pWin := None, sel_window := 0, sel_client := None\<rparr>"

definition DeleteWindowFromAnySelections :: "XID \<Rightarrow> sel_server \<Rightarrow> sel_server" where
  "DeleteWindowFromAnySelections w s =
     sel_out (map (\<lambda>p. SelectionCallback (selection p) None SelectionWindowDestroy)
               (filter (\<lambda>p. sel_pWin p = Some w) (CurrentSelections s)))
       (s\<lparr>CurrentSelections := map (\<lambda>p. if sel_pWin p = Some w then disown p else p) (CurrentSelections s)\<rparr>)"

definition DeleteClientFromAnySelections :: "nat \<Rightarrow> sel_server \<Rightarrow> sel_server" where
  "DeleteClientFromAnySelections c s =
     sel_out (map (\<lambda>p. SelectionCallback (selection p) None SelectionClientClose)
               (filter (\<lambda>p. sel_client p = Some c) (CurrentSelections s)))
       (s\<lparr>CurrentSelections := map (\<lambda>p. if sel_client p = Some c then disown p else p) (CurrentSelections s)\<rparr>)"

record xSetSelectionOwnerReq =
  so_window :: XID
  so_selection :: nat
  so_time :: CARD32

definition take_ownership :: "TimeStamp \<Rightarrow> XID \<Rightarrow> XID option \<Rightarrow> nat \<Rightarrow> Selection \<Rightarrow> Selection" where
  "take_ownership time window pWin me p =
     p\<lparr>lastTimeChanged := time, sel_window := window, sel_pWin := pWin,
       sel_client := (if pWin \<noteq> None then Some me else None)\<rparr>"

definition ProcSetSelectionOwner ::
    "lookup \<Rightarrow> (TimeStamp \<Rightarrow> TimeStamp) \<Rightarrow> (nat \<Rightarrow> bool) \<Rightarrow> alloc \<Rightarrow> nat \<Rightarrow> PropClient \<Rightarrow> xSetSelectionOwnerReq \<Rightarrow> sel_server
      \<Rightarrow> status \<times> PropClient \<times> sel_server" where
  "ProcSetSelectionOwner lookup update_time live ok me client stuff s0 =
     (if \<not> REQUEST_SIZE_MATCH 16 (req_len client) then (BadLength, client, s0)
      else
        let s = s0\<lparr>sel_time := update_time (sel_time s0)\<rparr>;
            time = ClientTimeToServerTime (sel_time s) (so_time stuff)
        in if CompareTimeStamps time (sel_time s) = LATER then (Success, client, s)
           else
             let pWin = (if so_window stuff \<noteq> 0 then Some (so_window stuff) else None);
                 rc = (if so_window stuff \<noteq> 0 then lookup (so_window stuff) DixSetAttrAccess else Success);
                 client1 = (if so_window stuff \<noteq> 0 then looked_up (so_window stuff) client else client);
                 callback = SelectionCallback (so_selection stuff) (Some me) SelectionSetOwner
             in if rc \<noteq> Success then (rc, client1, s)
                else if \<not> ValidAtom (sel_atoms s) (so_selection stuff)
                then (BadAtom, client1\<lparr>errorValue := so_selection stuff\<rparr>, s)
                else
                  (case dixLookupSelection (so_selection stuff) me client1 DixSetAttrAccess (CurrentSelections s) of
                     (Success, Some pSel, client2) \<Rightarrow>
                       if CompareTimeStamps time (lastTimeChanged pSel) = EARLIER then (Success, client2, s)
                       else
                         let clear = (if sel_client pSel \<noteq> None \<and> (pWin = None \<or> sel_client pSel \<noteq> Some me)
                               then TryClientEvents live (sel_client pSel)
                                      (\<lambda>c. SelectionClear c (milliseconds time) (sel_window pSel) (selection pSel))
                               else [])
                         in (noClientException client2, client2,
                             sel_out (clear @ [callback]) (s\<lparr>CurrentSelections :=
                               update_selection (so_selection stuff) (take_ownership time (so_window stuff) pWin me)
                                 (CurrentSelections s)\<rparr>))
                   | (BadMatch, _, client2) \<Rightarrow>
                       if \<not> ok 0 then (BadAlloc, client2, s)
                       else
                         let rc = XaceHookSelectionAccess me (DixCreateAccess OR DixSetAttrAccess)
                         in if rc \<noteq> Success then (rc, client2, s)
                            else (noClientException client2, client2,
                                  sel_out [callback] (s\<lparr>CurrentSelections :=
                                    \<lparr>selection = so_selection stuff, lastTimeChanged = time, sel_window = so_window stuff, sel_pWin = pWin,
                                     sel_client = (if pWin \<noteq> None then Some me else None)\<rparr> # CurrentSelections s\<rparr>))
                   | (rc, _, client2) \<Rightarrow> (rc, client2, s)))"

definition ProcGetSelectionOwner :: "nat \<Rightarrow> PropClient \<Rightarrow> nat \<Rightarrow> sel_server \<Rightarrow> status \<times> PropClient \<times> sel_server" where
  "ProcGetSelectionOwner me client name s =
     (if \<not> REQUEST_SIZE_MATCH 8 (req_len client) then (BadLength, client, s)
      else if \<not> ValidAtom (sel_atoms s) name then (BadAtom, client\<lparr>errorValue := name\<rparr>, s)
      else
        (case dixLookupSelection name me client DixGetAttrAccess (CurrentSelections s) of
           (Success, Some pSel, client) \<Rightarrow> (noClientException client, client, sel_out [SelectionOwnerReply (sel_window pSel)] s)
         | (BadMatch, _, client) \<Rightarrow> (noClientException client, client, sel_out [SelectionOwnerReply 0] s)
         | (rc, _, client) \<Rightarrow> (rc, client, s)))"

record xConvertSelectionReq =
  cs_requestor :: XID
  cs_selection :: nat
  cs_target :: nat
  cs_property :: nat
  cs_time :: CARD32

definition ProcConvertSelection ::
    "lookup \<Rightarrow> (nat \<Rightarrow> bool) \<Rightarrow> nat \<Rightarrow> PropClient \<Rightarrow> xConvertSelectionReq \<Rightarrow> sel_server \<Rightarrow> status \<times> PropClient \<times> sel_server" where
  "ProcConvertSelection lookup live me client stuff s =
     (if \<not> REQUEST_SIZE_MATCH 24 (req_len client) then (BadLength, client, s)
      else
        let rc = lookup (cs_requestor stuff) DixSetAttrAccess; client1 = looked_up (cs_requestor stuff) client;
            paramsOkay = (ValidAtom (sel_atoms s) (cs_selection stuff) \<and> ValidAtom (sel_atoms s) (cs_target stuff) \<and>
              (cs_property stuff = 0 \<or> ValidAtom (sel_atoms s) (cs_property stuff)))
        in if rc \<noteq> Success then (rc, client1, s)
           else if \<not> paramsOkay then (BadAtom, client1\<lparr>errorValue := cs_property stuff\<rparr>, s)
           else
             (case dixLookupSelection (cs_selection stuff) me client1 DixReadAccess (CurrentSelections s) of
                (rc, found, client2) \<Rightarrow>
                  let request = (case found of
                        Some pSel \<Rightarrow>
                          if rc = Success \<and> sel_window pSel \<noteq> 0 then
                            TryClientEvents live (sel_client pSel)
                              (\<lambda>c. SelectionRequest c (sel_window pSel) (cs_time stuff) (cs_requestor stuff) (cs_selection stuff)
                                 (cs_target stuff) (cs_property stuff))
                          else []
                      | None \<Rightarrow> []);
                      refuse = TryClientEvents live (Some me)
                        (\<lambda>c. SelectionNotify c (cs_time stuff) (cs_requestor stuff) (cs_selection stuff) (cs_target stuff) 0)
                  in if rc \<noteq> Success \<and> rc \<noteq> BadMatch then (rc, client2, s)
                     else if request \<noteq> [] then (noClientException client2, client2, sel_out request s)
                     else (noClientException client2, client2, sel_out refuse s)))"


section \<open>The list as a map\<close>

definition owner_of :: "sel_server \<Rightarrow> nat \<Rightarrow> (XID \<times> nat option \<times> TimeStamp) option" where
  "owner_of s name = map_option (\<lambda>p. (sel_window p, sel_client p, lastTimeChanged p)) (find_selection name (CurrentSelections s))"

lemma sel_out_simps [simp]:
  "CurrentSelections (sel_out out s) = CurrentSelections s" "sel_time (sel_out out s) = sel_time s"
  "sel_atoms (sel_out out s) = sel_atoms s" "sel_outputs (sel_out out s) = sel_outputs s @ out"
  "owner_of (sel_out out s) = owner_of s"
  by (simp_all add: sel_out_def owner_of_def fun_eq_iff)

lemma owner_of_time [simp]: "owner_of (s\<lparr>sel_time := t\<rparr>) = owner_of s"
  by (simp add: owner_of_def fun_eq_iff)

lemma find_selection_simps [simp]:
  "find_selection name [] = None"
  "find_selection name (p # sels) = (if selection p = name then Some p else find_selection name sels)"
  by (simp_all add: find_selection_def)

lemma find_selection_name: "find_selection name sels = Some p \<Longrightarrow> selection p = name \<and> p \<in> set sels"
  by (induction sels) (auto split: if_splits)

lemma find_update:
  "(\<And>p. selection (f p) = selection p) \<Longrightarrow>
     find_selection n (update_selection name f sels) = (if n = name then map_option f (find_selection name sels) else find_selection n sels)"
  by (induction sels) auto

lemma find_map:
  "(\<And>p. selection (f p) = selection p) \<Longrightarrow> find_selection n (map f sels) = map_option f (find_selection n sels)"
  by (induction sels) auto

lemma take_ownership_name [simp]: "selection (take_ownership t w pw me p) = selection p"
  by (simp add: take_ownership_def)

lemma owner_of_taken:
  assumes "find_selection name (CurrentSelections s) \<noteq> None"
  shows "owner_of (s\<lparr>CurrentSelections := update_selection name (take_ownership t w pw me) (CurrentSelections s)\<rparr>) =
    (owner_of s)(name \<mapsto> (w, if pw \<noteq> None then Some me else None, t))"
  using assms by (auto simp: owner_of_def fun_eq_iff find_update take_ownership_def)

lemma owner_of_new:
  "owner_of (s\<lparr>CurrentSelections := p # CurrentSelections s\<rparr>) = (owner_of s)(selection p \<mapsto> (sel_window p, sel_client p, lastTimeChanged p))"
  by (auto simp: owner_of_def fun_eq_iff)

section \<open>Taking a selection\<close>

text \<open>The events that announce a change of owner.\<close>

definition clear_events :: "(nat \<Rightarrow> bool) \<Rightarrow> nat \<Rightarrow> nat \<Rightarrow> XID \<Rightarrow> CARD32 \<Rightarrow> (XID \<times> nat option \<times> TimeStamp) option \<Rightarrow> sel_output list" where
  "clear_events live me name window ms old =
     (case old of
        Some (w, Some c, t) \<Rightarrow>
          if (window = 0 \<or> c \<noteq> me) \<and> c \<noteq> 0 \<and> live c then [SelectionClear c ms w name] else []
      | _ \<Rightarrow> [])"

definition stale :: "TimeStamp \<Rightarrow> (XID \<times> nat option \<times> TimeStamp) option \<Rightarrow> bool" where
  "stale t old \<longleftrightarrow> (case old of None \<Rightarrow> False | Some (w, c, since) \<Rightarrow> ticks t < ticks since)"

lemma set_owner_run:
  fixes s :: sel_server
  assumes "req_len client = 4" "ValidAtom (sel_atoms s) (so_selection r)" "so_window r = 0 \<or> lookup (so_window r) DixSetAttrAccess = Success"
    "ok 0" "t = ClientTimeToServerTime (update_time (sel_time s)) (so_time r)" "ticks t \<le> ticks (update_time (sel_time s))"
  defines "old \<equiv> owner_of s (so_selection r)"
  shows "\<exists>rc c' s'. ProcSetSelectionOwner lookup update_time live ok me client r s = (rc, c', s') \<and> sel_atoms s' = sel_atoms s \<and>
    (if stale t old then rc = Success \<and> s' = s\<lparr>sel_time := update_time (sel_time s)\<rparr>
     else rc = noClientException client \<and>
       owner_of s' = (owner_of s)(so_selection r \<mapsto> (so_window r, if so_window r = 0 then None else Some me, t)) \<and>
       sel_outputs s' = sel_outputs s @ clear_events live me (so_selection r) (so_window r) (milliseconds t) old @
         [SelectionCallback (so_selection r) (Some me) SelectionSetOwner])"
proof -
  let ?s = "s\<lparr>sel_time := update_time (sel_time s)\<rparr>" and ?name = "so_selection r"
  let ?pWin = "if so_window r \<noteq> 0 then Some (so_window r) else None"
  let ?c = "(if so_window r \<noteq> 0 then looked_up (so_window r) client else client)\<lparr>errorValue := ?name\<rparr>"
  have exc: "noClientException ?c = noClientException client" by (simp add: looked_up_def)
  have now: "CompareTimeStamps t (update_time (sel_time s)) \<noteq> LATER" using assms(6) by (simp add: CompareTimeStamps_ticks)
  note run = ProcSetSelectionOwner_def [of lookup update_time live ok me client r s] Let_def
  show ?thesis
  proof (cases "find_selection ?name (CurrentSelections s)")
    case None
    then have old: "old = None" by (simp add: old_def owner_of_def)
    let ?new = "\<lparr>selection = ?name, lastTimeChanged = t, sel_window = so_window r, sel_pWin = ?pWin,
      sel_client = (if ?pWin \<noteq> None then Some me else None)\<rparr>"
    have "ProcSetSelectionOwner lookup update_time live ok me client r s = (noClientException client, ?c,
        sel_out [SelectionCallback ?name (Some me) SelectionSetOwner] (?s\<lparr>CurrentSelections := ?new # CurrentSelections ?s\<rparr>))"
      unfolding run using assms(1-4) now None
      by (cases "so_window r = 0") (simp_all add: assms(5) [symmetric] REQUEST_SIZE_MATCH_def dixLookupSelection_def XaceHookSelectionAccess_def looked_up_def)
    then show ?thesis using old by (simp add: stale_def clear_events_def owner_of_new [where s = ?s, simplified])
  next
    case (Some p)
    then have old: "old = Some (sel_window p, sel_client p, lastTimeChanged p)" by (simp add: old_def owner_of_def)
    have p: "selection p = ?name" using find_selection_name [OF Some] by simp
    show ?thesis
    proof (cases "ticks t < ticks (lastTimeChanged p)")
      case True
      have "ProcSetSelectionOwner lookup update_time live ok me client r s = (Success, ?c, ?s)"
        unfolding run using assms(1-4) now Some True
        by (cases "so_window r = 0") (simp_all add: assms(5) [symmetric] REQUEST_SIZE_MATCH_def dixLookupSelection_def XaceHookSelectionAccess_def CompareTimeStamps_ticks)
      then show ?thesis using True old by (simp add: stale_def)
    next
      case False
      let ?clear = "if sel_client p \<noteq> None \<and> (?pWin = None \<or> sel_client p \<noteq> Some me)
        then TryClientEvents live (sel_client p) (\<lambda>c. SelectionClear c (milliseconds t) (sel_window p) (selection p)) else []"
      have run': "ProcSetSelectionOwner lookup update_time live ok me client r s = (noClientException client, ?c,
          sel_out (?clear @ [SelectionCallback ?name (Some me) SelectionSetOwner]) (?s\<lparr>CurrentSelections :=
            update_selection ?name (take_ownership t (so_window r) ?pWin me) (CurrentSelections ?s)\<rparr>))"
        unfolding run using assms(1-4) now Some False
        by (cases "so_window r = 0") (simp_all add: assms(5) [symmetric] REQUEST_SIZE_MATCH_def dixLookupSelection_def XaceHookSelectionAccess_def CompareTimeStamps_ticks looked_up_def)
      have clear: "?clear = clear_events live me ?name (so_window r) (milliseconds t) old"
        using p by (cases "sel_client p") (auto simp: old clear_events_def TryClientEvents_def)
      show ?thesis unfolding run' clear using False old Some owner_of_taken [where name = ?name and s = ?s and t = t and w = "so_window r" and pw = ?pWin and me = me]
        by (simp add: stale_def)
    qed
  qed
qed

text \<open>C5. A valid \<^verbatim>\<open>SetSelectionOwner\<close> with a time stamp that is neither in the future nor older than the last change makes the
  requesting client the owner of that selection and of no other, or nobody when the window is None; exactly the client that loses
  the selection is told, if it is another one or gives it up. With an older time stamp nothing happens.\<close>

theorem ProcSetSelectionOwner_correct:
  assumes "req_len client = 4" "ValidAtom (sel_atoms s) (so_selection r)" "so_window r = 0 \<or> lookup (so_window r) DixSetAttrAccess = Success"
    "ok 0" "t = ClientTimeToServerTime (update_time (sel_time s)) (so_time r)" "ticks t \<le> ticks (update_time (sel_time s))"
  shows "\<exists>rc c' s'. ProcSetSelectionOwner lookup update_time live ok me client r s = (rc, c', s') \<and>
    (if stale t (owner_of s (so_selection r)) then rc = Success \<and> owner_of s' = owner_of s \<and> sel_outputs s' = sel_outputs s
     else rc = noClientException client \<and>
       owner_of s' = (owner_of s)(so_selection r \<mapsto> (so_window r, if so_window r = 0 then None else Some me, t)) \<and>
       sel_outputs s' = sel_outputs s @
         clear_events live me (so_selection r) (so_window r) (milliseconds t) (owner_of s (so_selection r)) @
         [SelectionCallback (so_selection r) (Some me) SelectionSetOwner])"
proof -
  obtain rc c' s' where "ProcSetSelectionOwner lookup update_time live ok me client r s = (rc, c', s')"
    "if stale t (owner_of s (so_selection r)) then rc = Success \<and> s' = s\<lparr>sel_time := update_time (sel_time s)\<rparr>
     else rc = noClientException client \<and>
       owner_of s' = (owner_of s)(so_selection r \<mapsto> (so_window r, if so_window r = 0 then None else Some me, t)) \<and>
       sel_outputs s' = sel_outputs s @
         clear_events live me (so_selection r) (so_window r) (milliseconds t) (owner_of s (so_selection r)) @
         [SelectionCallback (so_selection r) (Some me) SelectionSetOwner]"
    using set_owner_run [of client s r lookup ok t update_time live me, OF assms] by blast
  then show ?thesis by (cases "stale t (owner_of s (so_selection r))") simp_all
qed

definition ex_sel_server :: sel_server where
  "ex_sel_server = \<lparr>CurrentSelections = [\<lparr>selection = 1, lastTimeChanged = \<lparr>months = 0, milliseconds = 50\<rparr>, sel_window = 7,
       sel_pWin = Some 7, sel_client = Some 3\<rparr>],
     sel_time = \<lparr>months = 0, milliseconds = 100\<rparr>, sel_atoms = \<lparr>lastAtom = 100, atomRoot = NullNode, tableLength = 0, nodeTable = []\<rparr>,
     sel_outputs = []\<rparr>"

definition ex_sel_client :: "nat \<Rightarrow> PropClient" where
  "ex_sel_client n = \<lparr>req_len = n, errorValue = 0, noClientException = Success\<rparr>"

lemma ProcSetSelectionOwner_correct_witness:
  "\<exists>rc c' s'. ProcSetSelectionOwner (\<lambda>_ _. Success) id (\<lambda>_. True) alloc_ok 4 (ex_sel_client 4)
       \<lparr>so_window = 9, so_selection = 1, so_time = 0\<rparr> ex_sel_server = (rc, c', s') \<and>
     owner_of s' 1 = Some (9, Some 4, \<lparr>months = 0, milliseconds = 100\<rparr>) \<and>
     sel_outputs s' = [SelectionClear 3 100 7 1, SelectionCallback 1 (Some 4) SelectionSetOwner]"
proof -
  let ?t = "\<lparr>months = 0, milliseconds = 100\<rparr>" and ?r = "\<lparr>so_window = 9, so_selection = 1, so_time = 0\<rparr>"
  have old: "owner_of ex_sel_server (so_selection ?r) = Some (7, Some 3, \<lparr>months = 0, milliseconds = 50\<rparr>)"
    by (simp add: owner_of_def ex_sel_server_def)
  have fresh: "stale ?t (owner_of ex_sel_server (so_selection ?r)) = False" unfolding old by (simp add: stale_def ticks_def)
  have clear: "clear_events (\<lambda>_. True) 4 (so_selection ?r) (so_window ?r) (milliseconds ?t) (owner_of ex_sel_server (so_selection ?r)) =
      [SelectionClear 3 100 7 1]"
    unfolding old by (simp add: clear_events_def)
  have "\<exists>rc c' s'. ProcSetSelectionOwner (\<lambda>_ _. Success) id (\<lambda>_. True) alloc_ok 4 (ex_sel_client 4) ?r ex_sel_server = (rc, c', s') \<and>
    (if stale ?t (owner_of ex_sel_server (so_selection ?r)) then rc = Success \<and> owner_of s' = owner_of ex_sel_server \<and>
       sel_outputs s' = sel_outputs ex_sel_server
     else rc = noClientException (ex_sel_client 4) \<and>
       owner_of s' = (owner_of ex_sel_server)(so_selection ?r \<mapsto> (so_window ?r, if so_window ?r = 0 then None else Some 4, ?t)) \<and>
       sel_outputs s' = sel_outputs ex_sel_server @
         clear_events (\<lambda>_. True) 4 (so_selection ?r) (so_window ?r) (milliseconds ?t) (owner_of ex_sel_server (so_selection ?r)) @
         [SelectionCallback (so_selection ?r) (Some 4) SelectionSetOwner])"
    by (rule ProcSetSelectionOwner_correct)
      (simp_all add: ex_sel_server_def ex_sel_client_def ValidAtom_def ClientTimeToServerTime_def)
  then show ?thesis
    unfolding fresh clear if_False by - (elim exE conjE, intro exI conjI, assumption, simp_all add: ex_sel_server_def)
qed


section \<open>The server under requests\<close>

definition owner_ok :: "AtomState \<Rightarrow> TimeStamp \<Rightarrow> Selection \<Rightarrow> bool" where
  "owner_ok A now p \<longleftrightarrow> sel_pWin p = (if sel_window p = 0 then None else Some (sel_window p)) \<and>
     (sel_client p = None \<longleftrightarrow> sel_window p = 0) \<and> ValidAtom A (selection p) \<and> ticks (lastTimeChanged p) \<le> ticks now"

definition sel_ok :: "sel_server \<Rightarrow> bool" where
  "sel_ok s \<longleftrightarrow> distinct (map selection (CurrentSelections s)) \<and> (\<forall>p \<in> set (CurrentSelections s). owner_ok (sel_atoms s) (sel_time s) p)"

inductive sel_step :: "sel_server \<Rightarrow> sel_server \<Rightarrow> bool" where
  set_owner: "\<forall>t. ticks t \<le> ticks (update_time t) \<Longrightarrow>
    ProcSetSelectionOwner lookup update_time live ok me c r s = (rc, c', s') \<Longrightarrow> sel_step s s'"
| get_owner: "ProcGetSelectionOwner me c name s = (rc, c', s') \<Longrightarrow> sel_step s s'"
| convert: "ProcConvertSelection lookup live me c q s = (rc, c', s') \<Longrightarrow> sel_step s s'"
| window_gone: "sel_step s (DeleteWindowFromAnySelections w s)"
| client_gone: "sel_step s (DeleteClientFromAnySelections me s)"
| restart: "sel_step s (InitSelections s)"

lemma set_owner_cases:
  assumes "ProcSetSelectionOwner lookup update_time live ok me client r s = (rc, c', s')"
  defines "now \<equiv> update_time (sel_time s)" and "pWin \<equiv> (if so_window r \<noteq> 0 then Some (so_window r) else None)"
  defines "t \<equiv> ClientTimeToServerTime now (so_time r)"
  shows "s' = s \<or> s' = s\<lparr>sel_time := now\<rparr> \<or>
    (ticks t \<le> ticks now \<and> ValidAtom (sel_atoms s) (so_selection r) \<and>
     (\<exists>out sels. s' = sel_out out (s\<lparr>sel_time := now, CurrentSelections := sels\<rparr>) \<and>
       (sels = update_selection (so_selection r) (take_ownership t (so_window r) pWin me) (CurrentSelections s) \<or>
        find_selection (so_selection r) (CurrentSelections s) = None \<and>
        sels = \<lparr>selection = so_selection r, lastTimeChanged = t, sel_window = so_window r, sel_pWin = pWin,
          sel_client = (if pWin \<noteq> None then Some me else None)\<rparr> # CurrentSelections s)))"
proof -
  let ?name = "so_selection r"
  let ?stop = "\<not> REQUEST_SIZE_MATCH 16 (req_len client) \<or> CompareTimeStamps t now = LATER \<or>
    (so_window r \<noteq> 0 \<and> lookup (so_window r) DixSetAttrAccess \<noteq> Success) \<or> \<not> ValidAtom (sel_atoms s) ?name"
  note run = assms(1) [unfolded ProcSetSelectionOwner_def Let_def dixLookupSelection_def XaceHookSelectionAccess_def]
  show ?thesis
  proof (cases ?stop)
    case True
    then have "s' = s \<or> s' = s\<lparr>sel_time := now\<rparr>"
      using run unfolding t_def now_def by (elim disjE) (simp_all split: if_split_asm)
    then show ?thesis by blast
  next
    case False
    then have go: "REQUEST_SIZE_MATCH 16 (req_len client)" "CompareTimeStamps t now \<noteq> LATER" "ValidAtom (sel_atoms s) ?name"
      "(if so_window r \<noteq> 0 then lookup (so_window r) DixSetAttrAccess else Success) = Success" by auto
    have le: "ticks t \<le> ticks now" using go(2) by (auto simp: CompareTimeStamps_ticks split: if_splits)
    note run' = run [unfolded now_def [symmetric], simplified, folded t_def, unfolded go(4)]
    show ?thesis
    proof (cases "find_selection ?name (CurrentSelections s)")
      case None
      then have "s' = s\<lparr>sel_time := now\<rparr> \<or> (\<exists>out. s' = sel_out out (s\<lparr>sel_time := now, CurrentSelections :=
          \<lparr>selection = ?name, lastTimeChanged = t, sel_window = so_window r, sel_pWin = pWin,
           sel_client = (if pWin \<noteq> None then Some me else None)\<rparr> # CurrentSelections s\<rparr>))"
        using run' go unfolding pWin_def t_def by (simp split: if_split_asm) blast+
      then show ?thesis using None le go(3) by blast
    next
      case (Some p)
      then have "s' = s\<lparr>sel_time := now\<rparr> \<or> (\<exists>out. s' = sel_out out (s\<lparr>sel_time := now, CurrentSelections :=
          update_selection ?name (take_ownership t (so_window r) pWin me) (CurrentSelections s)\<rparr>))"
        using run' go unfolding pWin_def t_def by (simp split: if_split_asm) blast+
      then show ?thesis using le go(3) by blast
    qed
  qed
qed

lemma owner_ok_later: "owner_ok A now p \<Longrightarrow> ticks now \<le> ticks now' \<Longrightarrow> owner_ok A now' p"
  by (simp add: owner_ok_def)

lemma owner_ok_disown: "owner_ok A now p \<Longrightarrow> owner_ok A now (disown p)"
  by (simp add: owner_ok_def disown_def)

lemma update_selection_names: "(\<And>p. selection (f p) = selection p) \<Longrightarrow> map selection (update_selection name f sels) = map selection sels"
  by (induction sels) auto

lemma update_selection_set: "p \<in> set (update_selection name f sels) \<Longrightarrow> p \<in> set sels \<or> (\<exists>q \<in> set sels. p = f q \<and> selection q = name)"
  by (induction sels) (auto split: if_splits)

lemma not_found: "find_selection name sels = None \<Longrightarrow> name \<notin> selection ` set sels"
  by (induction sels) (auto split: if_splits)

lemma sel_ok_intro:
  assumes "sel_ok s" "map selection (CurrentSelections s') = map selection (CurrentSelections s)" "sel_atoms s' = sel_atoms s"
    "ticks (sel_time s) \<le> ticks (sel_time s')"
    "\<And>p. p \<in> set (CurrentSelections s') \<Longrightarrow> p \<in> set (CurrentSelections s) \<or> owner_ok (sel_atoms s) (sel_time s') p"
  shows "sel_ok s'"
  using assms owner_ok_later unfolding sel_ok_def by metis

lemma set_owner_ok:
  assumes mono: "\<forall>t. ticks t \<le> ticks (update_time t)"
    and run: "ProcSetSelectionOwner lookup update_time live ok me c r s = (rc, c', s')" and inv: "sel_ok s"
  shows "sel_ok s'"
proof -
  let ?now = "update_time (sel_time s)" and ?pWin = "if so_window r \<noteq> 0 then Some (so_window r) else None"
  let ?t = "ClientTimeToServerTime ?now (so_time r)"
  have le: "ticks (sel_time s) \<le> ticks ?now" using mono by blast
  have keep: "owner_ok (sel_atoms s) ?now p" if "p \<in> set (CurrentSelections s)" for p
    using inv that owner_ok_later [OF _ le] by (auto simp: sel_ok_def)
  consider "s' = s" | "s' = s\<lparr>sel_time := ?now\<rparr>"
    | out where "ticks ?t \<le> ticks ?now" "s' = sel_out out (s\<lparr>sel_time := ?now,
        CurrentSelections := update_selection (so_selection r) (take_ownership ?t (so_window r) ?pWin me) (CurrentSelections s)\<rparr>)"
    | out where "ticks ?t \<le> ticks ?now" "ValidAtom (sel_atoms s) (so_selection r)" "find_selection (so_selection r) (CurrentSelections s) = None"
      "s' = sel_out out (s\<lparr>sel_time := ?now, CurrentSelections := \<lparr>selection = so_selection r, lastTimeChanged = ?t,
         sel_window = so_window r, sel_pWin = ?pWin, sel_client = (if ?pWin \<noteq> None then Some me else None)\<rparr> # CurrentSelections s\<rparr>)"
    using set_owner_cases [OF run] by blast
  then show ?thesis
  proof cases
    case 2
    then show ?thesis using inv keep by (simp add: sel_ok_def)
  next
    case (3 out)
    have "owner_ok (sel_atoms s) ?now (take_ownership ?t (so_window r) ?pWin me p)" if "p \<in> set (CurrentSelections s)" for p
      using keep [OF that] 3(1) by (simp add: owner_ok_def take_ownership_def)
    then show ?thesis
      using sel_ok_intro [OF inv, of s'] le update_selection_set [of _ "so_selection r"] update_selection_names unfolding 3(2) by fastforce
  next
    case (4 out)
    then show ?thesis using inv keep not_found [OF 4(3)] by (simp add: sel_ok_def owner_ok_def)
  qed (use inv in simp)
qed

lemma disown_ok:
  assumes "sel_ok s"
  shows "sel_ok (sel_out out (s\<lparr>CurrentSelections := map (\<lambda>p. if P p then disown p else p) (CurrentSelections s)\<rparr>))"
  by (rule sel_ok_intro [OF assms])
    (use assms owner_ok_disown in \<open>auto simp: sel_ok_def disown_def comp_def\<close>)

lemma sel_step_ok: "sel_step s s' \<Longrightarrow> sel_ok s \<Longrightarrow> sel_ok s'"
proof (induction rule: sel_step.induct)
  case (set_owner update_time lookup live ok me c r s rc c' s')
  then show ?case by (rule set_owner_ok)
next
  case (get_owner me c name s rc c' s')
  then have "s' = s \<or> (\<exists>out. s' = sel_out out s)"
    by (auto simp: ProcGetSelectionOwner_def dixLookupSelection_def XaceHookSelectionAccess_def Let_def split: if_splits option.splits)
  then show ?case using get_owner.prems by (auto simp: sel_ok_def)
next
  case (convert lookup live me c q s rc c' s')
  then have "s' = s \<or> (\<exists>out. s' = sel_out out s)"
    by (auto simp: ProcConvertSelection_def dixLookupSelection_def XaceHookSelectionAccess_def Let_def split: if_splits option.splits)
  then show ?case using convert.prems by (auto simp: sel_ok_def)
next
  case (window_gone s w)
  then show ?case unfolding DeleteWindowFromAnySelections_def by (rule disown_ok)
next
  case (client_gone s me)
  then show ?case unfolding DeleteClientFromAnySelections_def by (rule disown_ok)
next
  case (restart s)
  then show ?case by (simp add: sel_ok_def InitSelections_def)
qed

interpretation selection_server: stable_invariant sel_step sel_ok
  by unfold_locales (rule sel_step_ok)

text \<open>C21. Whatever requests arrive and whichever windows and clients go: there is at most one entry per selection, its owner window,
  window pointer and owner client are all there or all missing, and it was not taken later than now.\<close>

theorem selections_stay_consistent:
  assumes "sel_step\<^sup>*\<^sup>* s s'" "CurrentSelections s = []"
  shows "distinct (map selection (CurrentSelections s')) \<and>
    (\<forall>p \<in> set (CurrentSelections s'). (sel_client p = None \<longleftrightarrow> sel_window p = 0) \<and> (sel_pWin p = None \<longleftrightarrow> sel_window p = 0) \<and>
       ticks (lastTimeChanged p) \<le> ticks (sel_time s'))"
proof -
  have "sel_ok s'" by (rule selection_server.reachable [OF assms(1)]) (simp add: sel_ok_def assms(2))
  then show ?thesis by (simp add: sel_ok_def owner_ok_def)
qed

lemma selections_stay_consistent_witness:
  "\<exists>s'. sel_step\<^sup>*\<^sup>* (ex_sel_server\<lparr>CurrentSelections := []\<rparr>) s' \<and> owner_of s' 1 = Some (9, Some 4, \<lparr>months = 0, milliseconds = 100\<rparr>) \<and>
     distinct (map selection (CurrentSelections s'))"
proof -
  let ?s = "ex_sel_server\<lparr>CurrentSelections := []\<rparr>" and ?t = "\<lparr>months = 0, milliseconds = 100\<rparr>"
  let ?r = "\<lparr>so_window = 9, so_selection = 1, so_time = 0\<rparr>"
  have fresh: "stale ?t (owner_of ?s (so_selection ?r)) = False" by (simp add: owner_of_def stale_def)
  have "\<exists>rc c' s'. ProcSetSelectionOwner (\<lambda>_ _. Success) id (\<lambda>_. True) alloc_ok 4 (ex_sel_client 4) ?r ?s = (rc, c', s') \<and>
      sel_atoms s' = sel_atoms ?s \<and>
      (if stale ?t (owner_of ?s (so_selection ?r)) then rc = Success \<and> s' = ?s\<lparr>sel_time := id (sel_time ?s)\<rparr>
       else rc = noClientException (ex_sel_client 4) \<and>
         owner_of s' = (owner_of ?s)(so_selection ?r \<mapsto> (so_window ?r, if so_window ?r = 0 then None else Some 4, ?t)) \<and>
         sel_outputs s' = sel_outputs ?s @
           clear_events (\<lambda>_. True) 4 (so_selection ?r) (so_window ?r) (milliseconds ?t) (owner_of ?s (so_selection ?r)) @
           [SelectionCallback (so_selection ?r) (Some 4) SelectionSetOwner])"
    by (rule set_owner_run) (simp_all add: ex_sel_server_def ex_sel_client_def ValidAtom_def ClientTimeToServerTime_def)
  then obtain rc c' s' where run: "ProcSetSelectionOwner (\<lambda>_ _. Success) id (\<lambda>_. True) alloc_ok 4 (ex_sel_client 4) ?r ?s = (rc, c', s')"
    and own: "owner_of s' = (owner_of ?s)(so_selection ?r \<mapsto> (so_window ?r, if so_window ?r = 0 then None else Some 4, ?t))"
    unfolding fresh if_False by - (elim exE conjE)
  have reach: "sel_step\<^sup>*\<^sup>* ?s s'"
    by (rule r_into_rtranclp, rule sel_step.set_owner [OF _ run]) simp
  have "owner_of s' 1 = Some (9, Some 4, ?t)" unfolding own by simp
  then show ?thesis using reach selections_stay_consistent [OF reach] by auto
qed

section \<open>Converting and losing a selection\<close>

text \<open>When a client goes, it owns no selection any more: each of its selections gets no window and no client and keeps its time
  stamp; the selections of the others stay as they are, and one callback per lost selection is called.\<close>

theorem DeleteClientFromAnySelections_correct:
  "owner_of (DeleteClientFromAnySelections c s) name =
     (case owner_of s name of
        None \<Rightarrow> None
      | Some (w, owner, t) \<Rightarrow> if owner = Some c then Some (0, None, t) else Some (w, owner, t)) \<and>
   length (sel_outputs (DeleteClientFromAnySelections c s)) =
     length (sel_outputs s) + length (filter (\<lambda>p. sel_client p = Some c) (CurrentSelections s))"
  by (auto simp: DeleteClientFromAnySelections_def owner_of_def find_map disown_def split: option.splits)


text \<open>C31. A valid \<^verbatim>\<open>ConvertSelection\<close> leads to exactly one event: the request goes to the owner of the selection if it has one
  that is still there, and otherwise the requesting client itself is told that there is no conversion. No selection changes.\<close>

theorem ProcConvertSelection_correct:
  assumes "req_len client = 6" "lookup (cs_requestor q) DixSetAttrAccess = Success" "ValidAtom (sel_atoms s) (cs_selection q)"
    "ValidAtom (sel_atoms s) (cs_target q)" "cs_property q = 0 \<or> ValidAtom (sel_atoms s) (cs_property q)" "me \<noteq> 0" "live me"
  shows "\<exists>c'. ProcConvertSelection lookup live me client q s = (noClientException client, c',
    s\<lparr>sel_outputs := sel_outputs s @
      [case owner_of s (cs_selection q) of
         Some (w, Some c, t) \<Rightarrow>
           if w \<noteq> 0 \<and> c \<noteq> 0 \<and> live c
           then SelectionRequest c w (cs_time q) (cs_requestor q) (cs_selection q) (cs_target q) (cs_property q)
           else SelectionNotify me (cs_time q) (cs_requestor q) (cs_selection q) (cs_target q) 0
       | _ \<Rightarrow> SelectionNotify me (cs_time q) (cs_requestor q) (cs_selection q) (cs_target q) 0]\<rparr>)"
proof (cases "find_selection (cs_selection q) (CurrentSelections s)")
  case None
  then show ?thesis
    using assms by (auto simp: ProcConvertSelection_def Let_def REQUEST_SIZE_MATCH_def dixLookupSelection_def owner_of_def
        TryClientEvents_def sel_out_def looked_up_def)
next
  case (Some p)
  then show ?thesis
    using assms by (cases "sel_client p") (auto simp: ProcConvertSelection_def Let_def REQUEST_SIZE_MATCH_def dixLookupSelection_def
        owner_of_def TryClientEvents_def XaceHookSelectionAccess_def sel_out_def looked_up_def)
qed

lemma ProcConvertSelection_correct_witness:
  "\<exists>c' s'. ProcConvertSelection (\<lambda>_ _. Success) (\<lambda>_. True) 4 (ex_sel_client 6)
       \<lparr>cs_requestor = 9, cs_selection = 1, cs_target = 31, cs_property = 0, cs_time = 0\<rparr> ex_sel_server = (Success, c', s') \<and>
     sel_outputs s' = [SelectionRequest 3 7 0 9 1 31 0]"
proof -
  let ?q = "\<lparr>cs_requestor = 9, cs_selection = 1, cs_target = 31, cs_property = 0, cs_time = 0\<rparr>"
  have own: "owner_of ex_sel_server (Suc 0) = Some (7, Some 3, \<lparr>months = 0, milliseconds = 50\<rparr>)"
    by (simp add: owner_of_def ex_sel_server_def)
  show ?thesis
    using ProcConvertSelection_correct [of "ex_sel_client 6" "\<lambda>_ _. Success" ?q ex_sel_server 4 "\<lambda>_. True"] own
    by (auto simp: ex_sel_client_def ex_sel_server_def ValidAtom_def)
qed

end
