(* ===== verification/Grabs.thy ===== *)
theory Grabs
  imports Resources Protocol
begin

text \<open>
  Passive grabs (\<^verbatim>\<open>dix/grabs.c\<close>): a grab claims a set of combinations of modifiers and keys (or
  buttons) on a window. The detail of a grab is one value or ``any'', where a mask can take single
  values out of ``any''; removing a grab subtracts its combinations from those of the client's others.

  \<^item> A grab is known by its resource identifier; the grabs of a window are the list of its optional record.
  \<^item> Memory is an allocation oracle, counted from \<open>k\<close> on; \<^verbatim>\<open>AddResource\<close> asks it once. \<^verbatim>\<open>FakeClientID\<close> is an
    argument that gives the n-th identifier made up for a client.
  \<^item> Freeing the resource of a grab calls \<^verbatim>\<open>DeletePassiveGrab\<close>, which unlinks it. The optional record stays
    when the list becomes empty (theory \<open>Window_Optional\<close> shows that it is never released).
  \<^item> The reference count of a cursor is not modelled.
\<close>

section \<open>State\<close>

abbreviation (input) MasksPerDetailMask :: nat where "MasksPerDetailMask \<equiv> 8"
abbreviation (input) AnyKey :: nat where "AnyKey \<equiv> 0"
abbreviation (input) AnyModifier :: nat where "AnyModifier \<equiv> 32768"

record DetailRec =
  exact :: nat
  pMask :: "Mask list option"

record GrabRec =
  resource :: XID
  device :: nat
  ownerEvents :: bool
  keyboardMode :: bool
  pointerMode :: bool
  coreGrab :: bool
  coreMods :: bool
  gtype :: nat
  modifiersDetail :: DetailRec
  modifierDevice :: nat
  detail :: DetailRec
  confineTo :: "XID option"
  cursor :: "nat option"
  eventMask :: Mask

record grab_window =
  has_optional :: bool
  passiveGrabs :: "GrabRec list"

definition GETBIT :: "Mask list \<Rightarrow> nat \<Rightarrow> bool" where
  "GETBIT buf i \<longleftrightarrow> buf ! (i div 32) AND push_bit (i mod 32) 1 \<noteq> 0"

definition BITCLEAR :: "Mask list \<Rightarrow> nat \<Rightarrow> Mask list" where
  "BITCLEAR buf i = buf[i div 32 := buf ! (i div 32) AND NOT (push_bit (i mod 32) 1)]"

section \<open>Operations\<close>

record core_devices =
  core_kbd :: nat
  core_ptr :: nat

definition CreateGrab ::
    "core_devices \<Rightarrow> bool \<Rightarrow> XID \<Rightarrow> nat \<Rightarrow> Mask \<Rightarrow> bool \<Rightarrow> bool \<Rightarrow> bool \<Rightarrow> nat \<Rightarrow> nat \<Rightarrow> nat \<Rightarrow> nat \<Rightarrow> XID option \<Rightarrow> nat option
      \<Rightarrow> GrabRec option" where
  "CreateGrab core mem fake_id dev emask owner kbmode ptrmode modDevice modifiers type' keybut confine curs =
     (if \<not> mem then None
      else Some \<lparr>resource = fake_id, device = dev, ownerEvents = owner, keyboardMode = kbmode, pointerMode = ptrmode,
        coreGrab = (dev = core_kbd core \<or> dev = core_ptr core), coreMods = (modDevice = core_kbd core \<or> modDevice = core_ptr core),
        gtype = type', modifiersDetail = \<lparr>exact = modifiers, pMask = None\<rparr>, modifierDevice = modDevice,
        detail = \<lparr>exact = keybut, pMask = None\<rparr>, confineTo = confine, cursor = curs, eventMask = emask\<rparr>)"

definition DeletePassiveGrab :: "XID \<Rightarrow> grab_window \<Rightarrow> grab_window" where
  "DeletePassiveGrab i w = w\<lparr>passiveGrabs := filter (\<lambda>g. resource g \<noteq> i) (passiveGrabs w)\<rparr>"

definition DeleteDetailFromMask :: "bool \<Rightarrow> Mask list option \<Rightarrow> nat \<Rightarrow> Mask list option" where
  "DeleteDetailFromMask mem pDetailMask det =
     (if \<not> mem then None
      else Some (BITCLEAR (case pDetailMask of Some ms \<Rightarrow> ms | None \<Rightarrow> replicate MasksPerDetailMask (NOT 0)) det))"

definition IsInGrabMask :: "DetailRec \<Rightarrow> DetailRec \<Rightarrow> nat \<Rightarrow> bool" where
  "IsInGrabMask firstDetail secondDetail exception =
     (if exact firstDetail = exception then
        (case pMask firstDetail of
           None \<Rightarrow> True
         | Some ms \<Rightarrow>
             if exact secondDetail = exception then False
             else if GETBIT ms (exact secondDetail) then True
             else False)
      else False)"

definition IdenticalExactDetails :: "nat \<Rightarrow> nat \<Rightarrow> nat \<Rightarrow> bool" where
  "IdenticalExactDetails firstExact secondExact exception =
     (if firstExact = exception \<or> secondExact = exception then False
      else if firstExact = secondExact then True else False)"

definition DetailSupersedesSecond :: "DetailRec \<Rightarrow> DetailRec \<Rightarrow> nat \<Rightarrow> bool" where
  "DetailSupersedesSecond firstDetail secondDetail exception =
     (if IsInGrabMask firstDetail secondDetail exception then True
      else if IdenticalExactDetails (exact firstDetail) (exact secondDetail) exception then True else False)"

definition GrabSupersedesSecond :: "GrabRec \<Rightarrow> GrabRec \<Rightarrow> bool" where
  "GrabSupersedesSecond a b =
     (if \<not> DetailSupersedesSecond (modifiersDetail a) (modifiersDetail b) AnyModifier then False
      else if DetailSupersedesSecond (detail a) (detail b) AnyKey then True else False)"

definition GrabMatchesSecond :: "GrabRec \<Rightarrow> GrabRec \<Rightarrow> bool" where
  "GrabMatchesSecond a b =
     (if device a \<noteq> device b \<or> modifierDevice a \<noteq> modifierDevice b \<or> gtype a \<noteq> gtype b then False
      else if GrabSupersedesSecond a b \<or> GrabSupersedesSecond b a then True
      else if DetailSupersedesSecond (detail b) (detail a) AnyKey \<and>
              DetailSupersedesSecond (modifiersDetail a) (modifiersDetail b) AnyModifier then True
      else if DetailSupersedesSecond (detail a) (detail b) AnyKey \<and>
              DetailSupersedesSecond (modifiersDetail b) (modifiersDetail a) AnyModifier then True
      else False)"

definition GrabsAreIdentical :: "GrabRec \<Rightarrow> GrabRec \<Rightarrow> bool" where
  "GrabsAreIdentical a b =
     (if device a \<noteq> device b \<or> modifierDevice a \<noteq> modifierDevice b \<or> gtype a \<noteq> gtype b then False
      else if \<not> (DetailSupersedesSecond (detail a) (detail b) AnyKey \<and>
                 DetailSupersedesSecond (detail b) (detail a) AnyKey) then False
      else if \<not> (DetailSupersedesSecond (modifiersDetail a) (modifiersDetail b) AnyModifier \<and>
                 DetailSupersedesSecond (modifiersDetail b) (modifiersDetail a) AnyModifier) then False
      else True)"

text \<open>
  The plan for one grab of the list: whether memory sufficed, how many allocations and made-up
  identifiers are used up, the grabs to delete, those to add, and the masks to replace.
\<close>

datatype mask_slot = DetailMask | ModifiersMask

type_synonym plan = "bool \<times> nat \<times> nat \<times> XID list \<times> GrabRec list \<times> (XID \<times> mask_slot \<times> Mask list) list"

definition UPDATE :: "alloc \<Rightarrow> nat \<Rightarrow> nat \<Rightarrow> GrabRec \<Rightarrow> mask_slot \<Rightarrow> nat \<Rightarrow> plan" where
  "UPDATE ok k n g slot exact' =
     (case DeleteDetailFromMask (ok k) (case slot of DetailMask \<Rightarrow> pMask (detail g) | ModifiersMask \<Rightarrow> pMask (modifiersDetail g)) exact' of
        None \<Rightarrow> (False, Suc k, n, [], [], [])
      | Some ms \<Rightarrow> (True, Suc k, n, [], [], [(resource g, slot, ms)]))"

text \<open>The grab for the key that is taken out, with any modifier but one.\<close>

definition split_grab :: "core_devices \<Rightarrow> (nat \<Rightarrow> nat \<Rightarrow> XID) \<Rightarrow> alloc \<Rightarrow> bool \<Rightarrow> nat \<Rightarrow> nat \<Rightarrow> GrabRec \<Rightarrow> GrabRec \<Rightarrow> plan" where
  "split_grab core fake ok opt k n g m =
     (case CreateGrab core (ok k) (fake (CLIENT_ID (resource g)) n) (device g) (eventMask g) (ownerEvents g) (keyboardMode g)
             (pointerMode g) (modifierDevice g) AnyModifier (gtype g) (exact (detail m)) (confineTo g) (cursor g) of
        None \<Rightarrow> (False, Suc k, n, [], [], [])
      | Some new \<Rightarrow>
          (case DeleteDetailFromMask (ok (k + 1)) (pMask (modifiersDetail g)) (exact (modifiersDetail m)) of
             None \<Rightarrow> (False, k + 2, Suc n, [], [], [])
           | Some ms \<Rightarrow>
               if \<not> opt \<and> \<not> ok (k + 2) then (False, k + 3, Suc n, [], [], [])
               else
                 let k' = (if opt then k + 2 else k + 3)
                 in if \<not> ok k' then (False, Suc k', Suc n, [], [], [])
                    else (True, Suc k', Suc n, [], [new\<lparr>modifiersDetail := (modifiersDetail new)\<lparr>pMask := Some ms\<rparr>\<rparr>], [])))"

definition plan_grab :: "core_devices \<Rightarrow> (nat \<Rightarrow> nat \<Rightarrow> XID) \<Rightarrow> alloc \<Rightarrow> bool \<Rightarrow> GrabRec \<Rightarrow> nat \<Rightarrow> nat \<Rightarrow> GrabRec \<Rightarrow> plan" where
  "plan_grab core fake ok opt m k n g =
     (if CLIENT_BITS (resource g) \<noteq> CLIENT_BITS (resource m) \<or> \<not> GrabMatchesSecond g m then (True, k, n, [], [], [])
      else if GrabSupersedesSecond m g then (True, k, n, [resource g], [], [])
      else if exact (detail g) = AnyKey \<and> exact (modifiersDetail g) \<noteq> AnyModifier then
        UPDATE ok k n g DetailMask (exact (detail m))
      else if exact (modifiersDetail g) = AnyModifier \<and> exact (detail g) \<noteq> AnyKey then
        UPDATE ok k n g ModifiersMask (exact (modifiersDetail m))
      else if exact (detail m) \<noteq> AnyKey \<and> exact (modifiersDetail m) \<noteq> AnyModifier then
        (case UPDATE ok k n g DetailMask (exact (detail m)) of
           (s1, k1, n1, d1, a1, u1) \<Rightarrow>
             (case split_grab core fake ok opt k1 n1 g m of
                (s2, k2, n2, d2, a2, u2) \<Rightarrow> (s1 \<and> s2, k2, n2, d1 @ d2, a1 @ a2, u1 @ u2)))
      else if exact (detail m) = AnyKey then UPDATE ok k n g ModifiersMask (exact (modifiersDetail m))
      else UPDATE ok k n g DetailMask (exact (detail m)))"

text \<open>The loop over the list; it stops at the first failure.\<close>

fun plan_all :: "core_devices \<Rightarrow> (nat \<Rightarrow> nat \<Rightarrow> XID) \<Rightarrow> alloc \<Rightarrow> bool \<Rightarrow> GrabRec \<Rightarrow> nat \<Rightarrow> nat \<Rightarrow> GrabRec list \<Rightarrow> plan" where
  "plan_all core fake ok opt m k n [] = (True, k, n, [], [], [])"
| "plan_all core fake ok opt m k n (g # gs) =
     (case plan_grab core fake ok opt m k n g of
        (s1, k1, n1, d1, a1, u1) \<Rightarrow>
          if \<not> s1 then (False, k1, n1, d1, a1, u1)
          else
            (case plan_all core fake ok opt m k1 n1 gs of
               (s2, k2, n2, d2, a2, u2) \<Rightarrow> (s2, k2, n2, d1 @ d2, a1 @ a2, u1 @ u2)))"

definition set_mask :: "XID \<times> mask_slot \<times> Mask list \<Rightarrow> GrabRec \<Rightarrow> GrabRec" where
  "set_mask up g =
     (case up of (i, slot, ms) \<Rightarrow>
        if resource g \<noteq> i then g
        else (case slot of
                DetailMask \<Rightarrow> g\<lparr>detail := (detail g)\<lparr>pMask := Some ms\<rparr>\<rparr>
              | ModifiersMask \<Rightarrow> g\<lparr>modifiersDetail := (modifiersDetail g)\<lparr>pMask := Some ms\<rparr>\<rparr>))"

definition DeletePassiveGrabFromList ::
    "core_devices \<Rightarrow> (nat \<Rightarrow> nat \<Rightarrow> XID) \<Rightarrow> alloc \<Rightarrow> nat \<Rightarrow> nat \<Rightarrow> GrabRec \<Rightarrow> grab_window \<Rightarrow> bool \<times> nat \<times> nat \<times> grab_window" where
  "DeletePassiveGrabFromList core fake ok k n m w =
     (if passiveGrabs w = [] then (True, k, n, w)
      else if \<not> ok k \<or> \<not> ok (k + 1) \<or> \<not> ok (k + 2) \<or> \<not> ok (k + 3) then (False, k + 4, n, w)
      else
        (case plan_all core fake ok (has_optional w) m (k + 4) n (passiveGrabs w) of
           (s, k', n', dels, adds, ups) \<Rightarrow>
             if \<not> s then (False, k', n', w)
             else
               let w1 = fold DeletePassiveGrab dels w;
                   gs2 = fold (\<lambda>g gs. g # gs) adds (passiveGrabs w1);
                   gs3 = fold (\<lambda>up. map (set_mask up)) ups gs2
               in (True, k', n', w1\<lparr>passiveGrabs := gs3\<rparr>)))"

definition AddPassiveGrabToList ::
    "core_devices \<Rightarrow> (nat \<Rightarrow> nat \<Rightarrow> XID) \<Rightarrow> alloc \<Rightarrow> nat \<Rightarrow> GrabRec \<Rightarrow> grab_window \<Rightarrow> status \<times> grab_window" where
  "AddPassiveGrabToList core fake ok n pGrab w =
     (if \<exists>grab \<in> set (passiveGrabs w). GrabMatchesSecond pGrab grab \<and> CLIENT_BITS (resource pGrab) \<noteq> CLIENT_BITS (resource grab)
      then (BadAccess, w)
      else
        (case (case List.find (GrabsAreIdentical pGrab) (passiveGrabs w) of
                 None \<Rightarrow> (True, 0, n, w)
               | Some grab \<Rightarrow> DeletePassiveGrabFromList core fake ok 0 n grab w) of
           (s, k, n', w1) \<Rightarrow>
             if \<not> has_optional w1 \<and> \<not> ok k then (BadAlloc, w1)
             else
               let k' = (if has_optional w1 then k else Suc k);
                   w2 = w1\<lparr>has_optional := True, passiveGrabs := pGrab # passiveGrabs w1\<rparr>
               in if ok k' then (Success, w2) else (BadAlloc, DeletePassiveGrab (resource pGrab) w2)))"


section \<open>What a grab claims\<close>

definition detail_ok :: "nat \<Rightarrow> DetailRec \<Rightarrow> bool" where
  "detail_ok exception d \<longleftrightarrow> (exact d = exception \<or> exact d < 256 \<and> pMask d = None) \<and>
     (case pMask d of None \<Rightarrow> True | Some ms \<Rightarrow> length ms = MasksPerDetailMask)"

definition claims :: "nat \<Rightarrow> DetailRec \<Rightarrow> nat set" where
  "claims exception d =
     (if exact d \<noteq> exception then {exact d}
      else {v. v < 256 \<and> v \<noteq> exception \<and> (case pMask d of None \<Rightarrow> True | Some ms \<Rightarrow> GETBIT ms v)})"

definition grab_ok :: "GrabRec \<Rightarrow> bool" where
  "grab_ok g \<longleftrightarrow> detail_ok AnyModifier (modifiersDetail g) \<and> detail_ok AnyKey (detail g)"

definition plain :: "GrabRec \<Rightarrow> bool" where
  "plain g \<longleftrightarrow> pMask (modifiersDetail g) = None \<and> pMask (detail g) = None"

definition kind :: "GrabRec \<Rightarrow> nat \<times> nat \<times> nat" where
  "kind g = (device g, modifierDevice g, gtype g)"

definition combos :: "GrabRec \<Rightarrow> ((nat \<times> nat \<times> nat) \<times> nat \<times> nat) set" where
  "combos g = {kind g} \<times> claims AnyModifier (modifiersDetail g) \<times> claims AnyKey (detail g)"

definition grabbed :: "XID \<Rightarrow> GrabRec list \<Rightarrow> ((nat \<times> nat \<times> nat) \<times> nat \<times> nat) set" where
  "grabbed c gs = (\<Union>g \<in> {g \<in> set gs. CLIENT_BITS (resource g) = c}. combos g)"

lemma GETBIT_BITCLEAR:
  assumes "length ms = 8" "d < 256" "v < 256"
  shows "GETBIT (BITCLEAR ms d) v \<longleftrightarrow> GETBIT ms v \<and> v \<noteq> d" "length (BITCLEAR ms d) = 8"
proof -
  have p: "push_bit n (1 :: Mask) = 2 ^ n" for n by (simp add: push_bit_eq_mult)
  have l: "v mod 32 < LENGTH(32)" "d mod 32 < LENGTH(32)" by simp_all
  have i: "d div 32 < 8" "v div 32 < 8" using assms by simp_all
  have same: "v = d" if "v div 32 = d div 32" "v mod 32 = d mod 32" using that by (metis div_mult_mod_eq)
  show "GETBIT (BITCLEAR ms d) v \<longleftrightarrow> GETBIT ms v \<and> v \<noteq> d"
  proof (cases "v div 32 = d div 32")
    case True
    then show ?thesis
      using assms(1) i same l by (auto simp: GETBIT_def BITCLEAR_def p and_exp_eq_0_iff bit_and_iff bit_not_iff)
  next
    case False
    then show ?thesis by (auto simp: GETBIT_def BITCLEAR_def)
  qed
  show "length (BITCLEAR ms d) = 8" using assms(1) by (simp add: BITCLEAR_def)
qed

lemma GETBIT_full: "v < 256 \<Longrightarrow> GETBIT (replicate 8 (NOT 0)) v"
proof -
  assume v: "v < 256"
  have p: "push_bit n (1 :: Mask) = 2 ^ n" for n by (simp add: push_bit_eq_mult)
  have "bit (- 1 :: Mask) (v mod 32)" by simp
  then show ?thesis using v by (simp add: GETBIT_def p)
qed

text \<open>Taking one value out of a mask.\<close>

lemma DeleteDetailFromMask_claims:
  assumes "detail_ok exc d" "exact d = exc" "v < 256" "DeleteDetailFromMask mem (pMask d) v = Some ms"
  shows "detail_ok exc (d\<lparr>pMask := Some ms\<rparr>)" "claims exc (d\<lparr>pMask := Some ms\<rparr>) = claims exc d - {v}"
proof -
  define base where "base = (case pMask d of Some ms \<Rightarrow> ms | None \<Rightarrow> replicate 8 (NOT 0))"
  have len: "length base = 8" using assms(1) by (auto simp: base_def detail_ok_def split: option.splits)
  have ms: "ms = BITCLEAR base v" using assms(4) by (simp add: DeleteDetailFromMask_def base_def split: if_splits)
  have bit: "GETBIT ms u \<longleftrightarrow> (case pMask d of None \<Rightarrow> True | Some ms \<Rightarrow> GETBIT ms u) \<and> u \<noteq> v" if "u < 256" for u
    unfolding ms GETBIT_BITCLEAR(1) [OF len assms(3) that] using GETBIT_full [OF that] by (auto simp: base_def split: option.splits)
  show "detail_ok exc (d\<lparr>pMask := Some ms\<rparr>)" using assms(2) GETBIT_BITCLEAR(2) [OF len assms(3)] assms(3) by (simp add: detail_ok_def ms)
  show "claims exc (d\<lparr>pMask := Some ms\<rparr>) = claims exc d - {v}" using bit assms(2) by (auto simp: claims_def)
qed

lemma DeleteDetailFromMask_None: "DeleteDetailFromMask mem p v = None \<longleftrightarrow> \<not> mem"
  by (simp add: DeleteDetailFromMask_def)

section \<open>The relations between grabs\<close>

lemma supersedes_subset:
  assumes "detail_ok exc a" "detail_ok exc b" "DetailSupersedesSecond a b exc"
  shows "claims exc b \<subseteq> claims exc a"
  using assms by (auto simp: DetailSupersedesSecond_def IsInGrabMask_def IdenticalExactDetails_def claims_def detail_ok_def
      split: if_splits option.splits)

lemma overlap_supersedes:
  assumes "detail_ok exc a" "detail_ok exc b" "pMask a = None" "claims exc a \<inter> claims exc b \<noteq> {}"
  shows "DetailSupersedesSecond a b exc \<or> DetailSupersedesSecond b a exc"
  using assms by (auto simp: DetailSupersedesSecond_def IsInGrabMask_def IdenticalExactDetails_def claims_def detail_ok_def
      split: if_splits option.splits)

lemma GrabMatchesSecond_iff:
  "GrabMatchesSecond a b \<longleftrightarrow> kind a = kind b \<and>
     (DetailSupersedesSecond (modifiersDetail a) (modifiersDetail b) AnyModifier \<or>
      DetailSupersedesSecond (modifiersDetail b) (modifiersDetail a) AnyModifier) \<and>
     (DetailSupersedesSecond (detail a) (detail b) AnyKey \<or> DetailSupersedesSecond (detail b) (detail a) AnyKey)"
  by (auto simp: GrabMatchesSecond_def GrabSupersedesSecond_def kind_def)

lemma GrabMatchesSecond_sym: "GrabMatchesSecond a b = GrabMatchesSecond b a"
  by (auto simp: GrabMatchesSecond_iff)

lemma GrabSupersedesSecond_iff:
  "GrabSupersedesSecond a b \<longleftrightarrow> DetailSupersedesSecond (modifiersDetail a) (modifiersDetail b) AnyModifier \<and>
     DetailSupersedesSecond (detail a) (detail b) AnyKey"
  by (simp add: GrabSupersedesSecond_def)

text \<open>Grabs that do not match claim no combination in common.\<close>

lemma no_match_disjoint:
  assumes "grab_ok g" "grab_ok m" "plain m" "\<not> GrabMatchesSecond g m"
  shows "combos g \<inter> combos m = {}"
proof (rule ccontr)
  assume "combos g \<inter> combos m \<noteq> {}"
  then have "kind m = kind g" "claims AnyModifier (modifiersDetail m) \<inter> claims AnyModifier (modifiersDetail g) \<noteq> {}"
    "claims AnyKey (detail m) \<inter> claims AnyKey (detail g) \<noteq> {}"
    by (auto simp: combos_def)
  then show False
    using assms overlap_supersedes [of AnyModifier "modifiersDetail m" "modifiersDetail g"]
      overlap_supersedes [of AnyKey "detail m" "detail g"]
    by (auto simp: GrabMatchesSecond_iff grab_ok_def plain_def)
qed

lemma superseded_subset:
  assumes "grab_ok g" "grab_ok m" "kind g = kind m" "GrabSupersedesSecond m g"
  shows "combos g \<subseteq> combos m"
  using assms supersedes_subset [of AnyModifier "modifiersDetail m" "modifiersDetail g"] supersedes_subset [of AnyKey "detail m" "detail g"]
  by (auto simp: combos_def GrabSupersedesSecond_iff grab_ok_def)


section \<open>Subtracting a grab\<close>

lemma set_mask_resource [simp]: "resource (set_mask up g) = resource g"
  by (auto simp: set_mask_def split: prod.splits mask_slot.splits)

lemma fold_set_mask_other: "resource g \<notin> fst ` set ups \<Longrightarrow> fold set_mask ups g = g"
  by (induction ups) (auto simp: set_mask_def)

lemma fold_set_mask_resource [simp]: "resource (fold set_mask ups g) = resource g"
  by (induction ups arbitrary: g) auto

text \<open>A mask update takes the rows or the columns of one value out of the rectangle a grab claims.\<close>

lemma UPDATE_correct:
  fixes g :: GrabRec
  defines "d \<equiv> (\<lambda>slot. case slot of DetailMask \<Rightarrow> detail g | ModifiersMask \<Rightarrow> modifiersDetail g)"
    and "exc \<equiv> (\<lambda>slot. case slot of DetailMask \<Rightarrow> AnyKey | ModifiersMask \<Rightarrow> AnyModifier)"
  assumes "grab_ok g" "exact (d slot) = exc slot" "v < 256" "UPDATE ok k n g slot v = (True, k', n', ds, as, us)"
  shows "ds = [] \<and> as = [] \<and> n' = n \<and> fst ` set us = {resource g} \<and> grab_ok (fold set_mask us g) \<and>
    combos (fold set_mask us g) = combos g - (case slot of DetailMask \<Rightarrow> UNIV \<times> UNIV \<times> {v} | ModifiersMask \<Rightarrow> UNIV \<times> {v} \<times> UNIV)"
proof -
  obtain ms where ms: "DeleteDetailFromMask (ok k) (pMask (d slot)) v = Some ms" and out: "ds = []" "as = []" "n' = n" "us = [(resource g, slot, ms)]"
    using assms(6) by (cases slot) (auto simp: UPDATE_def d_def split: option.splits)
  have ok: "detail_ok (exc slot) (d slot)" using assms(3) by (cases slot) (simp_all add: grab_ok_def d_def exc_def)
  note c = DeleteDetailFromMask_claims [OF ok assms(4,5) ms]
  show ?thesis
    using out c assms(3) by (cases slot) (auto simp: set_mask_def grab_ok_def combos_def kind_def d_def exc_def)
qed

lemma split_grab_correct:
  fixes g :: GrabRec
  assumes "grab_ok g" "exact (modifiersDetail g) = AnyModifier" "exact (detail m) < 256" "exact (detail m) \<noteq> AnyKey"
    "exact (modifiersDetail m) < 256" "pMask (detail m) = None"
    "split_grab core fake ok opt k n g m = (True, k', n', ds, as, us)"
  shows "ds = [] \<and> us = [] \<and> (\<exists>new. as = [new] \<and> grab_ok new \<and> resource new = fake (CLIENT_ID (resource g)) n \<and>
    combos new = {kind g} \<times> (claims AnyModifier (modifiersDetail g) - {exact (modifiersDetail m)}) \<times> {exact (detail m)})"
proof -
  let ?d = "\<lparr>exact = AnyModifier, pMask = pMask (modifiersDetail g)\<rparr>"
  have ok: "detail_ok AnyModifier ?d" and same: "claims AnyModifier ?d = claims AnyModifier (modifiersDetail g)"
    using assms(1,2) by (simp_all add: grab_ok_def detail_ok_def claims_def)
  obtain new0 ms where new0: "CreateGrab core (ok k) (fake (CLIENT_ID (resource g)) n) (device g) (eventMask g) (ownerEvents g)
        (keyboardMode g) (pointerMode g) (modifierDevice g) AnyModifier (gtype g) (exact (detail m)) (confineTo g) (cursor g) = Some new0"
    and ms: "DeleteDetailFromMask (ok (k + 1)) (pMask (modifiersDetail g)) (exact (modifiersDetail m)) = Some ms"
    and out: "ds = []" "us = []" "as = [new0\<lparr>modifiersDetail := (modifiersDetail new0)\<lparr>pMask := Some ms\<rparr>\<rparr>]"
    using assms(7) by (auto simp: split_grab_def Let_def split: option.splits if_splits)
  have fields: "resource new0 = fake (CLIENT_ID (resource g)) n" "kind new0 = kind g" "modifiersDetail new0 = \<lparr>exact = AnyModifier, pMask = None\<rparr>"
    "detail new0 = \<lparr>exact = exact (detail m), pMask = None\<rparr>"
    using new0 by (auto simp: CreateGrab_def kind_def split: if_splits)
  have "DeleteDetailFromMask (ok (k + 1)) (pMask ?d) (exact (modifiersDetail m)) = Some ms" using ms by simp
  note c = DeleteDetailFromMask_claims [OF ok _ assms(5) this, simplified, unfolded same]
  have "grab_ok (new0\<lparr>modifiersDetail := (modifiersDetail new0)\<lparr>pMask := Some ms\<rparr>\<rparr>)"
    using c fields assms(3) by (simp add: grab_ok_def detail_ok_def)
  moreover have "combos (new0\<lparr>modifiersDetail := (modifiersDetail new0)\<lparr>pMask := Some ms\<rparr>\<rparr>) =
      {kind g} \<times> (claims AnyModifier (modifiersDetail g) - {exact (modifiersDetail m)}) \<times> {exact (detail m)}"
    using c fields assms(4) by (simp add: combos_def kind_def claims_def)
  ultimately show ?thesis using out fields by simp
qed

text \<open>What is left of one grab: itself, unless deleted, with its new masks, and the grabs added for it.\<close>

definition left_of :: "XID list \<Rightarrow> GrabRec list \<Rightarrow> (XID \<times> mask_slot \<times> Mask list) list \<Rightarrow> GrabRec \<Rightarrow> ((nat \<times> nat \<times> nat) \<times> nat \<times> nat) set" where
  "left_of ds as us g = (if resource g \<in> set ds then {} else combos (fold set_mask us g)) \<union> (\<Union>a \<in> set as. combos a)"

lemma supersedes_exact: "exact a \<noteq> exc \<Longrightarrow> DetailSupersedesSecond a b exc \<longleftrightarrow> exact b \<noteq> exc \<and> exact a = exact b"
  by (auto simp: DetailSupersedesSecond_def IsInGrabMask_def IdenticalExactDetails_def)

lemma supersedes_any: "exact a = exc \<Longrightarrow> pMask a = None \<Longrightarrow> DetailSupersedesSecond a b exc"
  by (simp add: DetailSupersedesSecond_def IsInGrabMask_def)

lemma comparable:
  "pMask m = None \<Longrightarrow> exact g \<noteq> exc \<or> exact m = exc \<Longrightarrow>
     DetailSupersedesSecond g m exc \<or> DetailSupersedesSecond m g exc \<Longrightarrow> DetailSupersedesSecond m g exc"
  using supersedes_exact [of g exc m] supersedes_exact [of m exc g] supersedes_any [of m exc g] by auto

text \<open>The branches of the plan for a grab that is hit but not covered.\<close>

lemma plan_part_correct:
  fixes g m :: GrabRec
  assumes g: "grab_ok g" and m: "grab_ok m" "plain m" and match: "GrabMatchesSecond g m" and part: "\<not> GrabSupersedesSecond m g"
    and run: "(if exact (detail g) = AnyKey \<and> exact (modifiersDetail g) \<noteq> AnyModifier then UPDATE ok k n g DetailMask (exact (detail m))
      else if exact (modifiersDetail g) = AnyModifier \<and> exact (detail g) \<noteq> AnyKey then UPDATE ok k n g ModifiersMask (exact (modifiersDetail m))
      else if exact (detail m) \<noteq> AnyKey \<and> exact (modifiersDetail m) \<noteq> AnyModifier then
        (case UPDATE ok k n g DetailMask (exact (detail m)) of
           (s1, k1, n1, d1, a1, u1) \<Rightarrow>
             (case split_grab core fake ok opt k1 n1 g m of
                (s2, k2, n2, d2, a2, u2) \<Rightarrow> (s1 \<and> s2, k2, n2, d1 @ d2, a1 @ a2, u1 @ u2)))
      else if exact (detail m) = AnyKey then UPDATE ok k n g ModifiersMask (exact (modifiersDetail m))
      else UPDATE ok k n g DetailMask (exact (detail m))) = (True, k', n', ds, as, us)"
  shows "ds = [] \<and> fst ` set us = {resource g} \<and> grab_ok (fold set_mask us g) \<and>
    (\<forall>a \<in> set as. grab_ok a \<and> (\<exists>i. resource a = fake (CLIENT_ID (resource g)) i)) \<and> left_of ds as us g = combos g - combos m"
proof -
  let ?gm = "modifiersDetail g" and ?gd = "detail g" and ?mm = "modifiersDetail m" and ?md = "detail m"
  have kind: "kind g = kind m" and rel: "DetailSupersedesSecond ?gm ?mm AnyModifier \<or> DetailSupersedesSecond ?mm ?gm AnyModifier"
      "DetailSupersedesSecond ?gd ?md AnyKey \<or> DetailSupersedesSecond ?md ?gd AnyKey"
    using match by (auto simp: GrabMatchesSecond_iff)
  have mm: "pMask ?mm = None" "detail_ok AnyModifier ?mm" and md: "pMask ?md = None" "detail_ok AnyKey ?md"
    and gg: "detail_ok AnyModifier ?gm" "detail_ok AnyKey ?gd" using m g by (simp_all add: plain_def grab_ok_def)
  have no: "\<not> (DetailSupersedesSecond ?mm ?gm AnyModifier \<and> DetailSupersedesSecond ?md ?gd AnyKey)"
    using part by (simp add: GrabSupersedesSecond_iff)
  have em: "exact ?mm \<noteq> AnyModifier \<Longrightarrow> exact ?mm < 256" "exact ?mm \<noteq> AnyModifier \<Longrightarrow> claims AnyModifier ?mm = {exact ?mm}"
    and ed: "exact ?md \<noteq> AnyKey \<Longrightarrow> exact ?md < 256" "exact ?md \<noteq> AnyKey \<Longrightarrow> claims AnyKey ?md = {exact ?md}"
    using mm md by (auto simp: detail_ok_def claims_def)
  note cmods = comparable [OF mm(1) _ rel(1)] and cdet = comparable [OF md(1) _ rel(2)]
  have row: "left_of [] [] us g = combos g - combos m"
    if "exact ?md \<noteq> AnyKey" "DetailSupersedesSecond ?mm ?gm AnyModifier" "combos (fold set_mask us g) = combos g - UNIV \<times> UNIV \<times> {exact ?md}" for us
    using supersedes_subset [OF mm(2) gg(1) that(2)] that(3) ed(2) [OF that(1)] kind by (auto simp: left_of_def combos_def)
  have col: "left_of [] [] us g = combos g - combos m"
    if "exact ?mm \<noteq> AnyModifier" "DetailSupersedesSecond ?md ?gd AnyKey" "combos (fold set_mask us g) = combos g - UNIV \<times> {exact ?mm} \<times> UNIV" for us
    using supersedes_subset [OF md(2) gg(2) that(2)] that(3) em(2) [OF that(1)] kind by (auto simp: left_of_def combos_def)
  consider (A) "exact ?gd = AnyKey" "exact ?gm \<noteq> AnyModifier" | (B) "exact ?gm = AnyModifier" "exact ?gd \<noteq> AnyKey"
    | (C) "exact ?gd = AnyKey" "exact ?gm = AnyModifier" "exact ?md \<noteq> AnyKey" "exact ?mm \<noteq> AnyModifier"
    | (D) "exact ?gd = AnyKey" "exact ?gm = AnyModifier" "exact ?md = AnyKey"
    | (E) "exact ?gd = AnyKey" "exact ?gm = AnyModifier" "exact ?md \<noteq> AnyKey" "exact ?mm = AnyModifier"
    using no cmods cdet by blast
  then show ?thesis
  proof cases
    case A
    have sup: "DetailSupersedesSecond ?mm ?gm AnyModifier" using cmods A(2) by blast
    then have k: "exact ?md \<noteq> AnyKey" using no supersedes_any [OF _ md(1)] by blast
    have "UPDATE ok k n g DetailMask (exact ?md) = (True, k', n', ds, as, us)" using run A by simp
    from UPDATE_correct [where slot = DetailMask, simplified, OF g A(1) ed(1) [OF k] this] row [OF k sup] show ?thesis by simp
  next
    case B
    have sup: "DetailSupersedesSecond ?md ?gd AnyKey" using cdet B(2) by blast
    then have k: "exact ?mm \<noteq> AnyModifier" using no supersedes_any [OF _ mm(1)] by blast
    have "UPDATE ok k n g ModifiersMask (exact ?mm) = (True, k', n', ds, as, us)" using run B by simp
    from UPDATE_correct [where slot = ModifiersMask, simplified, OF g B(1) em(1) [OF k] this] col [OF k sup] show ?thesis by simp
  next
    case C
    obtain k1 n1 d1 a1 u1 k2 n2 d2 a2 u2 where up: "UPDATE ok k n g DetailMask (exact ?md) = (True, k1, n1, d1, a1, u1)"
      and sp: "split_grab core fake ok opt k1 n1 g m = (True, k2, n2, d2, a2, u2)" and out: "ds = d1 @ d2" "as = a1 @ a2" "us = u1 @ u2"
      using run C by (auto split: prod.splits)
    note u = UPDATE_correct [where slot = DetailMask, simplified, OF g C(1) ed(1) [OF C(3)] up]
    obtain new where new: "d2 = []" "u2 = []" "a2 = [new]" "grab_ok new" "resource new = fake (CLIENT_ID (resource g)) n1"
      "combos new = {kind g} \<times> (claims AnyModifier ?gm - {exact ?mm}) \<times> {exact ?md}"
      using split_grab_correct [OF g C(2) ed(1) [OF C(3)] C(3) em(1) [OF C(4)] md(1) sp] by blast
    have "exact ?md \<in> claims AnyKey ?gd" 
    proof -
      have "DetailSupersedesSecond ?gd ?md AnyKey" using rel(2) supersedes_exact [OF C(3), of ?gd] C(1) by blast
      then show ?thesis using supersedes_subset [OF gg(2) md(2)] ed(2) [OF C(3)] by blast
    qed
    then have "left_of ds as us g = combos g - combos m"
      using u new out em(2) [OF C(4)] ed(2) [OF C(3)] kind by (auto simp: left_of_def combos_def)
    then show ?thesis using u new out by auto
  next
    case D
    have sup: "DetailSupersedesSecond ?md ?gd AnyKey" using supersedes_any [OF D(3) md(1)] .
    then have k: "exact ?mm \<noteq> AnyModifier" using no supersedes_any [OF _ mm(1)] by blast
    have "UPDATE ok k n g ModifiersMask (exact ?mm) = (True, k', n', ds, as, us)" using run D by simp
    from UPDATE_correct [where slot = ModifiersMask, simplified, OF g D(2) em(1) [OF k] this] col [OF k sup] show ?thesis by simp
  next
    case E
    have sup: "DetailSupersedesSecond ?mm ?gm AnyModifier" using supersedes_any [OF E(4) mm(1)] .
    have "UPDATE ok k n g DetailMask (exact ?md) = (True, k', n', ds, as, us)" using run E by simp
    from UPDATE_correct [where slot = DetailMask, simplified, OF g E(1) ed(1) [OF E(3)] this] row [OF E(3) sup] show ?thesis by simp
  qed
qed

lemma plan_grab_correct:
  fixes g m :: GrabRec
  assumes g: "grab_ok g" and m: "grab_ok m" "plain m" and run: "plan_grab core fake ok opt m k n g = (True, k', n', ds, as, us)"
  shows "set ds \<subseteq> {resource g} \<and> fst ` set us \<subseteq> {resource g} \<and> grab_ok (fold set_mask us g) \<and>
    (\<forall>a \<in> set as. grab_ok a \<and> (\<exists>i. resource a = fake (CLIENT_ID (resource g)) i)) \<and>
    (CLIENT_BITS (resource g) \<noteq> CLIENT_BITS (resource m) \<longrightarrow> ds = [] \<and> as = [] \<and> us = []) \<and>
    (CLIENT_BITS (resource g) = CLIENT_BITS (resource m) \<longrightarrow> left_of ds as us g = combos g - combos m)"
proof -
  let ?gm = "modifiersDetail g" and ?gd = "detail g" and ?mm = "modifiersDetail m" and ?md = "detail m"
  note plan = run [unfolded plan_grab_def]
  consider (other) "CLIENT_BITS (resource g) \<noteq> CLIENT_BITS (resource m)"
    | (apart) "CLIENT_BITS (resource g) = CLIENT_BITS (resource m)" "\<not> GrabMatchesSecond g m"
    | (inside) "CLIENT_BITS (resource g) = CLIENT_BITS (resource m)" "GrabMatchesSecond g m" "GrabSupersedesSecond m g"
    | (part) "CLIENT_BITS (resource g) = CLIENT_BITS (resource m)" "GrabMatchesSecond g m" "\<not> GrabSupersedesSecond m g"
    by blast
  then show ?thesis
  proof cases
    case other
    then show ?thesis using plan g by simp
  next
    case apart
    then have "ds = []" "as = []" "us = []" using plan by simp_all
    then show ?thesis using g no_match_disjoint [OF g m apart(2)] by (auto simp: left_of_def)
  next
    case inside
    then have "ds = [resource g]" "as = []" "us = []" using plan by simp_all
    then show ?thesis using g superseded_subset [OF g m(1) _ inside(3)] inside(1,2) by (auto simp: left_of_def GrabMatchesSecond_iff)
  next
    case part
    then have "(CLIENT_BITS (resource g) \<noteq> CLIENT_BITS (resource m) \<or> \<not> GrabMatchesSecond g m) = False" "GrabSupersedesSecond m g = False"
      by simp_all
    from plan_part_correct [OF g m part(2,3) plan [unfolded this if_False]] part(1) show ?thesis by auto
  qed
qed


text \<open>The plan for the whole list.\<close>

lemma plan_all_correct:
  fixes m :: GrabRec
  assumes m: "grab_ok m" "plain m"
  shows "distinct (map resource gs) \<Longrightarrow> \<forall>g \<in> set gs. grab_ok g \<Longrightarrow>
    plan_all core fake ok opt m k n gs = (True, k', n', ds, as, us) \<Longrightarrow>
    set ds \<subseteq> resource ` set gs \<and> fst ` set us \<subseteq> resource ` set gs \<and> (\<forall>g \<in> set gs. grab_ok (fold set_mask us g)) \<and>
    (\<forall>a \<in> set as. grab_ok a \<and> (\<exists>r i. CLIENT_BITS r = CLIENT_BITS (resource m) \<and> resource a = fake (CLIENT_ID r) i)) \<and>
    (\<forall>g \<in> set gs. CLIENT_BITS (resource g) \<noteq> CLIENT_BITS (resource m) \<longrightarrow> resource g \<notin> set ds \<and> fold set_mask us g = g) \<and>
    (\<Union>g \<in> {g \<in> set gs. CLIENT_BITS (resource g) = CLIENT_BITS (resource m) \<and> resource g \<notin> set ds}. combos (fold set_mask us g)) \<union>
      (\<Union>a \<in> set as. combos a) = grabbed (CLIENT_BITS (resource m)) gs - combos m"
proof (induction gs arbitrary: k n k' n' ds as us)
  case Nil
  then show ?case by (simp add: grabbed_def)
next
  case (Cons g gs)
  let ?c = "CLIENT_BITS (resource m)"
  obtain k1 n1 d1 a1 u1 d2 a2 u2 where one: "plan_grab core fake ok opt m k n g = (True, k1, n1, d1, a1, u1)"
    and rest: "plan_all core fake ok opt m k1 n1 gs = (True, k', n', d2, a2, u2)" and out: "ds = d1 @ d2" "as = a1 @ a2" "us = u1 @ u2"
    using Cons.prems(3) by (auto split: prod.splits if_splits)
  have g: "grab_ok g" "distinct (map resource gs)" "\<forall>g \<in> set gs. grab_ok g" and new: "resource g \<notin> resource ` set gs"
    using Cons.prems(1,2) by auto
  note p = plan_grab_correct [OF g(1) m one] and ih = Cons.IH [OF g(2,3) rest]
  have hd: "fold set_mask us g = fold set_mask u1 g" "resource g \<in> set ds \<longleftrightarrow> resource g \<in> set d1"
    using ih new fold_set_mask_other [of "fold set_mask u1 g" u2] by (auto simp: out)
  have tl: "fold set_mask us h = fold set_mask u2 h" "resource h \<in> set ds \<longleftrightarrow> resource h \<in> set d2" if "h \<in> set gs" for h
  proof -
    have "resource h \<noteq> resource g" using that new by (metis image_eqI)
    then have "resource h \<notin> fst ` set u1" "resource h \<notin> set d1" using p by blast+
    then show "fold set_mask us h = fold set_mask u2 h" "resource h \<in> set ds \<longleftrightarrow> resource h \<in> set d2"
      using fold_set_mask_other [of h u1] by (simp_all add: out)
  qed
  define left2 where "left2 = (\<Union>h \<in> {h \<in> set gs. CLIENT_BITS (resource h) = ?c \<and> resource h \<notin> set d2}. combos (fold set_mask u2 h))"
  have rows: "(\<Union>h \<in> {h \<in> set (g # gs). CLIENT_BITS (resource h) = ?c \<and> resource h \<notin> set ds}. combos (fold set_mask us h)) =
      (if CLIENT_BITS (resource g) = ?c \<and> resource g \<notin> set d1 then combos (fold set_mask u1 g) else {}) \<union> left2"
    using hd tl unfolding left2_def by auto
  have grab: "grabbed ?c (g # gs) = (if CLIENT_BITS (resource g) = ?c then combos g else {}) \<union> grabbed ?c gs"
    by (auto simp: grabbed_def)
  have ih_set: "left2 \<union> (\<Union>a \<in> set a2. combos a) = grabbed ?c gs - combos m" using ih unfolding left2_def by blast
  have all: "(\<Union>h \<in> {h \<in> set (g # gs). CLIENT_BITS (resource h) = ?c \<and> resource h \<notin> set ds}. combos (fold set_mask us h)) \<union>
      (\<Union>a \<in> set as. combos a) = grabbed ?c (g # gs) - combos m"
  proof (cases "CLIENT_BITS (resource g) = ?c")
    case True
    then have "left_of d1 a1 u1 g = combos g - combos m" using p by blast
    then show ?thesis unfolding rows grab using ih_set True by (auto simp: left_of_def out split: if_splits)
  next
    case False
    then have "a1 = []" using p by blast
    then show ?thesis unfolding rows grab using ih_set False by (simp add: out)
  qed
  have a1: "\<exists>r i. CLIENT_BITS r = ?c \<and> resource a = fake (CLIENT_ID r) i" if "a \<in> set a1" for a
    using p that by (cases "CLIENT_BITS (resource g) = ?c") auto
  have "\<forall>a \<in> set as. grab_ok a \<and> (\<exists>r i. CLIENT_BITS r = ?c \<and> resource a = fake (CLIENT_ID r) i)"
    using p ih a1 by (auto simp: out)
  moreover have "set ds \<subseteq> resource ` set (g # gs)" "fst ` set us \<subseteq> resource ` set (g # gs)"
    using p ih by (auto simp: out)
  moreover have "\<forall>h \<in> set (g # gs). grab_ok (fold set_mask us h)" using p ih hd tl by auto
  moreover have "\<forall>h \<in> set (g # gs). CLIENT_BITS (resource h) \<noteq> ?c \<longrightarrow> resource h \<notin> set ds \<and> fold set_mask us h = h"
    using p ih hd tl by auto
  ultimately show ?case using all by blast
qed


lemma fold_DeletePassiveGrab:
  "fold DeletePassiveGrab ds w = w\<lparr>passiveGrabs := filter (\<lambda>g. resource g \<notin> set ds) (passiveGrabs w)\<rparr>"
  by (induction ds arbitrary: w) (auto simp: DeletePassiveGrab_def intro!: filter_cong)

lemma fold_prepend: "fold (\<lambda>g gs. g # gs) as gs = rev as @ gs"
  by (induction as arbitrary: gs) auto

lemma fold_map_set_mask: "fold (\<lambda>up. map (set_mask up)) us gs = map (fold set_mask us) gs"
  by (induction us arbitrary: gs) (auto simp: comp_def)

definition grabs_ok :: "GrabRec list \<Rightarrow> bool" where
  "grabs_ok gs \<longleftrightarrow> distinct (map resource gs) \<and> (\<forall>g \<in> set gs. grab_ok g)"

text \<open>What \<^verbatim>\<open>FakeClientID\<close> promises: an unused identifier of the client.\<close>

definition fresh_ids :: "(nat \<Rightarrow> nat \<Rightarrow> XID) \<Rightarrow> GrabRec list \<Rightarrow> bool" where
  "fresh_ids fake gs \<longleftrightarrow> (\<forall>r i. CLIENT_BITS (fake (CLIENT_ID r) i) = CLIENT_BITS r) \<and> (\<forall>c i. fake c i \<notin> resource ` set gs)"

lemma delete_run:
  fixes w :: grab_window and m :: GrabRec
  assumes "grabs_ok (passiveGrabs w)" "grab_ok m" "plain m" "fresh_ids fake (passiveGrabs w)"
    "DeletePassiveGrabFromList core fake ok k n m w = (True, k', n', w')"
  shows "has_optional w' = has_optional w \<and> (\<forall>g \<in> set (passiveGrabs w'). grab_ok g) \<and>
    resource ` set (passiveGrabs w') \<subseteq> resource ` set (passiveGrabs w) \<union> range (\<lambda>(c, i). fake c i) \<and>
    (\<forall>c. grabbed c (passiveGrabs w') = grabbed c (passiveGrabs w) - (if c = CLIENT_BITS (resource m) then combos m else {}))"
proof (cases "passiveGrabs w = []")
  case True
  then show ?thesis using assms(5) by (auto simp: DeletePassiveGrabFromList_def grabbed_def)
next
  case False
  let ?gs = "passiveGrabs w" and ?c = "CLIENT_BITS (resource m)"
  obtain ds as us where plan: "plan_all core fake ok (has_optional w) m (k + 4) n ?gs = (True, k', n', ds, as, us)"
    and w': "w' = w\<lparr>passiveGrabs := map (fold set_mask us) (rev as @ filter (\<lambda>g. resource g \<notin> set ds) ?gs)\<rparr>"
    using assms(5) False by (auto simp: DeletePassiveGrabFromList_def fold_DeletePassiveGrab fold_prepend fold_map_set_mask Let_def
        split: if_splits prod.splits)
  have d: "distinct (map resource ?gs)" "\<forall>g \<in> set ?gs. grab_ok g" using assms(1) by (simp_all add: grabs_ok_def)
  note p = plan_all_correct [OF assms(2,3) d plan]
  note ups = p [THEN conjunct2, THEN conjunct1] and adds = p [THEN conjunct2, THEN conjunct2, THEN conjunct2, THEN conjunct1]
    and keep = p [THEN conjunct2, THEN conjunct2, THEN conjunct2, THEN conjunct2, THEN conjunct1]
  have new: "fold set_mask us a = a" "CLIENT_BITS (resource a) = ?c" "grab_ok a" "resource a \<in> range (\<lambda>(c, i). fake c i)" if mem: "a \<in> set as" for a
  proof -
    obtain r i where a: "CLIENT_BITS r = ?c" "resource a = fake (CLIENT_ID r) i" "grab_ok a" using bspec [OF adds mem] by (elim exE conjE)
    then show "CLIENT_BITS (resource a) = ?c" "grab_ok a" "resource a \<in> range (\<lambda>(c, i). fake c i)"
      using assms(4) by (auto simp: fresh_ids_def)
    have "resource a \<notin> resource ` set ?gs" using a(2) assms(4) by (simp add: fresh_ids_def)
    then have "resource a \<notin> fst ` set us" using ups by blast
    then show "fold set_mask us a = a" by (rule fold_set_mask_other)
  qed
  have set': "set (passiveGrabs w') = set as \<union> fold set_mask us ` {g \<in> set ?gs. resource g \<notin> set ds}"
    using new(1) by (auto simp: w' image_iff)
  have own: "grabbed ?c (passiveGrabs w') = grabbed ?c ?gs - combos m"
  proof -
    have "grabbed ?c (passiveGrabs w') = (\<Union>g \<in> {g \<in> set ?gs. CLIENT_BITS (resource g) = ?c \<and> resource g \<notin> set ds}. combos (fold set_mask us g)) \<union>
        (\<Union>a \<in> set as. combos a)"
      unfolding grabbed_def set' using new(2) by auto
    then show ?thesis using p by simp
  qed
  have others: "grabbed c (passiveGrabs w') = grabbed c ?gs" if other: "c \<noteq> ?c" for c
  proof -
    have "{g \<in> set (passiveGrabs w'). CLIENT_BITS (resource g) = c} = {g \<in> set ?gs. CLIENT_BITS (resource g) = c}"
    proof (intro set_eqI iffI)
      fix g assume "g \<in> {g \<in> set (passiveGrabs w'). CLIENT_BITS (resource g) = c}"
      then obtain h where "h \<in> set ?gs" "g = fold set_mask us h" "CLIENT_BITS (resource g) = c" using new(2) other unfolding set' by auto
      then show "g \<in> {g \<in> set ?gs. CLIENT_BITS (resource g) = c}" using bspec [OF keep, of h] other by simp
    next
      fix g assume g: "g \<in> {g \<in> set ?gs. CLIENT_BITS (resource g) = c}"
      then have "resource g \<notin> set ds" "g = fold set_mask us g" using bspec [OF keep, of g] other by simp_all
      then show "g \<in> {g \<in> set (passiveGrabs w'). CLIENT_BITS (resource g) = c}" using g unfolding set' by blast
    qed
    then show ?thesis by (simp add: grabbed_def)
  qed
  have "resource ` set (passiveGrabs w') \<subseteq> resource ` set ?gs \<union> range (\<lambda>(c, i). fake c i)"
    unfolding set' using new(4) by auto
  moreover have "\<forall>g \<in> set (passiveGrabs w'). grab_ok g" unfolding set' using new(3) p by auto
  ultimately show ?thesis using own others w' by auto
qed

lemma plan_all_memory: "\<exists>k' n' ds as us. plan_all core fake alloc_ok opt m k n gs = (True, k', n', ds, as, us)"
proof (induction gs arbitrary: k n)
  case (Cons g gs)
  have up: "\<exists>ms. UPDATE alloc_ok k n g slot v = (True, Suc k, n, [], [], [(resource g, slot, ms)])" for k n slot v
    by (simp add: UPDATE_def DeleteDetailFromMask_def)
  have split: "fst (split_grab core fake alloc_ok opt k n g m)" for k n
    by (simp add: split_grab_def CreateGrab_def DeleteDetailFromMask_def Let_def)
  have up1: "fst (UPDATE alloc_ok k n g slot v)" for slot v using up [of k n slot v] by (elim exE) simp
  have both: "fst (case UPDATE alloc_ok k n g DetailMask v of (s1, k1, n1, d1, a1, u1) \<Rightarrow>
      (case split_grab core fake alloc_ok opt k1 n1 g m of (s2, k2, n2, d2, a2, u2) \<Rightarrow> (s1 \<and> s2, k2, n2, d1 @ d2, a1 @ a2, u1 @ u2)))" for v
    using up [of k n DetailMask v] split [of "Suc k" n] by (elim exE) (simp add: case_prod_beta)
  have one: "fst (plan_grab core fake alloc_ok opt m k n g)"
    unfolding plan_grab_def using up1 both by simp
  obtain k1 n1 d1 a1 u1 where "plan_grab core fake alloc_ok opt m k n g = (True, k1, n1, d1, a1, u1)"
    using one by (cases "plan_grab core fake alloc_ok opt m k n g") auto
  moreover obtain k2 n2 d2 a2 u2 where "plan_all core fake alloc_ok opt m k1 n1 gs = (True, k2, n2, d2, a2, u2)" using Cons.IH by blast
  ultimately show ?case by simp
qed simp

lemma delete_fails: "DeletePassiveGrabFromList core fake ok k n m w = (False, k', n', w') \<Longrightarrow> w' = w"
  by (auto simp: DeletePassiveGrabFromList_def Let_def split: if_splits prod.splits)

text \<open>C11. Releasing a grab takes exactly its combinations of modifiers and keys from what its client has grabbed on the window - by
  deleting grabs, by exceptions in their masks and by splitting a grab in two - and nothing from any other client. When memory
  runs out in the middle everything stays as it was, and with enough memory it succeeds.\<close>

theorem DeletePassiveGrabFromList_correct:
  assumes "grabs_ok (passiveGrabs w)" "grab_ok m" "plain m" "fresh_ids fake (passiveGrabs w)"
  shows "(case DeletePassiveGrabFromList core fake ok k n m w of
      (False, k', n', w') \<Rightarrow> w' = w
    | (True, k', n', w') \<Rightarrow> \<forall>c. grabbed c (passiveGrabs w') =
        grabbed c (passiveGrabs w) - (if c = CLIENT_BITS (resource m) then combos m else {})) \<and>
    fst (DeletePassiveGrabFromList core fake alloc_ok k n m w)"
proof
  show "case DeletePassiveGrabFromList core fake ok k n m w of (False, k', n', w') \<Rightarrow> w' = w
    | (True, k', n', w') \<Rightarrow> \<forall>c. grabbed c (passiveGrabs w') = grabbed c (passiveGrabs w) - (if c = CLIENT_BITS (resource m) then combos m else {})"
    using delete_run [OF assms] delete_fails by (auto split: prod.splits bool.splits)
  obtain k' n' ds as us where "plan_all core fake alloc_ok (has_optional w) m (k + 4) n (passiveGrabs w) = (True, k', n', ds, as, us)"
    using plan_all_memory by blast
  then show "fst (DeletePassiveGrabFromList core fake alloc_ok k n m w)" by (simp add: DeletePassiveGrabFromList_def Let_def)
qed


lemma grabbed_Cons: "grabbed c (p # gs) = (if CLIENT_BITS (resource p) = c then combos p else {}) \<union> grabbed c gs"
  by (auto simp: grabbed_def)

lemma grabbed_Nil [simp]: "grabbed c [] = {}" by (simp add: grabbed_def)

definition ex_grab :: "XID \<Rightarrow> nat \<Rightarrow> nat \<Rightarrow> GrabRec" where
  "ex_grab i mods key = \<lparr>resource = i, device = 1, ownerEvents = True, keyboardMode = False, pointerMode = False, coreGrab = True,
     coreMods = True, gtype = 2, modifiersDetail = \<lparr>exact = mods, pMask = None\<rparr>, modifierDevice = 1,
     detail = \<lparr>exact = key, pMask = None\<rparr>, confineTo = None, cursor = None, eventMask = 3\<rparr>"

definition ex_window :: grab_window where
  "ex_window = \<lparr>has_optional = True, passiveGrabs = [ex_grab 0x200001 AnyModifier AnyKey]\<rparr>"

definition ex_fake :: "nat \<Rightarrow> nat \<Rightarrow> XID" where
  "ex_fake c i = push_bit 21 (of_nat c)"

lemma ex_fresh: "fresh_ids ex_fake (passiveGrabs ex_window)"
proof -
  have m: "RESOURCE_CLIENT_MASK = push_bit 21 (mask 8)" by (simp add: RESOURCE_CLIENT_MASK_def mask_eq_exp_minus_1)
  have "CLIENT_BITS (ex_fake (CLIENT_ID r) i) = CLIENT_BITS r" for r i
    by (rule bit_word_eqI) (auto simp: ex_fake_def CLIENT_ID_def CLIENT_BITS_def m bit_simps)
  moreover have "\<not> bit (ex_fake c i) 0" for c i by (simp add: ex_fake_def bit_simps)
  then have "ex_fake c i \<noteq> 0x200001" for c i by (metis bit_0 odd_numeral)
  ultimately show ?thesis by (auto simp: fresh_ids_def ex_window_def ex_grab_def)
qed

lemma DeletePassiveGrabFromList_correct_witness:
  "\<exists>k' n' w'. DeletePassiveGrabFromList \<lparr>core_kbd = 1, core_ptr = 2\<rparr> ex_fake alloc_ok 0 0 (ex_grab 0x200002 4 38) ex_window = (True, k', n', w') \<and>
     ((1, 1, 2), 4, 38) \<notin> grabbed 0x200000 (passiveGrabs w') \<and> ((1, 1, 2), 5, 38) \<in> grabbed 0x200000 (passiveGrabs w')"
proof -
  let ?m = "ex_grab 0x200002 4 38" and ?core = "\<lparr>core_kbd = 1, core_ptr = 2\<rparr>"
  have ok: "grabs_ok (passiveGrabs ex_window)" "grab_ok ?m" "plain ?m"
    by (simp_all add: grabs_ok_def grab_ok_def plain_def detail_ok_def ex_window_def ex_grab_def)
  have c: "CLIENT_BITS (resource ?m) = 0x200000" "CLIENT_BITS 0x200001 = 0x200000"
    by (simp_all add: ex_grab_def CLIENT_BITS_def RESOURCE_CLIENT_MASK_def)
  have before: "grabbed 0x200000 (passiveGrabs ex_window) = combos (ex_grab 0x200001 AnyModifier AnyKey)"
    using c(2) by (simp add: grabbed_Cons ex_window_def) (simp add: ex_grab_def)
  have in1: "((1, 1, 2), 5, 38) \<in> combos (ex_grab 0x200001 AnyModifier AnyKey)" "((1, 1, 2), 4, 38) \<in> combos ?m" "((1, 1, 2), 5, 38) \<notin> combos ?m"
    by (simp_all add: combos_def claims_def kind_def ex_grab_def)
  obtain k' n' w' where run: "DeletePassiveGrabFromList ?core ex_fake alloc_ok 0 0 ?m ex_window = (True, k', n', w')"
    and set': "\<forall>c. grabbed c (passiveGrabs w') =
        grabbed c (passiveGrabs ex_window) - (if c = CLIENT_BITS (resource ?m) then combos ?m else {})"
    using DeletePassiveGrabFromList_correct [OF ok ex_fresh, of ?core alloc_ok 0 0]
    by (cases "DeletePassiveGrabFromList ?core ex_fake alloc_ok 0 0 ?m ex_window") auto
  show ?thesis using run set' c(1) before in1 by (intro exI conjI) auto
qed

section \<open>Adding a grab\<close>

lemma identical_combos:
  assumes "grab_ok p" "grab_ok g" "plain p" "GrabsAreIdentical p g"
  shows "combos p = combos g" "plain g"
proof -
  have r: "DetailSupersedesSecond (detail p) (detail g) AnyKey" "DetailSupersedesSecond (detail g) (detail p) AnyKey"
    "DetailSupersedesSecond (modifiersDetail p) (modifiersDetail g) AnyModifier"
    "DetailSupersedesSecond (modifiersDetail g) (modifiersDetail p) AnyModifier" and k: "kind p = kind g"
    using assms(4) by (auto simp: GrabsAreIdentical_def kind_def split: if_splits)
  have "claims AnyKey (detail p) = claims AnyKey (detail g)" "claims AnyModifier (modifiersDetail p) = claims AnyModifier (modifiersDetail g)"
    using r assms(1,2) supersedes_subset by (meson grab_ok_def subset_antisym)+
  then show "combos p = combos g" using k by (simp add: combos_def)
  show "plain g"
    using r(2,4) assms(1-3) supersedes_exact [of "detail g" AnyKey "detail p"] supersedes_exact [of "detail p" AnyKey "detail g"]
      supersedes_exact [of "modifiersDetail g" AnyModifier "modifiersDetail p"] r(1,3)
    by (auto simp: plain_def grab_ok_def detail_ok_def DetailSupersedesSecond_def IsInGrabMask_def IdenticalExactDetails_def
        split: if_splits option.splits)
qed

definition exclusive :: "GrabRec list \<Rightarrow> bool" where
  "exclusive gs \<longleftrightarrow> (\<forall>c d. c \<noteq> d \<longrightarrow> grabbed c gs \<inter> grabbed d gs = {})"

text \<open>Replacing an identical grab changes no claim but those of the new grab itself.\<close>

lemma add_first_step:
  fixes p :: GrabRec and w :: grab_window
  assumes "grabs_ok (passiveGrabs w)" "grab_ok p" "plain p" "fresh_ids fake (passiveGrabs w)"
    "(case List.find (GrabsAreIdentical p) (passiveGrabs w) of None \<Rightarrow> (True, 0, n, w)
      | Some grab \<Rightarrow> DeletePassiveGrabFromList core fake ok 0 n grab w) = (s, k, n', w1)"
    "\<forall>grab \<in> set (passiveGrabs w). GrabMatchesSecond p grab \<longrightarrow> CLIENT_BITS (resource p) = CLIENT_BITS (resource grab)"
  shows "grabbed c (passiveGrabs w) - (if c = CLIENT_BITS (resource p) then combos p else {}) \<subseteq> grabbed c (passiveGrabs w1) \<and>
    grabbed c (passiveGrabs w1) \<subseteq> grabbed c (passiveGrabs w) \<and> (\<forall>g \<in> set (passiveGrabs w1). grab_ok g) \<and>
    resource ` set (passiveGrabs w1) \<subseteq> resource ` set (passiveGrabs w) \<union> range (\<lambda>(c, i). fake c i)"
proof (cases "List.find (GrabsAreIdentical p) (passiveGrabs w)")
  case None
  then show ?thesis using assms(1,5) by (auto simp: grabs_ok_def)
next
  case (Some g)
  then have g: "g \<in> set (passiveGrabs w)" "GrabsAreIdentical p g" by (auto simp: find_Some_iff)
  then have gok: "grab_ok g" using assms(1) by (simp add: grabs_ok_def)
  note same = identical_combos [OF assms(2) gok assms(3) g(2)]
  have "GrabMatchesSecond p g" using g(2) by (auto simp: GrabsAreIdentical_def GrabMatchesSecond_iff kind_def split: if_splits)
  then have bits: "CLIENT_BITS (resource g) = CLIENT_BITS (resource p)" using assms(6) g(1) by simp
  have run: "DeletePassiveGrabFromList core fake ok 0 n g w = (s, k, n', w1)" using assms(5) Some by simp
  show ?thesis
  proof (cases s)
    case True
    then show ?thesis
      using delete_run [OF assms(1) gok same(2) assms(4) run [unfolded True [THEN eqTrueI]]] same(1) bits by auto
  next
    case False
    then have "w1 = w" using delete_fails run by auto
    then show ?thesis using assms(1) by (auto simp: grabs_ok_def)
  qed
qed

text \<open>C12. Adding a grab keeps the grabs of different clients apart. If it overlaps a grab of another client it is refused with BadAccess
  and nothing changes; if it succeeds its combinations are claimed in addition to all claims there were; and if memory runs
  out no claim of any client has been added.\<close>

theorem AddPassiveGrabToList_correct:
  assumes "grabs_ok (passiveGrabs w)" "grab_ok p" "plain p" "fresh_ids fake (passiveGrabs w)" "exclusive (passiveGrabs w)"
    "resource p \<notin> resource ` set (passiveGrabs w)" "\<forall>c i. resource p \<noteq> fake c i"
    "AddPassiveGrabToList core fake ok n p w = (rc, w')"
  shows "exclusive (passiveGrabs w') \<and>
    (\<forall>c. c \<noteq> CLIENT_BITS (resource p) \<and> combos p \<inter> grabbed c (passiveGrabs w) \<noteq> {} \<longrightarrow> rc = BadAccess) \<and>
    (case rc of
       BadAccess \<Rightarrow> w' = w
     | Success \<Rightarrow> \<forall>c. grabbed c (passiveGrabs w') = grabbed c (passiveGrabs w) \<union> (if c = CLIENT_BITS (resource p) then combos p else {})
     | _ \<Rightarrow> \<forall>c. grabbed c (passiveGrabs w') \<subseteq> grabbed c (passiveGrabs w))"
proof (cases "\<exists>grab \<in> set (passiveGrabs w). GrabMatchesSecond p grab \<and> CLIENT_BITS (resource p) \<noteq> CLIENT_BITS (resource grab)")
  case True
  then show ?thesis using assms(5,8) by (simp add: AddPassiveGrabToList_def)
next
  case False
  let ?c = "CLIENT_BITS (resource p)"
  have match: "\<forall>grab \<in> set (passiveGrabs w). GrabMatchesSecond p grab \<longrightarrow> ?c = CLIENT_BITS (resource grab)" using False by blast
  have apart: "combos p \<inter> grabbed c (passiveGrabs w) = {}" if "c \<noteq> ?c" for c
  proof -
    have "combos g \<inter> combos p = {}" if g: "g \<in> set (passiveGrabs w)" "CLIENT_BITS (resource g) = c" for g
      using no_match_disjoint [of g p] assms(1-3) match g \<open>c \<noteq> ?c\<close> GrabMatchesSecond_sym [of g p] by (auto simp: grabs_ok_def)
    then show ?thesis by (auto simp: grabbed_def)
  qed
  obtain s k n' w1 where one: "(case List.find (GrabsAreIdentical p) (passiveGrabs w) of None \<Rightarrow> (True, 0, n, w)
      | Some grab \<Rightarrow> DeletePassiveGrabFromList core fake ok 0 n grab w) = (s, k, n', w1)" by (metis prod_cases4)
  note first = add_first_step [OF assms(1-4) one match]
  define w2 where "w2 = w1\<lparr>has_optional := True, passiveGrabs := p # passiveGrabs w1\<rparr>"
  have "resource ` set (passiveGrabs w1) \<subseteq> resource ` set (passiveGrabs w) \<union> range (\<lambda>(c, i). fake c i)" using first by blast
  then have ids: "resource p \<notin> resource ` set (passiveGrabs w1)" using assms(6,7) by (auto dest!: subsetD)
  have undone: "passiveGrabs (DeletePassiveGrab (resource p) w2) = passiveGrabs w1"
    using ids by (simp add: w2_def DeletePassiveGrab_def filter_id_conv) (metis image_eqI)
  have run: "(rc = BadAlloc \<and> passiveGrabs w' = passiveGrabs w1) \<or> (rc = Success \<and> passiveGrabs w' = p # passiveGrabs w1)"
    using assms(8) False one undone unfolding AddPassiveGrabToList_def by (auto simp: Let_def w2_def split: if_splits)
  have less: "exclusive (passiveGrabs w1)" using assms(5) first unfolding exclusive_def by blast
  have added: "grabbed c (p # passiveGrabs w1) = grabbed c (passiveGrabs w) \<union> (if c = ?c then combos p else {})" for c
    using first [of c] unfolding grabbed_Cons by (cases "c = ?c") auto
  have more: "exclusive (p # passiveGrabs w1)"
    unfolding exclusive_def added
  proof (intro allI impI)
    fix c d :: XID assume "c \<noteq> d"
    moreover have "grabbed c (passiveGrabs w) \<inter> grabbed d (passiveGrabs w) = {}" using assms(5) \<open>c \<noteq> d\<close> by (simp add: exclusive_def)
    ultimately show "(grabbed c (passiveGrabs w) \<union> (if c = ?c then combos p else {})) \<inter>
        (grabbed d (passiveGrabs w) \<union> (if d = ?c then combos p else {})) = {}"
      using apart [of c] apart [of d] by (cases "c = ?c"; cases "d = ?c"; simp; blast)
  qed
  show ?thesis using run apart less more added first by auto
qed


lemma AddPassiveGrabToList_correct_witness:
  "\<exists>w'. AddPassiveGrabToList \<lparr>core_kbd = 1, core_ptr = 2\<rparr> ex_fake alloc_ok 0 (ex_grab 0x400001 4 38) ex_window = (BadAccess, w') \<and>
     exclusive (passiveGrabs w')"
proof -
  let ?p = "ex_grab 0x400001 4 38" and ?core = "\<lparr>core_kbd = 1, core_ptr = 2\<rparr>"
  have ok: "grabs_ok (passiveGrabs ex_window)" "grab_ok ?p" "plain ?p"
    by (simp_all add: grabs_ok_def grab_ok_def plain_def detail_ok_def ex_window_def ex_grab_def)
  have c: "CLIENT_BITS (resource ?p) = 0x400000" "CLIENT_BITS 0x200001 = 0x200000"
    by (simp_all add: ex_grab_def CLIENT_BITS_def RESOURCE_CLIENT_MASK_def)
  have one: "grabbed c (passiveGrabs ex_window) = (if c = 0x200000 then combos (ex_grab 0x200001 AnyModifier AnyKey) else {})" for c
    using c(2) by (simp add: grabbed_Cons ex_window_def) (simp add: ex_grab_def)
  have excl: "exclusive (passiveGrabs ex_window)" unfolding exclusive_def one by auto
  have even: "\<not> bit (ex_fake c i) 0" for c i by (simp add: ex_fake_def bit_simps)
  have res: "resource ?p = 0x400001" by (simp add: ex_grab_def)
  have "0x400001 \<noteq> ex_fake c i" for c i using even [of c i] by (metis bit_0 odd_numeral)
  then have ids: "resource ?p \<notin> resource ` set (passiveGrabs ex_window)" "\<forall>c i. resource ?p \<noteq> ex_fake c i"
    unfolding res by (simp_all add: ex_window_def ex_grab_def)
  have "((1, 1, 2), 4, 38) \<in> combos ?p \<inter> grabbed 0x200000 (passiveGrabs ex_window)"
    unfolding one by (simp add: combos_def claims_def kind_def ex_grab_def)
  then have overlap: "0x200000 \<noteq> CLIENT_BITS (resource ?p) \<and> combos ?p \<inter> grabbed 0x200000 (passiveGrabs ex_window) \<noteq> {}" using c(1) by auto
  obtain rc w' where run: "AddPassiveGrabToList ?core ex_fake alloc_ok 0 ?p ex_window = (rc, w')" by fastforce
  note r = AddPassiveGrabToList_correct [OF ok ex_fresh excl ids run]
  have "rc = BadAccess" using r [THEN conjunct2, THEN conjunct1, rule_format, OF overlap] .
  then show ?thesis using run conjunct1 [OF r] by blast
qed

end
