(* ===== verification/Spec2Isabelle.thy ===== *)
theory Spec2Isabelle
  imports Record_Set Resource_Examples Region_Validate Hash_Table Property_Requests Event_Queue Selections Grabs
begin

text \<open>
  Verification of the core of the Super Sonic X server.

  The repository is an X server in C. The build (\<^verbatim>\<open>meson.build\<close>) takes the device-independent server from
  the directories at the top of the tree: \<^verbatim>\<open>dix/\<close> (clients, requests, windows, resources), \<^verbatim>\<open>mi/\<close> (the
  machine-independent drawing and input layer), \<^verbatim>\<open>os/\<close>, \<^verbatim>\<open>Xext/\<close>, \<^verbatim>\<open>record/\<close>, \<^verbatim>\<open>render/\<close> and so on. This
  development models the data structures and protocol state of that layer, each operation as the
  code has it, and proves what the rest of the server relies on. Paths below are under \<^verbatim>\<open>src/\<close>.

  \<^bold>\<open>How C becomes HOL.\<close>
  \<^item> A struct is a record, an enum a datatype, a linked list a list, a pointer that can be NULL an
    option; static variables are a record of state that operations take and return.
  \<^item> Integers keep their width where it matters: identifiers, atoms' masks, times and event masks are
    words of 32 bits, bit vectors words of 64, coordinates are integers within the bounds that the
    theorems state. Conversions that change a value (\<^verbatim>\<open>int\<close> to unsigned, \<^verbatim>\<open>CARD8\<close> to \<^verbatim>\<open>char\<close>) are written out.
  \<^item> Memory is an oracle from the number of an allocation within a call to whether it succeeds, so every
    out-of-memory path is a branch. What is freed is a list, where the theorems speak of it.
  \<^item> A request handler returns its status, the client and the server; replies, events and callbacks are
    outputs, in order. Error codes and length checks are those of theory \<open>Protocol\<close>.
  \<^item> A loop is structural recursion or a \<open>function\<close> with its measure; the two loops whose end depends on
    the state, the search for a bit and the processing of events, are \<open>function\<close> on a measure and
    \<open>partial_function (option)\<close> with the theorem that it returns. No definition uses fuel.

  \<^bold>\<open>The parts.\<close>
  \<^item> \<open>Ssx_Prelude\<close>: integer types, the allocation oracle, lemmas on lists and words, and the locale
    \<open>stable_invariant\<close> (what every step keeps, every run keeps), interpreted for the servers of
    properties, selections and events.
  \<^item> \<open>Record_Set\<close> (\<^verbatim>\<open>record/set.c\<close>): sets of numbers as bit vectors or interval lists behind a table of
    operations; \<^verbatim>\<open>RecordCreateSet\<close> chooses the smaller. Both represent the union of the given intervals,
    and iteration yields its maximal intervals in order and ends.
  \<^item> \<open>Atoms\<close> (\<^verbatim>\<open>dix/atom.c\<close>, \<^verbatim>\<open>dix/initatoms.c\<close>): the search tree keyed by fingerprint and name and the
    table by number, with the predeclared atoms.
  \<^item> \<open>Resources\<close> (\<^verbatim>\<open>dix/resource.c\<close>, \<^verbatim>\<open>include/resource.h\<close>) holds the model of the resource database,
    \<open>Keyed_Store\<close> the two interfaces, the locales \<open>keyed_store\<close> and \<open>map_store\<close>, \<open>Resource_Table\<close> the
    invariant and the effect of each operation, \<open>Resource_Lookup\<close> the lookups and the refinement to a
    map from identifiers to stacks of resources, \<open>Resource_IDs\<close> the allocation of identifiers, and
    \<open>Resource_Examples\<close> the concrete runs.
  \<^item> \<open>Region\<close> (\<^verbatim>\<open>dix/region.c\<close>, \<^verbatim>\<open>include/regionstr.h\<close>) holds the model of y-x banded regions, \<open>Region_Op\<close> the
    sweep over bands with the union as its overlap function, \<open>Region_Sort\<close> the quicksort of boxes,
    \<open>Region_Validate\<close> the construction of a region from arbitrary boxes and rectangles. A region stands
    for the set of points its boxes cover; the canonical form is \<open>banded\<close>.
  \<^item> \<open>Hash_Table\<close> (\<^verbatim>\<open>Xext/hashtable.c\<close>): chains in an array that doubles; a map, through the locale of maps.
  \<^item> \<open>Timestamps\<close> (\<^verbatim>\<open>dix/dixutils.c\<close>, \<^verbatim>\<open>dix/dispatch.c\<close>): server time and the conversion of client time.
  \<^item> \<open>Window_Optional\<close> (\<^verbatim>\<open>dix/window.c\<close>): the optional part of a window. \<open>Window_Properties\<close> and
    \<open>Property_Requests\<close> (\<^verbatim>\<open>dix/property.c\<close>): the properties in it, the routine that changes one, and the five
    requests, which use the atoms, the time and the optional record.
  \<^item> \<open>Selections\<close> (\<^verbatim>\<open>dix/selection.c\<close>): owners of selections, ordered by server time.
  \<^item> \<open>Event_Queue\<close> (\<^verbatim>\<open>mi/mieq.c\<close>): the ring of input events between the signal handler and the main loop.
  \<^item> \<open>Grabs\<close> (\<^verbatim>\<open>dix/grabs.c\<close>): the passive grabs of a window as sets of combinations of modifiers and keys.

  \<^bold>\<open>What the theorems show.\<close> For each part: that its invariant is kept by every operation, what each
  operation does on every branch, and that the structure refines the abstract object it stands for
  (a set, a map, a map to stacks, a set of points, a bounded list, a map of contents, a map of owners,
  a set of claims). The loops end. Interleavings are covered by step relations: any sequence of requests
  on properties and selections, any interleaving of arriving events with the turns of the loop. The
  error theorems say what a refused request leaves behind. Where the code does not do what it means
  to, a theorem or lemma shows what it does: the answers of the access hook, the optional record that is
  never released, the wrapped offset of \<^verbatim>\<open>GetProperty\<close>, the ignored failure inside \<^verbatim>\<open>RegionOp\<close>, the custom
  handler that ends a round, the chains that a doubling reverses.

  \<^bold>\<open>Parameters.\<close> Code outside the modelled parts is an argument of the definitions: delete functions and the
  access hook, the lookup of a window, the clock, the hash and comparison functions of a table, the
  event codes of the input extension, the identifiers made up for a client. The hypotheses on
  them are those of the theorem that uses them, and each such theorem has an instance beside it.

  \<^bold>\<open>Not modelled.\<close> In the modelled files: the functions that only print (\<^verbatim>\<open>PrintPropertys\<close>, \<^verbatim>\<open>RegionPrint\<close>,
  \<^verbatim>\<open>ht_dump_distribution\<close>, \<^verbatim>\<open>ht_dump_contents\<close>), \<^verbatim>\<open>ht_resourceid_hash\<close> (it calls a function the tree does not
  define), the private data of selections, the reference counts of cursors. The set operations on
  regions that \<^verbatim>\<open>regionstr.h\<close> hands to the pixman library are not code of the repository. The
  remaining server (drawing, fonts, device drivers, transport, the other extensions) and the copies of
  other software in the tree (\<^verbatim>\<open>extras/\<close>, \<^verbatim>\<open>lib/\<close>, \<^verbatim>\<open>programs/\<close>, the older copy of the server in
  \<^verbatim>\<open>programs/Xserver/\<close>) are outside.
\<close>

end
